(* ===== verification/Prelude.thy ===== *)
theory Prelude
  imports Main "HOL-Library.AList" "HOL-Library.Product_Lexorder"
begin

text \<open>
  Shared vocabulary of the development: Python strings, dictionaries, results that may raise, and
  the lemma collections the component theories extend.

  A Python \<open>str\<close> is a sequence of Unicode code points, so it is modelled as a list of integers
  (\<open>pystr\<close>); Lean sources are full of symbols outside ASCII, and columns and lengths count code
  points.  \<open>lit\<close> turns an Isabelle literal into such a list.  A Python \<open>dict\<close> keeps its insertion
  order, which iteration and sorting observe, so it is an association list with distinct keys;
  \<open>AList.update\<close> replaces a value in place or appends a new key at the end, and \<open>AList.delete\<close>
  removes a key, exactly as \<open>d[k] = v\<close> and \<open>d.pop(k, None)\<close> do.  A computation that may raise
  returns \<open>Inl e\<close> for the exception \<open>e\<close> and \<open>Inr x\<close> for the result \<open>x\<close>.
\<close>

section \<open>Lemma collections\<close>

named_theorems dict_simps \<open>lookup, keys and well-formedness of dictionaries after an operation\<close>
named_theorems py_defs \<open>definitions unfolded to evaluate a closed instance\<close>
named_theorems inv_intros \<open>operations that keep a component's invariant\<close>

section \<open>Strings\<close>

type_synonym pystr = "int list"

definition lit :: "string \<Rightarrow> pystr" where
  "lit s = map of_char s"

lemma lit_Nil [simp]: "lit [] = []"
  by (simp add: lit_def)

lemma lit_eq_Nil [simp]: "lit s = [] \<longleftrightarrow> s = []"
  by (simp add: lit_def)

lemma lit_inj [simp]: "lit s = lit t \<longleftrightarrow> s = t"
  by (simp add: lit_def inj_map_eq_map inj_on_def)

lemma length_lit [simp]: "length (lit s) = length s"
  by (simp add: lit_def)

section \<open>Dictionaries\<close>

type_synonym ('k, 'v) pydict = "('k \<times> 'v) list"

abbreviation dget :: "('k, 'v) pydict \<Rightarrow> 'k \<Rightarrow> 'v option" where
  "dget d k \<equiv> map_of d k"

abbreviation dset :: "'k \<Rightarrow> 'v \<Rightarrow> ('k, 'v) pydict \<Rightarrow> ('k, 'v) pydict" where
  "dset k v d \<equiv> AList.update k v d"

abbreviation dpop :: "'k \<Rightarrow> ('k, 'v) pydict \<Rightarrow> ('k, 'v) pydict" where
  "dpop k d \<equiv> AList.delete k d"

definition dwf :: "('k, 'v) pydict \<Rightarrow> bool" where
  "dwf d \<longleftrightarrow> distinct (map fst d)"

text \<open>\<open>d.get(k, default)\<close>\<close>

definition dget_or :: "('k, 'v) pydict \<Rightarrow> 'k \<Rightarrow> 'v \<Rightarrow> 'v" where
  "dget_or d k v = (case dget d k of None \<Rightarrow> v | Some w \<Rightarrow> w)"

lemma dwf_Nil [simp]: "dwf []"
  by (simp add: dwf_def)

lemma dwf_dset [simp, intro]: "dwf d \<Longrightarrow> dwf (dset k v d)"
  by (simp add: dwf_def distinct_update)

lemma dwf_dpop [simp, intro]: "dwf d \<Longrightarrow> dwf (dpop k d)"
  by (simp add: dwf_def distinct_delete)

lemma dwf_filter [simp, intro]: "dwf d \<Longrightarrow> dwf (filter P d)"
  by (induction d) (auto simp: dwf_def)

lemma dget_dset [simp, dict_simps]: "dget (dset k v d) = (dget d)(k \<mapsto> v)"
  by (rule update_conv')

lemma dget_dpop [simp, dict_simps]: "dget (dpop k d) = (dget d)(k := None)"
  by (rule delete_conv')

lemma dget_or_dset [dict_simps]:
  "dget_or (dset k v d) k' w = (if k = k' then v else dget_or d k' w)"
  by (simp add: dget_or_def)

lemma dget_in_set: "dwf d \<Longrightarrow> (k, v) \<in> set d \<longleftrightarrow> dget d k = Some v"
  by (simp add: dwf_def map_of_eq_Some_iff)

lemma dget_values: "dwf d \<Longrightarrow> v \<in> set (map snd d) \<longleftrightarrow> (\<exists>k. dget d k = Some v)"
  by (force simp: dget_in_set [symmetric])

lemma dget_keys: "k \<in> set (map fst d) \<longleftrightarrow> dget d k \<noteq> None"
  by (metis map_of_eq_None_iff set_map)

lemma keys_dpop: "set (map fst (dpop k d)) = set (map fst d) - {k}"
  by (simp add: delete_keys)

lemma length_dpop_le: "length (dpop k d) \<le> length d"
  by (rule length_delete_le)

lemma dpop_absent: "dget d k = None \<Longrightarrow> dpop k d = d"
  by (simp add: delete_id map_of_eq_None_iff)

text \<open>Sums over the values of a dictionary, the shape of every byte or pin total of the server.\<close>

definition dsum :: "('v \<Rightarrow> int) \<Rightarrow> ('k, 'v) pydict \<Rightarrow> int" where
  "dsum f d = sum_list (map (\<lambda>p. f (snd p)) d)"

lemma dsum_Nil [simp]: "dsum f [] = 0"
  by (simp add: dsum_def)

lemma dsum_Cons [simp]: "dsum f ((k, v) # d) = f v + dsum f d"
  by (simp add: dsum_def)

lemma dsum_dset_new: "dget d k = None \<Longrightarrow> dsum f (dset k v d) = dsum f d + f v"
  by (induction d) (auto split: if_splits)

lemma dsum_dset_old:
  "dwf d \<Longrightarrow> dget d k = Some w \<Longrightarrow> dsum f (dset k v d) = dsum f d - f w + f v"
  by (induction d) (auto simp: dwf_def split: if_splits)

lemma dsum_dpop:
  "dwf d \<Longrightarrow> dget d k = Some w \<Longrightarrow> dsum f (dpop k d) = dsum f d - f w"
proof (induction d)
  case (Cons p d)
  obtain k' v' where p: "p = (k', v')" by force
  show ?case
  proof (cases "k' = k")
    case True
    with Cons.prems(1) p have "dpop k d = d"
      by (intro dpop_absent) (simp add: dwf_def map_of_eq_None_iff)
    with True Cons.prems p show ?thesis by simp
  next
    case False
    with Cons p show ?thesis by (simp add: dwf_def)
  qed
qed simp

lemma dsum_nonneg: "(\<And>v. v \<in> set (map snd d) \<Longrightarrow> 0 \<le> f v) \<Longrightarrow> 0 \<le> dsum f d"
  by (induction d) auto

lemma dsum_mono: "(\<And>v. v \<in> set (map snd d) \<Longrightarrow> f v \<le> g v) \<Longrightarrow> dsum f d \<le> dsum g d"
  by (induction d) (auto simp: add_mono)

section \<open>Results that may raise\<close>

fun ebind :: "'e + 'a \<Rightarrow> ('a \<Rightarrow> 'e + 'b) \<Rightarrow> 'e + 'b" where
  "ebind (Inl e) f = Inl e"
| "ebind (Inr x) f = f x"

text \<open>A loop whose body may raise: the first exception ends it.\<close>

fun emap :: "('a \<Rightarrow> 'e + 'b) \<Rightarrow> 'a list \<Rightarrow> 'e + 'b list" where
  "emap f [] = Inr []"
| "emap f (x # xs) = ebind (f x) (\<lambda>y. ebind (emap f xs) (\<lambda>ys. Inr (y # ys)))"

text \<open>\<open>if not c: raise e\<close>\<close>

definition ensure :: "bool \<Rightarrow> 'e \<Rightarrow> 'e + unit" where
  "ensure c e = (if c then Inr () else Inl e)"

lemma ebind_Inr [simp]: "ebind m f = Inr y \<longleftrightarrow> (\<exists>x. m = Inr x \<and> f x = Inr y)"
  by (cases m) auto

lemma ebind_Inl: "ebind m f = Inl e \<longleftrightarrow> m = Inl e \<or> (\<exists>x. m = Inr x \<and> f x = Inl e)"
  by (cases m) auto

lemma ensure_Inr [simp]: "ensure c e = Inr x \<longleftrightarrow> c"
  by (simp add: ensure_def)

lemma ensure_Inl [simp]: "ensure c e = Inl e' \<longleftrightarrow> \<not> c \<and> e' = e"
  by (auto simp: ensure_def)

lemma emap_length: "emap f xs = Inr ys \<Longrightarrow> length ys = length xs"
  by (induction xs arbitrary: ys) auto

lemma emap_nth: "emap f xs = Inr ys \<Longrightarrow> i < length xs \<Longrightarrow> f (xs ! i) = Inr (ys ! i)"
proof (induction xs arbitrary: ys i)
  case (Cons x xs)
  then show ?case by (cases i) auto
qed simp

lemma emap_total: "(\<And>x. x \<in> set xs \<Longrightarrow> f x = Inr (g x)) \<Longrightarrow> emap f xs = Inr (map g xs)"
  by (induction xs) auto

section \<open>Reachable states\<close>

inductive reaches :: "('s \<Rightarrow> 's \<Rightarrow> bool) \<Rightarrow> 's \<Rightarrow> 's \<Rightarrow> bool" for step where
  reaches_refl [intro]: "reaches step s s"
| reaches_step: "reaches step s t \<Longrightarrow> step t u \<Longrightarrow> reaches step s u"

text \<open>
  A component seen as a step system: what its steps keep, an invariant and the part of the state that they
  never change, holds along every run.
\<close>

locale step_system =
  fixes step :: "'s \<Rightarrow> 's \<Rightarrow> bool" and inv :: "'s \<Rightarrow> bool" and fixed :: "'s \<Rightarrow> 'c"
  assumes keeps: "inv s \<Longrightarrow> step s t \<Longrightarrow> inv t \<and> fixed t = fixed s"
begin

lemma reached: "reaches step s t \<Longrightarrow> inv s \<Longrightarrow> inv t \<and> fixed t = fixed s"
  by (induction rule: reaches.induct) (auto dest: keeps)

lemma grows:
  fixes measured :: "'s \<Rightarrow> 'n::order"
  assumes "\<And>s t. inv s \<Longrightarrow> step s t \<Longrightarrow> measured s \<le> measured t" "reaches step s t" "inv s"
  shows "measured s \<le> measured t"
  using assms(2,3)
proof (induction rule: reaches.induct)
  case (reaches_step s t u)
  then show ?case using assms(1) [of t u] reached [of s t] by (blast intro: order_trans)
qed simp

end

lemma reaches_trans: "reaches step t u \<Longrightarrow> reaches step s t \<Longrightarrow> reaches step s u"
  by (induction rule: reaches.induct) (auto intro: reaches_step)

section \<open>Lists\<close>

text \<open>\<open>len(set(xs)) == len(xs)\<close>, the uniqueness test of the request validators.\<close>

lemma card_set_distinct: "card (set xs) = length xs \<longleftrightarrow> distinct xs"
  by (metis card_distinct distinct_card)

lemma takeWhile_dropWhile_take: "takeWhile P xs = take (length (takeWhile P xs)) xs"
  by (metis takeWhile_eq_take)

lemma dropWhile_drop: "dropWhile P xs = drop (length (takeWhile P xs)) xs"
  by (rule dropWhile_eq_drop)

lemma remove1_facts:
  "t \<in> set xs \<Longrightarrow> int (length (remove1 t xs)) = int (length xs) - 1"
  "t \<notin> set xs \<Longrightarrow> remove1 t xs = xs"
  by (auto simp: length_remove1 remove1_idem Suc_leI of_nat_diff in_set_conv_nth)

lemma foldl_inv:
  "I s \<Longrightarrow> (\<And>s x. I s \<Longrightarrow> x \<in> set xs \<Longrightarrow> I (f s x)) \<Longrightarrow> I (foldl f s xs)"
  by (induction xs arbitrary: s) auto

text \<open>\<open>xs[start : start + n]\<close> for the starts \<open>range(0, len(xs), n)\<close>\<close>

function chunks :: "nat \<Rightarrow> 'a list \<Rightarrow> 'a list list" where
  "chunks n xs = (if n = 0 \<or> xs = [] then [] else take n xs # chunks n (drop n xs))"
  by pat_completeness auto

termination chunks
  by (relation "measure (\<lambda>(n, xs). length xs)") auto

declare chunks.simps [simp del]

lemma chunks_Nil [simp]: "chunks n [] = []"
  by (simp add: chunks.simps)

lemma concat_chunks: "0 < n \<Longrightarrow> concat (chunks n xs) = xs"
proof (induction n xs rule: chunks.induct)
  case (1 n xs)
  then show ?case by (cases "xs = []") (simp_all add: chunks.simps [of n xs])
qed

lemma chunks_bounds: "c \<in> set (chunks n xs) \<Longrightarrow> c \<noteq> [] \<and> length c \<le> n"
proof (induction n xs rule: chunks.induct)
  case (1 n xs)
  then show ?case by (cases "n = 0 \<or> xs = []") (auto simp: chunks.simps [of n xs])
qed

end
