(* ===== verification/PyText.thy ===== *)
theory PyText
  imports Prelude
begin

text \<open>
  The string methods of Python the source calls, on code points: prefix and suffix tests,
  \<open>strip\<close>, \<open>split\<close>, \<open>splitlines\<close>, \<open>join\<close>, \<open>str(int)\<close> and \<open>int(str)\<close>.  White space and line
  boundaries are the sets of the language reference (\<open>str.isspace\<close>, \<open>str.splitlines\<close>).
\<close>

section \<open>Prefixes, suffixes, substrings\<close>

fun starts_with :: "'a list \<Rightarrow> 'a list \<Rightarrow> bool" where
  "starts_with [] s = True"
| "starts_with (p # ps) [] = False"
| "starts_with (p # ps) (c # cs) = (p = c \<and> starts_with ps cs)"

definition ends_with :: "'a list \<Rightarrow> 'a list \<Rightarrow> bool" where
  "ends_with p s = starts_with (rev p) (rev s)"

fun contains :: "'a list \<Rightarrow> 'a list \<Rightarrow> bool" where
  "contains p [] = (p = [])"
| "contains p (c # cs) = (starts_with p (c # cs) \<or> contains p cs)"

text \<open>\<open>s.removeprefix(p)\<close>\<close>

definition removeprefix :: "'a list \<Rightarrow> 'a list \<Rightarrow> 'a list" where
  "removeprefix p s = (if starts_with p s then drop (length p) s else s)"

lemma starts_with_iff: "starts_with p s \<longleftrightarrow> (\<exists>t. s = p @ t)"
  by (induction p s rule: starts_with.induct) auto

lemma starts_with_append [simp]: "starts_with p (p @ s)"
  by (simp add: starts_with_iff)

lemma starts_with_same [simp]: "starts_with p p"
  by (simp add: starts_with_iff)

lemma ends_with_iff: "ends_with p s \<longleftrightarrow> (\<exists>t. s = t @ p)"
  by (auto simp: ends_with_def starts_with_iff) (metis rev_append rev_rev_ident)

lemma contains_iff: "contains p s \<longleftrightarrow> (\<exists>a b. s = a @ p @ b)"
proof (induction s)
  case (Cons c cs)
  show ?case
  proof
    assume "contains p (c # cs)"
    then consider "starts_with p (c # cs)" | "contains p cs" by auto
    then show "\<exists>a b. c # cs = a @ p @ b"
    proof cases
      case 1
      then obtain t where "c # cs = p @ t" by (auto simp: starts_with_iff)
      then have "c # cs = [] @ p @ t" by simp
      then show ?thesis by blast
    next
      case 2
      with Cons.IH obtain a b where "cs = a @ p @ b" by auto
      then have "c # cs = (c # a) @ p @ b" by simp
      then show ?thesis by blast
    qed
  next
    assume "\<exists>a b. c # cs = a @ p @ b"
    then obtain a b where ab: "c # cs = a @ p @ b" by auto
    show "contains p (c # cs)"
    proof (cases a)
      case Nil
      with ab have "starts_with p (c # cs)" by (auto simp: starts_with_iff)
      then show ?thesis by simp
    next
      case (Cons x a')
      with ab have "cs = a' @ p @ b" by simp
      then show ?thesis using Cons.IH by auto
    qed
  qed
qed auto

lemma removeprefix_append [simp]: "removeprefix p (p @ s) = s"
  by (simp add: removeprefix_def)

section \<open>White space\<close>

definition is_space :: "int \<Rightarrow> bool" where
  "is_space c \<longleftrightarrow> (9 \<le> c \<and> c \<le> 13) \<or> (28 \<le> c \<and> c \<le> 32) \<or> c = 133 \<or> c = 160 \<or> c = 5760
     \<or> (8192 \<le> c \<and> c \<le> 8202) \<or> c = 8232 \<or> c = 8233 \<or> c = 8239 \<or> c = 8287 \<or> c = 12288"

definition lstrip_by :: "('a \<Rightarrow> bool) \<Rightarrow> 'a list \<Rightarrow> 'a list" where
  "lstrip_by P s = dropWhile P s"

definition rstrip_by :: "('a \<Rightarrow> bool) \<Rightarrow> 'a list \<Rightarrow> 'a list" where
  "rstrip_by P s = rev (dropWhile P (rev s))"

definition lstrip :: "pystr \<Rightarrow> pystr" where
  "lstrip s = lstrip_by is_space s"

definition rstrip :: "pystr \<Rightarrow> pystr" where
  "rstrip s = rstrip_by is_space s"

definition strip :: "pystr \<Rightarrow> pystr" where
  "strip s = rstrip (lstrip s)"

lemma rstrip_by_suffix: "\<exists>w. s = rstrip_by P s @ w \<and> (\<forall>c \<in> set w. P c)"
proof -
  have "rev s = takeWhile P (rev s) @ dropWhile P (rev s)" by simp
  then have "s = rstrip_by P s @ rev (takeWhile P (rev s))"
    unfolding rstrip_by_def by (metis rev_append rev_rev_ident)
  moreover have "\<forall>c \<in> set (rev (takeWhile P (rev s))). P c"
    by (auto dest: set_takeWhileD)
  ultimately show ?thesis by blast
qed

lemma rstrip_by_take: "rstrip_by P s = take (length (rstrip_by P s)) s"
  using rstrip_by_suffix [of s P] by (metis append_eq_conv_conj)

lemma rstrip_by_drop: "rstrip_by P s @ drop (length (rstrip_by P s)) s = s"
  by (metis rstrip_by_take append_take_drop_id)

lemma rstrip_by_idem [simp]: "rstrip_by P (rstrip_by P s) = rstrip_by P s"
  by (simp add: rstrip_by_def)

lemma rstrip_by_last: "rstrip_by P s \<noteq> [] \<Longrightarrow> \<not> P (last (rstrip_by P s))"
  using hd_dropWhile [of P "rev s"] by (auto simp: rstrip_by_def last_rev)

lemma rstrip_by_all: "\<forall>c \<in> set s. P c \<Longrightarrow> rstrip_by P s = []"
  by (simp add: rstrip_by_def)

lemma rstrip_by_Nil: "rstrip_by P s = [] \<longleftrightarrow> (\<forall>c \<in> set s. P c)"
  by (auto simp: rstrip_by_def dropWhile_eq_Nil_conv)

lemma rstrip_by_id: "s \<noteq> [] \<Longrightarrow> \<not> P (last s) \<Longrightarrow> rstrip_by P s = s"
proof -
  assume "s \<noteq> []" "\<not> P (last s)"
  then have "dropWhile P (rev s) = rev s"
    by (metis dropWhile_eq_self_iff hd_rev)
  then show ?thesis by (simp add: rstrip_by_def)
qed

lemma rstrip_id: "s \<noteq> [] \<Longrightarrow> \<not> is_space (last s) \<Longrightarrow> rstrip s = s"
  unfolding rstrip_def by (rule rstrip_by_id)

lemma lstrip_id: "s \<noteq> [] \<Longrightarrow> \<not> is_space (hd s) \<Longrightarrow> lstrip s = s"
  by (cases s) (simp_all add: lstrip_def lstrip_by_def)

lemma strip_id:
  "s \<noteq> [] \<Longrightarrow> \<not> is_space (hd s) \<Longrightarrow> \<not> is_space (last s) \<Longrightarrow> strip s = s"
  by (simp add: strip_def lstrip_id rstrip_id)

lemma set_strip: "set (strip s) \<subseteq> set s"
proof -
  have "set (rev (dropWhile is_space (rev t))) \<subseteq> set t" for t
    using set_dropWhileD [of _ is_space "rev t"] by auto
  then show ?thesis
    using set_dropWhileD [of _ is_space s]
    by (fastforce simp: strip_def rstrip_def lstrip_def rstrip_by_def lstrip_by_def)
qed

lemma strip_Nil: "strip s = [] \<longleftrightarrow> (\<forall>c \<in> set s. is_space c)"
proof
  assume "strip s = []"
  then have all: "\<forall>c \<in> set (dropWhile is_space s). is_space c"
    by (simp add: strip_def rstrip_def rstrip_by_Nil lstrip_def lstrip_by_def)
  have "dropWhile is_space s = []"
  proof (rule ccontr)
    assume ne: "dropWhile is_space s \<noteq> []"
    then have "\<not> is_space (hd (dropWhile is_space s))" by (rule hd_dropWhile)
    with ne all show False by simp
  qed
  then show "\<forall>c \<in> set s. is_space c" by simp
next
  assume "\<forall>c \<in> set s. is_space c"
  then show "strip s = []"
    by (simp add: strip_def rstrip_def rstrip_by_Nil lstrip_def lstrip_by_def) (metis set_dropWhileD)
qed

lemma strip_ends:
  assumes "strip s \<noteq> []"
  shows "\<not> is_space (hd (strip s))" "\<not> is_space (last (strip s))"
proof -
  let ?l = "lstrip_by is_space s"
  have st: "strip s = rstrip_by is_space ?l"
    by (simp add: strip_def rstrip_def lstrip_def)
  from assms show "\<not> is_space (last (strip s))"
    unfolding st by (rule rstrip_by_last)
  have ne: "?l \<noteq> []" using assms by (auto simp: st rstrip_by_def)
  have "hd (strip s) = hd ?l"
    using assms rstrip_by_suffix [of ?l is_space] unfolding st by (metis hd_append2)
  then show "\<not> is_space (hd (strip s))"
    using ne hd_dropWhile by (metis lstrip_by_def)
qed

lemma strip_strip [simp]: "strip (strip s) = strip s"
proof (cases "strip s = []")
  case True
  have "strip [] = []" by (simp add: strip_Nil)
  with True show ?thesis by simp
next
  case False
  then show ?thesis by (intro strip_id strip_ends)
qed

section \<open>Lines\<close>

definition is_linebreak :: "int \<Rightarrow> bool" where
  "is_linebreak c \<longleftrightarrow> (10 \<le> c \<and> c \<le> 13) \<or> (28 \<le> c \<and> c \<le> 30) \<or> c = 133 \<or> c = 8232 \<or> c = 8233"

text \<open>
  \<open>s.splitlines()\<close> and \<open>s.splitlines(keepends=True)\<close>: the accumulator holds the current line; a
  carriage return and a line feed together are one boundary, and no empty line follows the last
  boundary.
\<close>

fun split_lines_acc :: "bool \<Rightarrow> pystr \<Rightarrow> pystr \<Rightarrow> pystr list" where
  "split_lines_acc keep acc [] = (if acc = [] then [] else [acc])"
| "split_lines_acc keep acc (c # cs) =
     (if c = 13 \<and> starts_with [10] cs
      then (if keep then acc @ [13, 10] else acc) # split_lines_acc keep [] (drop 1 cs)
      else if is_linebreak c
      then (if keep then acc @ [c] else acc) # split_lines_acc keep [] cs
      else split_lines_acc keep (acc @ [c]) cs)"

definition splitlines :: "pystr \<Rightarrow> pystr list" where
  "splitlines s = split_lines_acc False [] s"

definition splitlines_keep :: "pystr \<Rightarrow> pystr list" where
  "splitlines_keep s = split_lines_acc True [] s"

lemma concat_split_lines_acc: "concat (split_lines_acc True acc s) = acc @ s"
proof (induction True acc s rule: split_lines_acc.induct)
  case (2 acc c cs)
  show ?case
  proof (cases "c = 13 \<and> starts_with [10] cs")
    case True
    then obtain t where "cs = 10 # t" by (cases cs) auto
    with True 2(1) show ?thesis by simp
  next
    case False
    with 2(2,3) show ?thesis by auto
  qed
qed simp

lemma concat_splitlines_keep [simp]: "concat (splitlines_keep s) = s"
  by (simp add: splitlines_keep_def concat_split_lines_acc)

lemma split_lines_acc_no_break:
  "\<forall>c \<in> set s. \<not> is_linebreak c \<Longrightarrow>
   split_lines_acc keep acc s = (if acc @ s = [] then [] else [acc @ s])"
proof (induction s arbitrary: acc)
  case (Cons c s)
  then have "c \<noteq> 13" "\<not> is_linebreak c" by (auto simp: is_linebreak_def)
  with Cons show ?case by simp
qed auto

lemma split_lines_acc_line:
  "\<forall>c \<in> set l. \<not> is_linebreak c \<Longrightarrow>
   split_lines_acc False acc (l @ 10 # s) = (acc @ l) # split_lines_acc False [] s"
proof (induction l arbitrary: acc)
  case Nil
  show ?case by (simp add: is_linebreak_def)
next
  case (Cons c l)
  then have "c \<noteq> 13" "\<not> is_linebreak c" by (auto simp: is_linebreak_def)
  with Cons show ?case by simp
qed

lemma split_lines_acc_break_free:
  "\<forall>c \<in> set acc. \<not> is_linebreak c \<Longrightarrow>
   l \<in> set (split_lines_acc False acc s) \<Longrightarrow> c \<in> set l \<Longrightarrow> \<not> is_linebreak c"
proof (induction False acc s arbitrary: l c rule: split_lines_acc.induct)
  case (1 acc)
  then show ?case by (auto split: if_splits)
next
  case (2 acc b cs)
  show ?case
  proof (cases "b = 13 \<and> starts_with [10] cs")
    case True
    with "2.prems" "2.hyps"(1) [of l c] show ?thesis by auto
  next
    case F: False
    show ?thesis
    proof (cases "is_linebreak b")
      case True
      with F "2.prems" "2.hyps"(2) [of l c] show ?thesis by auto
    next
      case False
      with F "2.prems" "2.hyps"(3) [of l c] show ?thesis by auto
    qed
  qed
qed

lemma splitlines_break_free:
  "l \<in> set (splitlines s) \<Longrightarrow> c \<in> set l \<Longrightarrow> \<not> is_linebreak c"
  unfolding splitlines_def by (rule split_lines_acc_break_free [of "[]"]) auto

text \<open>\<open>sep.join(xs)\<close>\<close>

fun join :: "'a list \<Rightarrow> 'a list list \<Rightarrow> 'a list" where
  "join sep [] = []"
| "join sep [x] = x"
| "join sep (x # y # ys) = x @ sep @ join sep (y # ys)"

text \<open>
  Splitting a text joined with line feeds gives the lines back, but for a trailing empty line,
  which leaves no trace.
\<close>

lemma splitlines_join:
  assumes "\<forall>l \<in> set ls. \<forall>c \<in> set l. \<not> is_linebreak c"
  shows "splitlines (join [10] ls) =
    (if ls \<noteq> [] \<and> last ls = [] then butlast ls else ls)"
  using assms unfolding splitlines_def
proof (induction ls rule: induct_list012)
  case (2 x)
  then show ?case by (simp add: split_lines_acc_no_break)
next
  case (3 x y zs)
  then show ?case by (simp add: split_lines_acc_line)
qed simp

lemma splitlines_join_nth:
  assumes "\<forall>l \<in> set ls. \<forall>c \<in> set l. \<not> is_linebreak c"
    and "k < length (splitlines (join [10] ls))"
  shows "k < length ls" "splitlines (join [10] ls) ! k = ls ! k"
  using assms(2) by (auto simp: splitlines_join [OF assms(1)] nth_butlast split: if_splits)

text \<open>\<open>s.split(c)\<close> for a one-character separator\<close>

fun split_on :: "'a \<Rightarrow> 'a list \<Rightarrow> 'a list list" where
  "split_on d [] = [[]]"
| "split_on d (c # cs) =
     (if c = d then [] # split_on d cs
      else (case split_on d cs of [] \<Rightarrow> [[c]] | l # ls \<Rightarrow> (c # l) # ls))"

lemma split_on_nonempty [simp]: "split_on d s \<noteq> []"
  by (cases s) (auto split: list.splits)

lemma join_split_on [simp]: "join [d] (split_on d s) = s"
proof (induction s)
  case (Cons c cs)
  then show ?case
    by (cases "split_on d cs" rule: remdups_adj.cases) (auto simp: neq_Nil_conv split: list.splits)
qed simp

text \<open>\<open>s.split()\<close>: maximal runs of characters that are not white space\<close>

fun split_ws_acc :: "pystr \<Rightarrow> pystr \<Rightarrow> pystr list" where
  "split_ws_acc acc [] = (if acc = [] then [] else [acc])"
| "split_ws_acc acc (c # cs) =
     (if is_space c then (if acc = [] then split_ws_acc [] cs else acc # split_ws_acc [] cs)
      else split_ws_acc (acc @ [c]) cs)"

definition split_ws :: "pystr \<Rightarrow> pystr list" where
  "split_ws s = split_ws_acc [] s"

lemma split_ws_acc_nonempty: "split_ws_acc acc s = [] \<longleftrightarrow> acc = [] \<and> (\<forall>c \<in> set s. is_space c)"
  by (induction acc s rule: split_ws_acc.induct) auto

lemma split_ws_Nil: "split_ws s = [] \<longleftrightarrow> (\<forall>c \<in> set s. is_space c)"
  by (simp add: split_ws_def split_ws_acc_nonempty)

section \<open>Case folding\<close>

text \<open>
  \<open>s.lower()\<close> on the letters whose lower case is an ASCII letter (A to Z and the Kelvin sign);
  every use compares the result with an ASCII literal, which no other letter can produce.
\<close>

definition lower_char :: "int \<Rightarrow> int" where
  "lower_char c = (if 65 \<le> c \<and> c \<le> 90 then c + 32 else if c = 8490 then 107 else c)"

definition lower :: "pystr \<Rightarrow> pystr" where
  "lower s = map lower_char s"

lemma lower_idem [simp]: "lower (lower s) = lower s"
  by (simp add: lower_def lower_char_def)

section \<open>Decimal numbers\<close>

fun nat_digits :: "nat \<Rightarrow> pystr" where
  "nat_digits n = (if n < 10 then [48 + int n] else nat_digits (n div 10) @ [48 + int (n mod 10)])"

declare nat_digits.simps [simp del]

text \<open>\<open>str(i)\<close>\<close>

definition str_int :: "int \<Rightarrow> pystr" where
  "str_int i = (if i < 0 then 45 # nat_digits (nat (- i)) else nat_digits (nat i))"

definition is_digit :: "int \<Rightarrow> bool" where
  "is_digit c \<longleftrightarrow> 48 \<le> c \<and> c \<le> 57"

definition digits_val :: "pystr \<Rightarrow> int" where
  "digits_val s = foldl (\<lambda>v c. 10 * v + (c - 48)) 0 s"

text \<open>
  \<open>int(s)\<close> on ASCII digits with surrounding white space and a sign; \<open>None\<close> is \<open>ValueError\<close>.
  (Python also reads digits of other scripts and underscores between digits, which no caller here
  produces.)
\<close>

definition py_int :: "pystr \<Rightarrow> int option" where
  "py_int s =
     (let t = strip s;
          neg = starts_with [45] t;
          d = (if neg \<or> starts_with [43] t then drop 1 t else t)
      in if d \<noteq> [] \<and> list_all is_digit d
         then Some (if neg then - digits_val d else digits_val d) else None)"

lemma nat_digits_digits: "list_all is_digit (nat_digits n)"
proof (induction n rule: nat_digits.induct)
  case (1 n)
  show ?case
  proof (cases "n < 10")
    case True
    then show ?thesis by (subst nat_digits.simps) (simp add: is_digit_def)
  next
    case False
    have "is_digit (48 + int (n mod 10))"
      using mod_less_divisor [of 10 n] by (simp add: is_digit_def)
    with False "1.IH" show ?thesis by (subst nat_digits.simps) simp
  qed
qed

lemma nat_digits_nonempty [simp]: "nat_digits n \<noteq> []"
  by (subst nat_digits.simps) simp

lemma digits_val_nat_digits [simp]: "digits_val (nat_digits n) = int n"
proof (induction n rule: nat_digits.induct)
  case (1 n)
  show ?case
  proof (cases "n < 10")
    case True
    then show ?thesis by (subst nat_digits.simps) (simp add: digits_val_def)
  next
    case False
    with "1.IH" have "digits_val (nat_digits (n div 10)) = int (n div 10)" by simp
    moreover have "10 * int (n div 10) + int (n mod 10) = int n"
      by (metis mult_div_mod_eq of_nat_add of_nat_mult of_nat_numeral)
    ultimately show ?thesis
      using False by (subst nat_digits.simps) (simp add: digits_val_def)
  qed
qed

lemma is_digit_not_space: "is_digit c \<Longrightarrow> \<not> is_space c"
  by (auto simp: is_digit_def is_space_def)

lemma str_int_ends:
  "str_int i \<noteq> [] \<and> \<not> is_space (hd (str_int i)) \<and> \<not> is_space (last (str_int i))"
proof -
  have d: "\<not> is_space (hd (nat_digits n)) \<and> \<not> is_space (last (nat_digits n))" for n
    using nat_digits_digits [of n]
    by (metis is_digit_not_space hd_in_set last_in_set list_all_iff nat_digits_nonempty)
  show ?thesis
    using d by (auto simp: str_int_def is_space_def [of 45])
qed

lemma py_int_str_int [simp]: "py_int (str_int i) = Some i"
proof -
  have s: "strip (str_int i) = str_int i"
    using str_int_ends by (intro strip_id) auto
  have nd: "\<not> starts_with [c] (nat_digits n)" if "\<not> is_digit c" for c n
    using nat_digits_digits [of n] that by (cases "nat_digits n") auto
  show ?thesis
  proof (cases "i < 0")
    case True
    then have "str_int i = 45 # nat_digits (nat (- i))" by (simp add: str_int_def)
    with True s show ?thesis by (simp add: py_int_def nat_digits_digits)
  next
    case False
    then have "str_int i = nat_digits (nat i)" by (simp add: str_int_def)
    with False s show ?thesis
      by (simp add: py_int_def nat_digits_digits nd is_digit_def)
  qed
qed

end
