(* ===== verification/Split.thy ===== *)
theory Split
  imports PyText
begin

text \<open>
  \<open>server/split.py\<close>: a submitted snippet is split into a normalised import header, which selects
  the worker, and a body, which the worker runs; messages about the body are shifted back by the
  number of header lines.  \<open>imports_from_header\<close> of \<open>server/pantograph_manager.py\<close> reads the module
  names of a normalised header when a worker is started.
\<close>

section \<open>Definitions\<close>

record split_result =
  sr_header :: pystr
  sr_body :: pystr
  sr_header_line_count :: nat

text \<open>The loop condition: blank lines and lines that start with \<open>import \<close> after stripping.\<close>

definition is_header_line :: "pystr \<Rightarrow> bool" where
  "is_header_line l \<longleftrightarrow> strip l = [] \<or> starts_with (lit ''import '') (strip l)"

text \<open>\<open>while i < len(lines) and \<dots>: i += 1\<close>\<close>

fun count_header :: "pystr list \<Rightarrow> nat" where
  "count_header [] = 0"
| "count_header (l # ls) = (if is_header_line l then Suc (count_header ls) else 0)"

text \<open>The import loop: the flag, the imports collected so far, and the set of those seen.\<close>

fun collect_imports ::
  "bool \<Rightarrow> pystr list \<Rightarrow> pystr set \<Rightarrow> pystr list \<Rightarrow> bool \<times> pystr list" where
  "collect_imports has_mathlib imports seen [] = (has_mathlib, imports)"
| "collect_imports has_mathlib imports seen (line # rest) =
     (if starts_with (lit ''import Mathlib'') line
      then collect_imports True imports seen rest
      else if line \<notin> seen
      then collect_imports has_mathlib (imports @ [line]) (insert line seen) rest
      else collect_imports has_mathlib imports seen rest)"

definition split_snippet :: "pystr \<Rightarrow> split_result" where
  "split_snippet code =
     (let lines = splitlines code;
          i = count_header lines;
          header_lines = map strip (take i lines);
          body = join [10] (drop i lines);
          import_lines = filter (starts_with (lit ''import '')) header_lines;
          (has_mathlib, imports) = collect_imports False [] {} import_lines;
          result_header = (if has_mathlib then [lit ''import Mathlib''] else []) @ imports
      in \<lparr>sr_header = join [10] result_header, sr_body = body, sr_header_line_count = i\<rparr>)"

definition imports_from_header :: "pystr \<Rightarrow> pystr list" where
  "imports_from_header header =
     (let imports = concat (map (\<lambda>line.
             (let stripped = strip line
              in if starts_with (lit ''import '') stripped
                 then split_ws (removeprefix (lit ''import '') stripped) else []))
           (splitlines header))
      in if imports = [] then [lit ''Init''] else imports)"

section \<open>Lemmas\<close>

lemma count_header_takeWhile: "count_header ls = length (takeWhile is_header_line ls)"
  by (induction ls) auto

lemma count_header_le: "count_header ls \<le> length ls"
  by (induction ls) auto

lemma count_header_stop:
  "count_header ls < length ls \<Longrightarrow> \<not> is_header_line (ls ! count_header ls)"
  by (induction ls) (auto split: if_splits)

lemma collect_imports_flag:
  "fst (collect_imports has acc seen ls) =
     (has \<or> (\<exists>l \<in> set ls. starts_with (lit ''import Mathlib'') l))"
  by (induction has acc seen ls rule: collect_imports.induct) auto

lemma collect_imports_set:
  "seen = set acc \<Longrightarrow> set (snd (collect_imports has acc seen ls)) =
      set acc \<union> {l \<in> set ls. \<not> starts_with (lit ''import Mathlib'') l}"
  by (induction has acc seen ls rule: collect_imports.induct) auto

lemma collect_imports_distinct:
  "seen = set acc \<Longrightarrow> distinct acc \<Longrightarrow> distinct (snd (collect_imports has acc seen ls))"
  by (induction has acc seen ls rule: collect_imports.induct) auto


text \<open>The lines of the header that are imports.\<close>

definition header_imports :: "pystr \<Rightarrow> pystr list" where
  "header_imports code =
     filter (starts_with (lit ''import '')) (map strip (takeWhile is_header_line (splitlines code)))"

definition result_header_lines :: "pystr \<Rightarrow> pystr list" where
  "result_header_lines code =
     (let (has_mathlib, imports) = collect_imports False [] {} (header_imports code)
      in (if has_mathlib then [lit ''import Mathlib''] else []) @ imports)"

lemma take_count_header:
  "take (count_header ls) ls = takeWhile is_header_line ls"
  by (simp add: count_header_takeWhile takeWhile_dropWhile_take [symmetric])

lemma split_snippet_fields:
  "sr_header (split_snippet code) = join [10] (result_header_lines code)"
  "sr_body (split_snippet code) = join [10] (drop (count_header (splitlines code)) (splitlines code))"
  "sr_header_line_count (split_snippet code) = count_header (splitlines code)"
  by (simp_all add: split_snippet_def Let_def take_count_header header_imports_def
        result_header_lines_def split: prod.splits)

lemma set_result_header_lines:
  "set (result_header_lines code) =
     (if \<exists>l \<in> set (header_imports code). starts_with (lit ''import Mathlib'') l
      then {lit ''import Mathlib''} else {})
     \<union> {l \<in> set (header_imports code). \<not> starts_with (lit ''import Mathlib'') l}"
  using collect_imports_flag [of False "[]" "{}" "header_imports code"]
    collect_imports_set [of "{}" "[]" False "header_imports code"]
  by (cases "collect_imports False [] {} (header_imports code)") (simp add: result_header_lines_def)

lemma distinct_result_header_lines: "distinct (result_header_lines code)"
  using collect_imports_distinct [of "{}" "[]" False "header_imports code"]
    collect_imports_set [of "{}" "[]" False "header_imports code"]
  by (auto simp: result_header_lines_def split: prod.splits)

lemma header_imports_stripped:
  "l \<in> set (header_imports code) \<Longrightarrow> strip l = l \<and> starts_with (lit ''import '') l"
  by (auto simp: header_imports_def)

lemma header_imports_break_free:
  assumes "l \<in> set (header_imports code)" and "c \<in> set l"
  shows "\<not> is_linebreak c"
proof -
  from assms(1) obtain r where r: "r \<in> set (splitlines code)" "l = strip r"
    by (auto simp: header_imports_def dest: set_takeWhileD)
  with assms(2) set_strip [of r] have "c \<in> set r" by auto
  with r(1) show ?thesis by (rule splitlines_break_free)
qed

lemma result_header_lines_props:
  assumes "l \<in> set (result_header_lines code)"
  shows "strip l = l" "starts_with (lit ''import '') l" "l \<noteq> []" "\<forall>c \<in> set l. \<not> is_linebreak c"
proof -
  have m: "strip (lit ''import Mathlib'') = lit ''import Mathlib''"
    by (rule strip_id) (simp_all add: lit_def is_space_def)
  have p: "starts_with (lit ''import '') (lit ''import Mathlib'')"
    "\<forall>c \<in> set (lit ''import Mathlib''). \<not> is_linebreak c"
    by (simp_all add: lit_def is_linebreak_def)
  from assms consider "l = lit ''import Mathlib''" | "l \<in> set (header_imports code)"
    by (auto simp: set_result_header_lines split: if_splits)
  then show "strip l = l" and sw: "starts_with (lit ''import '') l"
    and "\<forall>c \<in> set l. \<not> is_linebreak c"
    using m p header_imports_stripped [of l code] header_imports_break_free [of l code]
    by (cases; blast)+
  have "\<not> starts_with (lit ''import '') ([] :: pystr)" by (simp add: lit_def)
  with sw show "l \<noteq> []" by auto
qed

lemma splitlines_header:
  "splitlines (sr_header (split_snippet code)) = result_header_lines code"
proof -
  have "result_header_lines code \<noteq> [] \<Longrightarrow> last (result_header_lines code) \<noteq> []"
    using result_header_lines_props(3) last_in_set by blast
  then show ?thesis
    using splitlines_join [of "result_header_lines code"] result_header_lines_props(4) [of _ code]
    by (auto simp: split_snippet_fields)
qed

section \<open>Properties\<close>

lemma split_rest_not_header:
  assumes "drop (count_header (splitlines code)) (splitlines code) = l # ls"
  shows "\<not> is_header_line l" "l \<noteq> []"
proof -
  let ?i = "count_header (splitlines code)"
  have lt: "?i < length (splitlines code)" using assms by (metis drop_eq_Nil leI list.distinct(1))
  have "l = splitlines code ! ?i" using assms lt by (metis hd_drop_conv_nth list.sel(1))
  with count_header_stop [OF lt] show nh: "\<not> is_header_line l" by simp
  have "is_header_line []" by (simp add: is_header_line_def strip_Nil)
  with nh show "l \<noteq> []" by auto
qed

lemma splitlines_line: "\<forall>c \<in> set l. \<not> is_linebreak c \<Longrightarrow> splitlines (l @ 10 # s) = l # splitlines s"
  by (simp add: splitlines_def split_lines_acc_line)

lemma splitlines_lines_append:
  "\<forall>l \<in> set ls. \<forall>c \<in> set l. \<not> is_linebreak c \<Longrightarrow>
   splitlines (join [10] ls @ 10 # s) = (if ls = [] then [[]] else ls) @ splitlines s"
proof (induction ls rule: induct_list012)
  case 1
  show ?case using splitlines_line [of "[]" s] by simp
next
  case (2 x)
  then show ?case using splitlines_line [of x s] by simp
next
  case (3 x y zs)
  then show ?case using splitlines_line [of x "join [10] (y # zs) @ 10 # s"] by simp
qed

lemma collect_imports_fresh:
  assumes "\<forall>l \<in> set ls. \<not> starts_with (lit ''import Mathlib'') l" "distinct ls"
    and "set ls \<inter> seen = {}"
  shows "collect_imports has acc seen ls = (has, acc @ ls)"
  using assms by (induction ls arbitrary: acc seen) auto

lemma collect_imports_normal:
  "collect_imports False [] {} (result_header_lines code) =
     (let (m, is) = collect_imports False [] {} (header_imports code) in (m, is))"
proof -
  obtain m acc where ci: "collect_imports False [] {} (header_imports code) = (m, acc)" by force
  have acc: "\<forall>l \<in> set acc. \<not> starts_with (lit ''import Mathlib'') l" "distinct acc"
    using collect_imports_set [of "{}" "[]" False "header_imports code"]
      collect_imports_distinct [of "{}" "[]" False "header_imports code"] ci by auto
  then show ?thesis
    by (simp add: result_header_lines_def ci collect_imports_fresh)
qed

lemma header_imports_resplit:
  "header_imports (sr_header (split_snippet code) @ [10] @ sr_body (split_snippet code)) =
     result_header_lines code"
proof -
  let ?hs = "result_header_lines code"
  let ?rest = "drop (count_header (splitlines code)) (splitlines code)"
  have hs: "is_header_line l \<and> strip l = l \<and> starts_with (lit ''import '') l" if "l \<in> set ?hs" for l
    using result_header_lines_props [OF that] by (simp add: is_header_line_def)
  have lines: "splitlines (join [10] ?hs @ [10] @ join [10] ?rest) =
      (if ?hs = [] then [[]] else ?hs) @ splitlines (join [10] ?rest)"
    using splitlines_lines_append [of ?hs] result_header_lines_props(4) [of _ code] by simp
  have body: "takeWhile is_header_line (splitlines (join [10] ?rest)) = []"
  proof (cases ?rest)
    case Nil
    then show ?thesis by (simp add: splitlines_def)
  next
    case (Cons l ls)
    have "\<forall>l \<in> set ?rest. \<forall>c \<in> set l. \<not> is_linebreak c"
      by (meson in_set_dropD splitlines_break_free)
    then have "splitlines (join [10] ?rest) = (if last ?rest = [] then butlast ?rest else ?rest)"
      using Cons by (simp add: splitlines_join)
    with Cons split_rest_not_header [OF Cons] show ?thesis by (cases ls) auto
  qed
  have blank: "is_header_line []" "strip [] = []" by (simp_all add: is_header_line_def strip_Nil)
  have "\<not> starts_with (lit ''import '') ([] :: pystr)" by (simp add: lit_def)
  with hs body blank show ?thesis
    unfolding header_imports_def split_snippet_fields lines
    by (simp add: takeWhile_append2 map_idI cong: map_cong)
qed

lemma body_line_offset:
  assumes k: "k < length (splitlines (sr_body (split_snippet code)))"
  shows "k + sr_header_line_count (split_snippet code) < length (splitlines code) \<and>
     splitlines (sr_body (split_snippet code)) ! k =
       splitlines code ! (k + sr_header_line_count (split_snippet code))"
proof -
  let ?i = "count_header (splitlines code)"
  let ?rest = "drop ?i (splitlines code)"
  have k': "k < length (splitlines (join [10] ?rest))" using k by (simp add: split_snippet_fields)
  have free: "\<forall>l \<in> set ?rest. \<forall>c \<in> set l. \<not> is_linebreak c"
    by (meson in_set_dropD splitlines_break_free)
  show ?thesis
    using splitlines_join_nth [OF free k'] count_header_le [of "splitlines code"]
    by (simp add: split_snippet_fields add.commute)
qed

text \<open>
  C7. The body's line \<open>k\<close> is the snippet's line \<open>k\<close> plus the header line count, which is the shift
  the routes add to the line numbers of the worker's messages.
\<close>

theorem split_body_line_offset:
  "\<forall>k < length (splitlines (sr_body (split_snippet code))).
     k + sr_header_line_count (split_snippet code) < length (splitlines code) \<and>
     splitlines (sr_body (split_snippet code)) ! k =
       splitlines code ! (k + sr_header_line_count (split_snippet code))"
  by (intro allI impI body_line_offset)

text \<open>
  The header is a normal form: it has no duplicate lines, its first line is \<open>import Mathlib\<close>
  exactly when some import of the snippet starts so, the other imports of the snippet are its other
  lines, and splitting header and body again gives the same header.
\<close>

theorem split_header_normal_form:
  "distinct (splitlines (sr_header (split_snippet code))) \<and>
   set (splitlines (sr_header (split_snippet code))) =
     (if \<exists>l \<in> set (header_imports code). starts_with (lit ''import Mathlib'') l
      then {lit ''import Mathlib''} else {})
     \<union> {l \<in> set (header_imports code). \<not> starts_with (lit ''import Mathlib'') l} \<and>
   sr_header (split_snippet (sr_header (split_snippet code) @ [10] @ sr_body (split_snippet code)))
     = sr_header (split_snippet code)"
proof -
  let ?again = "sr_header (split_snippet code) @ [10] @ sr_body (split_snippet code)"
  have "result_header_lines ?again = result_header_lines code"
    unfolding result_header_lines_def [of ?again] header_imports_resplit collect_imports_normal
    by (simp add: result_header_lines_def)
  then have "sr_header (split_snippet ?again) = sr_header (split_snippet code)"
    by (metis split_snippet_fields(1))
  with distinct_result_header_lines set_result_header_lines [of code]
  show ?thesis unfolding splitlines_header by simp
qed

theorem split_body_line_offset_witness:
  "splitlines (sr_body (split_snippet (lit ''import Lean'' @ 10 # lit ''example'')))
     ! 0 = lit ''example''"
proof -
  let ?code = "lit ''import Lean'' @ 10 # lit ''example''"
  have "0 < length (splitlines (sr_body (split_snippet ?code)))" by code_simp
  moreover have "splitlines ?code ! (0 + sr_header_line_count (split_snippet ?code)) = lit ''example''"
    by code_simp
  ultimately show ?thesis using split_body_line_offset [of ?code] by simp
qed

end
