(* ===== verification/Lifecycle.thy ===== *)
theory Lifecycle
  imports Prelude
begin

text \<open>
  \<open>server/exec_lifecycle.py\<close>: the registry that decides which items may run, be cancelled and be
  cleaned up.  Every method is synchronous, so each is one function on the registry; the clock
  (\<open>time.monotonic\<close> or the injected time source) is the argument \<open>now\<close>, in an unspecified integral
  unit.  The registry's laws are stated as the interface \<open>item_gate\<close> that the routes rely on.
\<close>

section \<open>State\<close>

datatype lifecycle_status = Active | Cancelling | Drained | Cleaned

record lc_record =
  lc_status :: lifecycle_status
  lc_in_flight :: int
  lc_expires :: "int option"

record registry =
  reg_retention :: int
  reg_records :: "(pystr, lc_record) pydict"

record snapshot =
  sn_item_id :: pystr
  sn_status :: lifecycle_status
  sn_in_flight :: int

datatype begin_result = Started snapshot | BeginCancelled snapshot

datatype cleanup_decision = Delete snapshot | Defer snapshot

record lifecycle_stats =
  ls_total :: int
  ls_active :: int
  ls_cancelling :: int
  ls_drained :: int
  ls_cleaned :: int
  ls_in_flight_items :: int
  ls_total_in_flight :: int

section \<open>Operations\<close>

text \<open>\<open>ItemLifecycleRegistry(terminal_retention_seconds=r)\<close>; \<open>None\<close> is the \<open>ValueError\<close>.\<close>

definition new_registry :: "int \<Rightarrow> registry option" where
  "new_registry r = (if r \<le> 0 then None else Some \<lparr>reg_retention = r, reg_records = []\<rparr>)"

definition fresh_record :: "lifecycle_status \<Rightarrow> lc_record" where
  "fresh_record s = \<lparr>lc_status = s, lc_in_flight = 0, lc_expires = None\<rparr>"

definition snapshot_of :: "pystr \<Rightarrow> lc_record \<Rightarrow> snapshot" where
  "snapshot_of item r =
     \<lparr>sn_item_id = item, sn_status = lc_status r, sn_in_flight = lc_in_flight r\<rparr>"

definition set_terminal :: "registry \<Rightarrow> int \<Rightarrow> lifecycle_status \<Rightarrow> lc_record \<Rightarrow> lc_record" where
  "set_terminal reg now s r =
     r\<lparr>lc_status := s, lc_in_flight := 0, lc_expires := Some (now + reg_retention reg)\<rparr>"

definition put_record :: "pystr \<Rightarrow> lc_record \<Rightarrow> registry \<Rightarrow> registry" where
  "put_record item r reg = reg\<lparr>reg_records := dset item r (reg_records reg)\<rparr>"

definition is_expired :: "int \<Rightarrow> lc_record \<Rightarrow> bool" where
  "is_expired now r = (case lc_expires r of None \<Rightarrow> False | Some e \<Rightarrow> e \<le> now)"

text \<open>The expired keys are collected first and popped afterwards; the count is the result.\<close>

definition sweep_terminal :: "int \<Rightarrow> registry \<Rightarrow> registry \<times> int" where
  "sweep_terminal now reg =
     (let expired = map fst (filter (\<lambda>p. is_expired now (snd p)) (reg_records reg))
      in (reg\<lparr>reg_records := foldl (\<lambda>d item. dpop item d) (reg_records reg) expired\<rparr>,
          int (length expired)))"

definition is_terminal_status :: "lifecycle_status \<Rightarrow> bool" where
  "is_terminal_status s \<longleftrightarrow> s = Cancelling \<or> s = Drained \<or> s = Cleaned"

definition begin_item :: "pystr \<Rightarrow> int \<Rightarrow> registry \<Rightarrow> registry \<times> begin_result" where
  "begin_item item now reg0 =
     (let reg = fst (sweep_terminal now reg0);
          r = dget_or (reg_records reg) item (fresh_record Active);
          reg = (if dget (reg_records reg) item = None then put_record item r reg else reg)
      in if is_terminal_status (lc_status r) then (reg, BeginCancelled (snapshot_of item r))
         else let r' = r\<lparr>lc_in_flight := lc_in_flight r + 1\<rparr>
              in (put_record item r' reg, Started (snapshot_of item r')))"

definition finish_item :: "pystr \<Rightarrow> int \<Rightarrow> registry \<Rightarrow> registry \<times> snapshot" where
  "finish_item item now reg =
     (let r = dget_or (reg_records reg) item (fresh_record Active);
          r1 = (if lc_in_flight r > 0 then r\<lparr>lc_in_flight := lc_in_flight r - 1\<rparr> else r);
          r2 = (if lc_status r1 = Cancelling \<and> lc_in_flight r1 = 0
                then set_terminal reg now Drained r1 else r1)
      in (put_record item r2 reg, snapshot_of item r2))"

definition cancel_item :: "pystr \<Rightarrow> int \<Rightarrow> registry \<Rightarrow> registry \<times> snapshot" where
  "cancel_item item now reg0 =
     (let reg = fst (sweep_terminal now reg0)
      in case dget (reg_records reg) item of
           None \<Rightarrow> (let r = set_terminal reg now Drained (fresh_record Drained)
                    in (put_record item r reg, snapshot_of item r))
         | Some r \<Rightarrow>
             if lc_status r = Cleaned then (reg, snapshot_of item r)
             else let r' = (if lc_in_flight r = 0 then set_terminal reg now Drained r
                            else r\<lparr>lc_status := Cancelling, lc_expires := None\<rparr>)
                  in (put_record item r' reg, snapshot_of item r'))"

definition cleanup_decision_of :: "pystr \<Rightarrow> int \<Rightarrow> registry \<Rightarrow> registry \<times> cleanup_decision" where
  "cleanup_decision_of item now reg0 =
     (let reg = fst (sweep_terminal now reg0);
          r = dget_or (reg_records reg) item (fresh_record Active)
      in (reg, if lc_in_flight r > 0 then Defer (snapshot_of item r)
               else Delete (snapshot_of item r)))"

definition mark_cleaned :: "pystr \<Rightarrow> int \<Rightarrow> registry \<Rightarrow> registry \<times> snapshot" where
  "mark_cleaned item now reg =
     (let r = set_terminal reg now Cleaned
                (dget_or (reg_records reg) item (fresh_record Cleaned))
      in (put_record item r reg, snapshot_of item r))"

definition snapshot_item :: "pystr \<Rightarrow> registry \<Rightarrow> snapshot" where
  "snapshot_item item reg =
     (case dget (reg_records reg) item of
        None \<Rightarrow> \<lparr>sn_item_id = item, sn_status = Active, sn_in_flight = 0\<rparr>
      | Some r \<Rightarrow> snapshot_of item r)"

definition should_cancel :: "pystr \<Rightarrow> registry \<Rightarrow> bool" where
  "should_cancel item reg =
     (case dget (reg_records reg) item of None \<Rightarrow> False
      | Some r \<Rightarrow> is_terminal_status (lc_status r))"

definition count_status :: "lifecycle_status \<Rightarrow> registry \<Rightarrow> int" where
  "count_status s reg = dsum (\<lambda>r. if lc_status r = s then 1 else 0) (reg_records reg)"

definition lifecycle_stats_of :: "int \<Rightarrow> registry \<Rightarrow> registry \<times> lifecycle_stats" where
  "lifecycle_stats_of now reg0 =
     (let reg = fst (sweep_terminal now reg0)
      in (reg,
          \<lparr>ls_total = int (length (reg_records reg)),
           ls_active = count_status Active reg,
           ls_cancelling = count_status Cancelling reg,
           ls_drained = count_status Drained reg,
           ls_cleaned = count_status Cleaned reg,
           ls_in_flight_items =
             dsum (\<lambda>r. if lc_in_flight r > 0 then 1 else 0) (reg_records reg),
           ls_total_in_flight =
             dsum (\<lambda>r. if lc_in_flight r > 0 then lc_in_flight r else 0) (reg_records reg)\<rparr>))"

section \<open>The sweep\<close>

lemma foldl_dpop_dget:
  "dget (foldl (\<lambda>d item. dpop item d) d ks) k = (if k \<in> set ks then None else dget d k)"
  by (induction ks arbitrary: d) auto

lemma foldl_dpop_dwf: "dwf d \<Longrightarrow> dwf (foldl (\<lambda>d item. dpop item d) d ks)"
  by (induction ks arbitrary: d) auto

lemma sweep_dwf: "dwf (reg_records reg) \<Longrightarrow> dwf (reg_records (fst (sweep_terminal now reg)))"
  by (simp add: sweep_terminal_def Let_def foldl_dpop_dwf)

lemma sweep_retention [simp]: "reg_retention (fst (sweep_terminal now reg)) = reg_retention reg"
  by (simp add: sweep_terminal_def Let_def)

lemma sweep_dget:
  assumes "dwf (reg_records reg)"
  shows "dget (reg_records (fst (sweep_terminal now reg))) item =
    (case dget (reg_records reg) item of None \<Rightarrow> None
     | Some r \<Rightarrow> if is_expired now r then None else Some r)"
proof -
  have "item \<in> fst ` {p \<in> set (reg_records reg). is_expired now (snd p)} \<longleftrightarrow>
      (\<exists>r. dget (reg_records reg) item = Some r \<and> is_expired now r)"
    using assms by (force simp: dget_in_set [symmetric])
  then show ?thesis
    by (auto simp: sweep_terminal_def Let_def foldl_dpop_dget split: option.splits)
qed

section \<open>Invariant\<close>

text \<open>
  A record is terminal exactly when it carries an expiry time, terminal records have no work in
  flight, and an item is \<open>cancelling\<close> only while work is in flight.
\<close>

definition lc_ok :: "lc_record \<Rightarrow> bool" where
  "lc_ok r \<longleftrightarrow> 0 \<le> lc_in_flight r \<and>
     (case lc_status r of
        Active \<Rightarrow> lc_expires r = None
      | Cancelling \<Rightarrow> lc_expires r = None \<and> 0 < lc_in_flight r
      | Drained \<Rightarrow> lc_expires r \<noteq> None \<and> lc_in_flight r = 0
      | Cleaned \<Rightarrow> lc_expires r \<noteq> None \<and> lc_in_flight r = 0)"

definition reg_inv :: "registry \<Rightarrow> bool" where
  "reg_inv reg \<longleftrightarrow> dwf (reg_records reg) \<and> 0 < reg_retention reg \<and>
     (\<forall>item r. dget (reg_records reg) item = Some r \<longrightarrow> lc_ok r)"

lemma reg_inv_dwf [dest]: "reg_inv reg \<Longrightarrow> dwf (reg_records reg)"
  by (simp add: reg_inv_def)

lemma reg_inv_ok [dest]: "reg_inv reg \<Longrightarrow> dget (reg_records reg) item = Some r \<Longrightarrow> lc_ok r"
  by (auto simp: reg_inv_def)

lemma new_registry_inv [inv_intros]: "new_registry r = Some reg \<Longrightarrow> reg_inv reg"
  by (auto simp: new_registry_def reg_inv_def split: if_splits)

lemma sweep_inv [inv_intros]: "reg_inv reg \<Longrightarrow> reg_inv (fst (sweep_terminal now reg))"
  by (auto simp: reg_inv_def sweep_dwf sweep_dget split: option.splits if_splits)

lemma put_record_inv [inv_intros]: "reg_inv reg \<Longrightarrow> lc_ok r \<Longrightarrow> reg_inv (put_record item r reg)"
  by (auto simp: reg_inv_def put_record_def split: if_splits)

lemma fresh_active_ok [simp]: "lc_ok (fresh_record Active)"
  by (simp add: lc_ok_def fresh_record_def)

lemma set_terminal_ok [simp]: "s = Drained \<or> s = Cleaned \<Longrightarrow> lc_ok (set_terminal reg now s r)"
  by (auto simp: lc_ok_def set_terminal_def)

lemma dget_or_ok: "reg_inv reg \<Longrightarrow> lc_ok (dget_or (reg_records reg) item (fresh_record Active))"
  by (auto simp: dget_or_def split: option.splits)

lemma begin_inv [inv_intros]: "reg_inv reg \<Longrightarrow> reg_inv (fst (begin_item item now reg))"
  using dget_or_ok [OF sweep_inv, of reg now item] sweep_inv [of reg now]
  by (auto simp: begin_item_def Let_def lc_ok_def is_terminal_status_def
      intro!: put_record_inv split: lifecycle_status.splits)

lemma finish_inv [inv_intros]: "reg_inv reg \<Longrightarrow> reg_inv (fst (finish_item item now reg))"
  using dget_or_ok [of reg item]
  by (auto simp: finish_item_def Let_def intro!: put_record_inv)
     (auto simp: lc_ok_def split: lifecycle_status.splits)

lemma cancel_inv [inv_intros]: "reg_inv reg \<Longrightarrow> reg_inv (fst (cancel_item item now reg))"
  using sweep_inv [of reg now]
  by (auto simp: cancel_item_def Let_def intro!: put_record_inv split: option.splits)
     (auto simp: lc_ok_def dest!: reg_inv_ok split: lifecycle_status.splits)

lemma cleanup_decision_inv [inv_intros]:
  "reg_inv reg \<Longrightarrow> reg_inv (fst (cleanup_decision_of item now reg))"
  by (simp add: cleanup_decision_of_def Let_def sweep_inv)

lemma mark_cleaned_inv [inv_intros]: "reg_inv reg \<Longrightarrow> reg_inv (fst (mark_cleaned item now reg))"
  by (simp add: mark_cleaned_def Let_def put_record_inv)

lemma stats_inv [inv_intros]: "reg_inv reg \<Longrightarrow> reg_inv (fst (lifecycle_stats_of now reg))"
  by (simp add: lifecycle_stats_of_def Let_def sweep_inv)

section \<open>Work in flight\<close>

definition in_flight_of :: "pystr \<Rightarrow> registry \<Rightarrow> int" where
  "in_flight_of item reg = sn_in_flight (snapshot_item item reg)"

lemma in_flight_of_eq:
  "in_flight_of item reg =
     (case dget (reg_records reg) item of None \<Rightarrow> 0 | Some r \<Rightarrow> lc_in_flight r)"
  by (simp add: in_flight_of_def snapshot_item_def snapshot_of_def split: option.splits)

lemma in_flight_of_put [simp]:
  "in_flight_of k (put_record item r reg) = (if k = item then lc_in_flight r else in_flight_of k reg)"
  by (simp add: in_flight_of_eq put_record_def)

lemma in_flight_of_nonneg: "reg_inv reg \<Longrightarrow> 0 \<le> in_flight_of item reg"
  by (auto simp: in_flight_of_eq lc_ok_def split: option.splits dest!: reg_inv_ok)

lemma expired_idle: "lc_ok r \<Longrightarrow> is_expired now r \<Longrightarrow> lc_in_flight r = 0"
  by (auto simp: lc_ok_def is_expired_def split: lifecycle_status.splits option.splits)

text \<open>The sweep never drops an item with work in flight.\<close>

lemma in_flight_of_sweep [simp]:
  "reg_inv reg \<Longrightarrow> in_flight_of item (fst (sweep_terminal now reg)) = in_flight_of item reg"
  by (auto simp: in_flight_of_eq sweep_dget reg_inv_dwf expired_idle
      split: option.splits dest: reg_inv_ok)

lemma dget_or_in_flight:
  "lc_in_flight (dget_or (reg_records reg) item (fresh_record s)) = in_flight_of item reg"
  by (simp add: dget_or_def in_flight_of_eq fresh_record_def split: option.splits)

lemma in_flight_begin:
  assumes "reg_inv reg"
  shows "in_flight_of k (fst (begin_item item now reg)) =
    in_flight_of k reg +
      (case snd (begin_item item now reg) of
         Started _ \<Rightarrow> if k = item then 1 else 0 | BeginCancelled _ \<Rightarrow> 0)"
  using assms by (auto simp: begin_item_def Let_def dget_or_in_flight)

lemma in_flight_finish:
  "reg_inv reg \<Longrightarrow> in_flight_of k (fst (finish_item item now reg)) =
     (if k = item then max (in_flight_of k reg - 1) 0 else in_flight_of k reg)"
  using in_flight_of_nonneg [of reg item]
  by (auto simp: finish_item_def Let_def dget_or_in_flight set_terminal_def)

lemma in_flight_cancel:
  "reg_inv reg \<Longrightarrow> in_flight_of k (fst (cancel_item item now reg)) = in_flight_of k reg"
proof -
  assume inv: "reg_inv reg"
  let ?swept = "fst (sweep_terminal now reg)"
  have item: "in_flight_of item reg =
      (case dget (reg_records ?swept) item of None \<Rightarrow> 0 | Some r \<Rightarrow> lc_in_flight r)"
    using in_flight_of_sweep [OF inv, of item now] by (simp add: in_flight_of_eq)
  show ?thesis
    by (cases "dget (reg_records ?swept) item")
      (auto simp: cancel_item_def Let_def set_terminal_def item inv fresh_record_def)
qed

lemma in_flight_mark_cleaned:
  "in_flight_of k (fst (mark_cleaned item now reg)) =
     (if k = item then 0 else in_flight_of k reg)"
  by (simp add: mark_cleaned_def Let_def set_terminal_def)

lemma cleanup_decision_iff:
  "reg_inv reg \<Longrightarrow>
     (case snd (cleanup_decision_of item now reg) of Delete _ \<Rightarrow> True | Defer _ \<Rightarrow> False)
       \<longleftrightarrow> in_flight_of item reg = 0"
  using in_flight_of_nonneg [of reg item]
  by (auto simp: cleanup_decision_of_def Let_def dget_or_in_flight)

lemma in_flight_cleanup_decision:
  "reg_inv reg \<Longrightarrow> in_flight_of k (fst (cleanup_decision_of item now reg)) = in_flight_of k reg"
  by (simp add: cleanup_decision_of_def Let_def)

section \<open>Runs\<close>

text \<open>
  The methods as operations with the time at which they run; the event loop runs one at a time, so
  a history of the registry is a list of them.
\<close>

datatype lc_op = OpBegin pystr | OpFinish pystr | OpCancel pystr | OpCleanupDecision pystr
  | OpMarkCleaned pystr | OpSweep | OpStats

fun lc_step :: "registry \<Rightarrow> int \<times> lc_op \<Rightarrow> registry" where
  "lc_step reg (now, OpBegin i) = fst (begin_item i now reg)"
| "lc_step reg (now, OpFinish i) = fst (finish_item i now reg)"
| "lc_step reg (now, OpCancel i) = fst (cancel_item i now reg)"
| "lc_step reg (now, OpCleanupDecision i) = fst (cleanup_decision_of i now reg)"
| "lc_step reg (now, OpMarkCleaned i) = fst (mark_cleaned i now reg)"
| "lc_step reg (now, OpSweep) = fst (sweep_terminal now reg)"
| "lc_step reg (now, OpStats) = fst (lifecycle_stats_of now reg)"

definition lc_run :: "registry \<Rightarrow> (int \<times> lc_op) list \<Rightarrow> registry" where
  "lc_run reg ops = foldl lc_step reg ops"

lemma lc_step_inv [inv_intros]: "reg_inv reg \<Longrightarrow> reg_inv (lc_step reg op)"
  by (cases "(reg, op)" rule: lc_step.cases) (simp_all add: inv_intros)

lemma retention_simps [simp]:
  "reg_retention (put_record i r reg) = reg_retention reg"
  "reg_retention (lc_step reg op) = reg_retention reg"
proof -
  show "reg_retention (put_record i r reg) = reg_retention reg" for i r reg
    by (simp add: put_record_def)
  then show "reg_retention (lc_step reg op) = reg_retention reg"
    by (cases "(reg, op)" rule: lc_step.cases)
      (auto simp: begin_item_def finish_item_def cancel_item_def cleanup_decision_of_def
        mark_cleaned_def lifecycle_stats_of_def Let_def split: option.splits)
qed

text \<open>An item is closed until \<open>d\<close>: draining, or terminal with an expiry no earlier than \<open>d\<close>.\<close>

definition closed_until :: "int \<Rightarrow> pystr \<Rightarrow> registry \<Rightarrow> bool" where
  "closed_until d item reg \<longleftrightarrow> (\<exists>r. dget (reg_records reg) item = Some r \<and>
     (lc_status r = Cancelling \<or>
      (lc_status r = Drained \<or> lc_status r = Cleaned) \<and> (\<exists>e. lc_expires r = Some e \<and> d \<le> e)))"

lemma closed_until_put:
  "closed_until d item (put_record k r reg) \<longleftrightarrow>
     (if k = item then lc_status r = Cancelling \<or>
        (lc_status r = Drained \<or> lc_status r = Cleaned) \<and> (\<exists>e. lc_expires r = Some e \<and> d \<le> e)
      else closed_until d item reg)"
  by (auto simp: closed_until_def put_record_def)

lemma closed_until_sweep:
  assumes "reg_inv reg" "closed_until d item reg" "now < d"
  shows "closed_until d item (fst (sweep_terminal now reg))"
    and "dget (reg_records (fst (sweep_terminal now reg))) item = dget (reg_records reg) item"
proof -
  from assms(2) obtain r where r: "dget (reg_records reg) item = Some r"
    "lc_status r = Cancelling \<or>
      (lc_status r = Drained \<or> lc_status r = Cleaned) \<and> (\<exists>e. lc_expires r = Some e \<and> d \<le> e)"
    by (auto simp: closed_until_def)
  from assms(1) r(1) have "lc_ok r" by auto
  with r(2) assms(3) have "\<not> is_expired now r"
    by (auto simp: lc_ok_def is_expired_def split: option.splits lifecycle_status.splits)
  with r(1) assms(1) show eq:
    "dget (reg_records (fst (sweep_terminal now reg))) item = dget (reg_records reg) item"
    by (simp add: sweep_dget reg_inv_dwf)
  with assms(2) show "closed_until d item (fst (sweep_terminal now reg))"
    by (simp add: closed_until_def)
qed

lemma closed_until_begin:
  assumes "reg_inv reg" "closed_until d item reg" "now < d"
  shows "closed_until d item (fst (begin_item k now reg))"
    and "\<exists>s. snd (begin_item item now reg) = BeginCancelled s"
  using closed_until_sweep [OF assms] assms(2)
  by (auto simp: begin_item_def Let_def closed_until_put)
     (auto simp: closed_until_def dget_or_def is_terminal_status_def)

lemma closed_until_finish:
  assumes "reg_inv reg" "closed_until d item reg" "d \<le> now + reg_retention reg"
  shows "closed_until d item (fst (finish_item k now reg))"
  using assms(2,3)
  by (auto simp: finish_item_def Let_def closed_until_put set_terminal_def)
     (auto simp: closed_until_def dget_or_def)

lemma closed_until_cancel:
  assumes "reg_inv reg" "closed_until d item reg" "now < d" "d \<le> now + reg_retention reg"
  shows "closed_until d item (fst (cancel_item k now reg))"
  using closed_until_sweep [OF assms(1-3)] assms(2,4)
  by (auto simp: cancel_item_def Let_def closed_until_put set_terminal_def split: option.splits)

lemma closed_until_mark_cleaned:
  assumes "closed_until d item reg" "d \<le> now + reg_retention reg"
  shows "closed_until d item (fst (mark_cleaned k now reg))"
  using assms by (auto simp: mark_cleaned_def Let_def closed_until_put set_terminal_def)

lemma closed_until_step:
  assumes "reg_inv reg" "closed_until d item reg" "fst op < d" "d \<le> fst op + reg_retention reg"
  shows "closed_until d item (lc_step reg op)"
  using assms closed_until_sweep [OF assms(1-3)]
  by (cases "(reg, op)" rule: lc_step.cases)
    (auto simp: cleanup_decision_of_def lifecycle_stats_of_def Let_def closed_until_begin
      closed_until_finish closed_until_cancel closed_until_mark_cleaned)

lemma closed_until_run:
  "reg_inv reg \<Longrightarrow> closed_until d item reg \<Longrightarrow>
   (\<And>op. op \<in> set ops \<Longrightarrow> fst op < d \<and> d \<le> fst op + reg_retention reg) \<Longrightarrow>
   reg_inv (lc_run reg ops) \<and> closed_until d item (lc_run reg ops)"
proof (induction ops arbitrary: reg)
  case (Cons op ops)
  have "closed_until d item (lc_step reg op)"
    using Cons.prems by (intro closed_until_step) auto
  then have "reg_inv (lc_run (lc_step reg op) ops) \<and> closed_until d item (lc_run (lc_step reg op) ops)"
    using Cons.prems by (intro Cons.IH) (auto intro: lc_step_inv)
  then show ?case by (simp add: lc_run_def)
qed (simp add: lc_run_def)

lemma closed_until_cancelled:
  assumes "reg_inv reg"
  shows "closed_until (now + reg_retention reg) item (fst (cancel_item item now reg)) \<or>
    (\<exists>r. dget (reg_records (fst (sweep_terminal now reg))) item = Some r \<and> lc_status r = Cleaned)"
  by (auto simp: cancel_item_def Let_def closed_until_put set_terminal_def split: option.splits)

lemma lc_run_inv: "reg_inv reg \<Longrightarrow> reg_inv (lc_run reg ops)"
  unfolding lc_run_def by (rule foldl_inv) (auto intro: lc_step_inv)

section \<open>Properties\<close>

text \<open>
  C8. Every history of the registry keeps its invariant: terminal records carry an expiry and have
  no work in flight, a cancelling item has work in flight, counters are never negative.
\<close>

theorem registry_invariant:
  "new_registry retention = Some reg \<Longrightarrow> reg_inv (lc_run reg ops)"
  by (intro lc_run_inv new_registry_inv)

theorem registry_invariant_witness:
  "reg_inv (lc_run \<lparr>reg_retention = 660, reg_records = []\<rparr>
     [(0, OpBegin (lit ''a'')), (1, OpCancel (lit ''a'')), (2, OpFinish (lit ''a''))])"
  by (rule registry_invariant [of 660]) (simp add: new_registry_def)

text \<open>
  C9. A cancelled item stays closed: after \<open>cancel\<close> at time \<open>t\<close>, whatever other operations run before
  \<open>t + terminal_retention_seconds\<close>, every \<open>begin\<close> of the item in that time is refused.  (An item
  already cleaned keeps the expiry of its clean-up, which \<open>cancel\<close> does not extend.)
\<close>

theorem cancelled_item_stays_refused:
  assumes "reg_inv reg"
    and "\<not> (\<exists>r. dget (reg_records reg) item = Some r \<and> lc_status r = Cleaned)"
    and "\<forall>op \<in> set ops. t \<le> fst op \<and> fst op < t + reg_retention reg"
    and "t \<le> now" "now < t + reg_retention reg"
  shows "\<exists>s. snd (begin_item item now (lc_run (fst (cancel_item item t reg)) ops)) = BeginCancelled s"
proof -
  let ?c = "fst (cancel_item item t reg)" and ?d = "t + reg_retention reg"
  have ret: "reg_retention ?c = reg_retention reg"
    using retention_simps(2) [of reg "(t, OpCancel item)"] by simp
  have "closed_until ?d item ?c"
    using closed_until_cancelled [OF assms(1), of t item] assms(1,2)
    by (auto simp: sweep_dget reg_inv_dwf split: option.splits if_splits)
  then have "reg_inv (lc_run ?c ops) \<and> closed_until ?d item (lc_run ?c ops)"
    using assms(1,3) by (intro closed_until_run) (auto simp: ret intro: cancel_inv)
  then show ?thesis using assms(5) by (intro closed_until_begin(2)) auto
qed

theorem cancelled_item_stays_refused_witness:
  "\<exists>s. snd (begin_item (lit ''a'') 600 (lc_run (fst (cancel_item (lit ''a'') 1
     \<lparr>reg_retention = 660, reg_records =
        [(lit ''a'', \<lparr>lc_status = Active, lc_in_flight = 1, lc_expires = None\<rparr>)]\<rparr>))
     [(2, OpFinish (lit ''a'')), (3, OpSweep)])) = BeginCancelled s"
  by (rule cancelled_item_stays_refused) (auto simp: reg_inv_def dwf_def lc_ok_def)

end
