(* ===== verification/StateStore.thy ===== *)
theory StateStore
  imports PyText
begin

text \<open>
  \<open>server/state_store.py\<close>: the file-backed store of serialised proof states.  The store's directory is
  part of its state: a dictionary from file names to files, each with its modification time and its
  content.  All paths the server passes around are names in that directory (the workers write their
  scratch files there too).  The clock is the argument \<open>now\<close>; the random token factory, code outside
  the repository, is the argument \<open>draw\<close>, the \<open>n\<close>-th token it draws.  A set of tokens is a list
  without duplicates; the order \<open>list(set)\<close> takes has no influence, by \<open>delete_tokens_records\<close>.
\<close>

section \<open>State\<close>

record state_record =
  rec_token :: pystr
  rec_item :: pystr
  rec_env :: pystr
  rec_header :: pystr
  rec_hash :: pystr
  rec_path :: pystr
  rec_created :: int
  rec_accessed :: int
  rec_size :: int

text \<open>The JSON object of a sidecar; \<open>header\<close> may be absent in files of older versions.\<close>

record meta =
  mt_token :: pystr
  mt_item :: pystr
  mt_env :: pystr
  mt_header :: "pystr option"
  mt_hash :: pystr
  mt_created :: int
  mt_accessed :: int
  mt_size :: int

text \<open>
  What a file holds: a serialised state of some size, a complete sidecar, a JSON object with a
  \<open>state_token\<close> whose other fields are missing or malformed, a JSON value that is not an object, or
  anything else (no JSON, or an object without \<open>state_token\<close>).
\<close>

datatype content = Blob int | Sidecar meta | PartialSidecar pystr | JsonNonObject | Unreadable

record dfile =
  fl_content :: content
  fl_mtime :: int

type_synonym directory = "(pystr, dfile) pydict"

record store =
  st_ttl :: int
  st_max_bytes :: int
  st_records :: "(pystr, state_record) pydict"
  st_by_item :: "(pystr, pystr list) pydict"
  st_pins :: "(pystr, int) pydict"
  st_files :: directory

datatype store_error = TtlNotPositive | MaxBytesInvalid | FileNotFound pystr
  | StateTokenNotFound pystr | SidecarTypeError pystr

record delete_stats =
  ds_states :: int
  ds_bytes :: int

datatype delete_decision = DeleteDone delete_stats | DeletePinned int

record store_stats =
  ss_state_count :: int
  ss_total_bytes :: int
  ss_item_count :: int
  ss_pinned_states :: int
  ss_pin_refs :: int

section \<open>Paths\<close>

definition state_path :: "pystr \<Rightarrow> pystr" where
  "state_path token = token @ lit ''.bin''"

definition metadata_path :: "pystr \<Rightarrow> pystr" where
  "metadata_path token = token @ lit ''.json''"

text \<open>\<open>Path(name).stem\<close> and \<open>Path(name).suffix\<close>: split at the last dot, unless it is the first or last character.\<close>

definition path_extension :: "pystr \<Rightarrow> pystr" where
  "path_extension name = rev (takeWhile (\<lambda>c. c \<noteq> 46) (rev name))"

definition has_suffix :: "pystr \<Rightarrow> bool" where
  "has_suffix name \<longleftrightarrow>
     path_extension name \<noteq> [] \<and> length (path_extension name) + 1 < length name"

definition path_suffix :: "pystr \<Rightarrow> pystr" where
  "path_suffix name = (if has_suffix name then 46 # path_extension name else [])"

definition path_stem :: "pystr \<Rightarrow> pystr" where
  "path_stem name =
     (if has_suffix name then take (length name - length (path_extension name) - 1) name else name)"

definition file_size :: "dfile \<Rightarrow> int" where
  "file_size f = (case fl_content f of Blob n \<Rightarrow> n | _ \<Rightarrow> 0)"

section \<open>Records and sidecars\<close>

definition meta_of :: "state_record \<Rightarrow> meta" where
  "meta_of r = \<lparr>mt_token = rec_token r, mt_item = rec_item r, mt_env = rec_env r,
     mt_header = Some (rec_header r), mt_hash = rec_hash r, mt_created = rec_created r,
     mt_accessed = rec_accessed r, mt_size = rec_size r\<rparr>"

definition write_metadata :: "state_record \<Rightarrow> int \<Rightarrow> store \<Rightarrow> store" where
  "write_metadata r now st =
     st\<lparr>st_files := dset (metadata_path (rec_token r))
          \<lparr>fl_content = Sidecar (meta_of r), fl_mtime = now\<rparr> (st_files st)\<rparr>"

definition record_of_meta :: "meta \<Rightarrow> state_record" where
  "record_of_meta m = \<lparr>rec_token = mt_token m, rec_item = mt_item m, rec_env = mt_env m,
     rec_header = (case mt_header m of None \<Rightarrow> [] | Some h \<Rightarrow> h), rec_hash = mt_hash m,
     rec_path = state_path (mt_token m), rec_created = mt_created m,
     rec_accessed = mt_accessed m, rec_size = mt_size m\<rparr>"

text \<open>
  \<open>_read_metadata\<close>: the file's record, the directory afterwards (a sidecar whose state file is gone is
  removed), or the \<open>TypeError\<close> of indexing a JSON value that is not an object, which the handler
  does not catch.
\<close>

definition read_metadata :: "pystr \<Rightarrow> directory \<Rightarrow> store_error + state_record option \<times> directory" where
  "read_metadata name files =
     (case dget files name of
        None \<Rightarrow> Inr (None, files)
      | Some f \<Rightarrow> (case fl_content f of
            Sidecar m \<Rightarrow> (if dget files (state_path (mt_token m)) = None
                          then Inr (None, dpop name files)
                          else Inr (Some (record_of_meta m), files))
          | PartialSidecar token \<Rightarrow> (if dget files (state_path token) = None
                          then Inr (None, dpop name files) else Inr (None, files))
          | JsonNonObject \<Rightarrow> Inl (SidecarTypeError name)
          | _ \<Rightarrow> Inr (None, files)))"

definition set_add :: "'a \<Rightarrow> 'a list \<Rightarrow> 'a list" where
  "set_add x xs = (if x \<in> set xs then xs else xs @ [x])"

text \<open>\<open>self._tokens_by_item_id.setdefault(item_id, set()).add(token)\<close>\<close>

definition add_token :: "pystr \<Rightarrow> pystr \<Rightarrow> (pystr, pystr list) pydict \<Rightarrow> (pystr, pystr list) pydict" where
  "add_token item token by_item = dset item (set_add token (dget_or by_item item [])) by_item"

definition index_record :: "state_record \<Rightarrow> store \<Rightarrow> store" where
  "index_record r st =
     st\<lparr>st_records := dset (rec_token r) r (st_records st),
        st_by_item := add_token (rec_item r) (rec_token r) (st_by_item st)\<rparr>"

fun rehydrate_files :: "pystr list \<Rightarrow> store \<Rightarrow> store_error + store" where
  "rehydrate_files [] st = Inr st"
| "rehydrate_files (name # names) st =
     ebind (read_metadata name (st_files st))
       (\<lambda>(r, files). rehydrate_files names
          (case r of None \<Rightarrow> st\<lparr>st_files := files\<rparr>
           | Some rec \<Rightarrow> index_record rec (st\<lparr>st_files := files\<rparr>)))"

definition rehydrate :: "store \<Rightarrow> store_error + store" where
  "rehydrate st = rehydrate_files (filter (ends_with (lit ''.json'')) (map fst (st_files st))) st"

text \<open>\<open>StateStore(root_dir, ttl_seconds=ttl, max_bytes=max_bytes)\<close> on a directory with these files.\<close>

definition new_store :: "int \<Rightarrow> int \<Rightarrow> directory \<Rightarrow> store_error + store" where
  "new_store ttl max_bytes files =
     (if ttl \<le> 0 then Inl TtlNotPositive
      else if max_bytes < - 1 then Inl MaxBytesInvalid
      else rehydrate \<lparr>st_ttl = ttl, st_max_bytes = max_bytes, st_records = [], st_by_item = [],
             st_pins = [], st_files = files\<rparr>)"

section \<open>Tokens\<close>

definition normal_token :: "pystr \<Rightarrow> pystr" where
  "normal_token t = (if starts_with (lit ''st_'') t then t else lit ''st_'' @ t)"

text \<open>
  \<open>_new_token\<close> draws until the token is not in use, so it may not return: \<open>None\<close>.  The second
  component counts the draws.
\<close>

partial_function (option) new_token ::
  "(nat \<Rightarrow> pystr) \<Rightarrow> (pystr, state_record) pydict \<Rightarrow> nat \<Rightarrow> (pystr \<times> nat) option" where
  "new_token draw records n =
     (let token = normal_token (draw n)
      in if dget records token = None then Some (token, Suc n)
         else new_token draw records (Suc n))"

declare new_token.simps [code]

section \<open>Operations\<close>

text \<open>\<open>put\<close> after the token is drawn: move the file, index the record, write the sidecar.\<close>

definition put_with_token ::
  "pystr \<Rightarrow> pystr \<Rightarrow> pystr \<Rightarrow> pystr \<Rightarrow> pystr \<Rightarrow> pystr \<Rightarrow> int \<Rightarrow> store \<Rightarrow> store_error + pystr \<times> store" where
  "put_with_token token path item env header hash now st =
     (case dget (st_files st) path of
        None \<Rightarrow> Inl (FileNotFound path)
      | Some f \<Rightarrow>
          (let target = state_path token;
               files = dset target f (dpop path (st_files st));
               r = \<lparr>rec_token = token, rec_item = item, rec_env = env, rec_header = header,
                    rec_hash = hash, rec_path = target, rec_created = now, rec_accessed = now,
                    rec_size = file_size f\<rparr>
           in Inr (token, write_metadata r now (index_record r (st\<lparr>st_files := files\<rparr>)))))"

text \<open>\<open>None\<close>: the token factory never draws a free token.\<close>

definition put ::
  "(nat \<Rightarrow> pystr) \<Rightarrow> nat \<Rightarrow> pystr \<Rightarrow> pystr \<Rightarrow> pystr \<Rightarrow> pystr \<Rightarrow> pystr \<Rightarrow> int \<Rightarrow> store
     \<Rightarrow> (store_error + pystr \<times> store) option" where
  "put draw n path item env header hash now st =
     (if dget (st_files st) path = None then Some (Inl (FileNotFound path))
      else (case new_token draw (st_records st) n of
              None \<Rightarrow> None
            | Some (token, _) \<Rightarrow> Some (put_with_token token path item env header hash now st)))"

definition resolve :: "pystr \<Rightarrow> int \<Rightarrow> store \<Rightarrow> store_error + state_record \<times> store" where
  "resolve token now st =
     (case dget (st_records st) token of
        None \<Rightarrow> Inl (StateTokenNotFound token)
      | Some r \<Rightarrow>
          (let updated = r\<lparr>rec_accessed := now\<rparr>
           in Inr (updated, write_metadata updated now
                 (st\<lparr>st_records := dset token updated (st_records st)\<rparr>))))"

definition resolve_and_pin :: "pystr \<Rightarrow> int \<Rightarrow> store \<Rightarrow> store_error + state_record \<times> store" where
  "resolve_and_pin token now st =
     ebind (resolve token now st) (\<lambda>(r, st').
       Inr (r, st'\<lparr>st_pins := dset token (dget_or (st_pins st') token 0 + 1) (st_pins st')\<rparr>))"

definition unpin :: "pystr \<Rightarrow> store \<Rightarrow> store" where
  "unpin token st =
     (case dget (st_pins st) token of
        None \<Rightarrow> st
      | Some count \<Rightarrow> if count \<le> 1 then st\<lparr>st_pins := dpop token (st_pins st)\<rparr>
                      else st\<lparr>st_pins := dset token (count - 1) (st_pins st)\<rparr>)"

definition unpin_many :: "pystr list \<Rightarrow> store \<Rightarrow> store" where
  "unpin_many tokens st = foldl (\<lambda>s t. unpin t s) st tokens"

text \<open>A failing \<open>put\<close> leaves the parent touched, so the store is returned beside the outcome.\<close>

definition create_child ::
  "(nat \<Rightarrow> pystr) \<Rightarrow> nat \<Rightarrow> pystr \<Rightarrow> pystr \<Rightarrow> int \<Rightarrow> store \<Rightarrow> ((store_error + pystr) \<times> store) option" where
  "create_child draw n parent_token child_path now st =
     (case resolve parent_token now st of
        Inl e \<Rightarrow> Some (Inl e, st)
      | Inr (parent, st') \<Rightarrow>
          (case put draw n child_path (rec_item parent) (rec_env parent) (rec_header parent)
                  (rec_hash parent) now st' of
             None \<Rightarrow> None
           | Some (Inl e) \<Rightarrow> Some (Inl e, st')
           | Some (Inr (token, st'')) \<Rightarrow> Some (Inr token, st'')))"

section \<open>Deletion\<close>

definition discard_token :: "pystr \<Rightarrow> pystr \<Rightarrow> (pystr, pystr list) pydict \<Rightarrow> (pystr, pystr list) pydict" where
  "discard_token item token by_item =
     (case dget by_item item of
        None \<Rightarrow> by_item
      | Some tokens \<Rightarrow> (let rest = removeAll token tokens
                        in if rest = [] then dpop item by_item else dset item rest by_item))"

definition delete_record :: "pystr \<Rightarrow> state_record \<Rightarrow> store \<Rightarrow> store" where
  "delete_record token r st =
     st\<lparr>st_records := dpop token (st_records st),
        st_by_item := discard_token (rec_item r) token (st_by_item st),
        st_files := dpop (metadata_path token) (dpop (rec_path r) (st_files st))\<rparr>"

fun delete_tokens :: "pystr list \<Rightarrow> store \<Rightarrow> store \<times> delete_stats" where
  "delete_tokens [] st = (st, \<lparr>ds_states = 0, ds_bytes = 0\<rparr>)"
| "delete_tokens (token # tokens) st =
     (if dget (st_pins st) token \<noteq> None then delete_tokens tokens st
      else case dget (st_records st) token of
             None \<Rightarrow> delete_tokens tokens st
           | Some r \<Rightarrow>
               (let (st', ds) = delete_tokens tokens (delete_record token r st)
                in (st', \<lparr>ds_states = 1 + ds_states ds, ds_bytes = rec_size r + ds_bytes ds\<rparr>)))"

definition tokens_of_item :: "pystr \<Rightarrow> store \<Rightarrow> pystr list" where
  "tokens_of_item item st = dget_or (st_by_item st) item []"

definition delete_by_item_id :: "pystr \<Rightarrow> store \<Rightarrow> store \<times> delete_stats" where
  "delete_by_item_id item st = delete_tokens (tokens_of_item item st) st"

definition delete_by_item_id_all_or_none :: "pystr \<Rightarrow> store \<Rightarrow> store \<times> delete_decision" where
  "delete_by_item_id_all_or_none item st =
     (let tokens = tokens_of_item item st;
          pinned = int (length (filter (\<lambda>t. dget (st_pins st) t \<noteq> None) tokens))
      in if pinned \<noteq> 0 then (st, DeletePinned pinned)
         else let (st', ds) = delete_tokens tokens st in (st', DeleteDone ds))"

definition count_by_item_id :: "pystr \<Rightarrow> store \<Rightarrow> int" where
  "count_by_item_id item st = int (length (tokens_of_item item st))"

definition total_bytes :: "store \<Rightarrow> int" where
  "total_bytes st = dsum rec_size (st_records st)"

definition store_stats_of :: "store \<Rightarrow> store_stats" where
  "store_stats_of st =
     \<lparr>ss_state_count = int (length (st_records st)), ss_total_bytes = total_bytes st,
      ss_item_count = int (length (st_by_item st)),
      ss_pinned_states = int (length (st_pins st)), ss_pin_refs = dsum (\<lambda>n. n) (st_pins st)\<rparr>"

section \<open>Garbage collection\<close>

text \<open>The loop of \<open>_gc_over_budget\<close>: oldest first, until the remaining total fits.\<close>

fun over_budget_tokens :: "int \<Rightarrow> int \<Rightarrow> state_record list \<Rightarrow> pystr list" where
  "over_budget_tokens max_bytes remaining [] = []"
| "over_budget_tokens max_bytes remaining (r # rs) =
     rec_token r # (if remaining - rec_size r \<le> max_bytes then []
                    else over_budget_tokens max_bytes (remaining - rec_size r) rs)"

definition gc_over_budget :: "store \<Rightarrow> store \<times> delete_stats" where
  "gc_over_budget st =
     (if st_max_bytes st < 0 then (st, \<lparr>ds_states = 0, ds_bytes = 0\<rparr>)
      else if total_bytes st \<le> st_max_bytes st then (st, \<lparr>ds_states = 0, ds_bytes = 0\<rparr>)
      else delete_tokens
             (over_budget_tokens (st_max_bytes st) (total_bytes st)
                (sort_key (\<lambda>r. (rec_accessed r, rec_created r)) (map snd (st_records st)))) st)"

fun sweep_names :: "int \<Rightarrow> pystr list \<Rightarrow> store \<Rightarrow> store \<times> delete_stats" where
  "sweep_names cutoff [] st = (st, \<lparr>ds_states = 0, ds_bytes = 0\<rparr>)"
| "sweep_names cutoff (name # names) st =
     (case dget (st_files st) name of
        None \<Rightarrow> sweep_names cutoff names st
      | Some f \<Rightarrow>
          if dget (st_records st) (path_stem name) \<noteq> None \<or> cutoff \<le> fl_mtime f
          then sweep_names cutoff names st
          else (let (st', ds) = sweep_names cutoff names (st\<lparr>st_files := dpop name (st_files st)\<rparr>)
                in if path_suffix name = lit ''.bin''
                   then (st', \<lparr>ds_states = 1 + ds_states ds, ds_bytes = file_size f + ds_bytes ds\<rparr>)
                   else (st', ds)))"

definition sweep_orphans :: "int \<Rightarrow> store \<Rightarrow> store \<times> delete_stats" where
  "sweep_orphans cutoff st = sweep_names cutoff (map fst (st_files st)) st"

definition gc_expired :: "int \<Rightarrow> store \<Rightarrow> store \<times> delete_stats" where
  "gc_expired now st =
     (let cutoff = now - st_ttl st;
          expired = map fst (filter (\<lambda>p. rec_accessed (snd p) < cutoff) (st_records st));
          (st1, tracked) = delete_tokens expired st;
          (st2, budget) = gc_over_budget st1;
          (st3, orphans) = sweep_orphans cutoff st2
      in (st3, \<lparr>ds_states = ds_states tracked + ds_states budget + ds_states orphans,
                ds_bytes = ds_bytes tracked + ds_bytes budget + ds_bytes orphans\<rparr>))"

text \<open>\<open>discard_unpromoted_state_paths\<close> of \<open>server/exec_state_files.py\<close>\<close>

fun discard_paths :: "pystr option list \<Rightarrow> store \<Rightarrow> store \<times> int" where
  "discard_paths [] st = (st, 0)"
| "discard_paths (None # ps) st = discard_paths ps st"
| "discard_paths (Some p # ps) st =
     (let (st', n) = discard_paths ps (st\<lparr>st_files := dpop p (st_files st)\<rparr>)
      in (st', if dget (st_files st) p \<noteq> None then n + 1 else n))"

section \<open>File names\<close>

lemma path_extension_dot:
  assumes "\<forall>c \<in> set e. c \<noteq> 46"
  shows "path_extension (s @ 46 # e) = e"
proof -
  have "takeWhile (\<lambda>c. c \<noteq> 46) (rev e @ 46 # rev s) = rev e"
    using assms by (subst takeWhile_append2) auto
  then show ?thesis by (simp add: path_extension_def)
qed

lemma bin_json_lit: "lit ''.bin'' = 46 # lit ''bin''" "lit ''.json'' = 46 # lit ''json''"
  by (simp_all add: lit_def)

lemma no_dot_lit: "\<forall>c \<in> set (lit ''bin''). c \<noteq> 46" "\<forall>c \<in> set (lit ''json''). c \<noteq> 46"
  by (simp_all add: lit_def)

lemma stem_state_path [simp]: "token \<noteq> [] \<Longrightarrow> path_stem (state_path token) = token"
  unfolding path_stem_def has_suffix_def state_path_def bin_json_lit
  by (simp add: path_extension_dot [OF no_dot_lit(1)])

lemma stem_metadata_path [simp]: "token \<noteq> [] \<Longrightarrow> path_stem (metadata_path token) = token"
  unfolding path_stem_def has_suffix_def metadata_path_def bin_json_lit
  by (simp add: path_extension_dot [OF no_dot_lit(2)])

lemma paths_inj [simp]:
  "state_path t = state_path t' \<longleftrightarrow> t = t'"
  "metadata_path t = metadata_path t' \<longleftrightarrow> t = t'"
  by (simp_all add: state_path_def metadata_path_def)

lemma paths_disjoint [simp]: "state_path t \<noteq> metadata_path t'" "metadata_path t' \<noteq> state_path t"
proof -
  have "rev (state_path t) ! 1 \<noteq> rev (metadata_path t') ! 1"
    by (simp add: state_path_def metadata_path_def lit_def)
  then show "state_path t \<noteq> metadata_path t'" "metadata_path t' \<noteq> state_path t" by metis+
qed

lemma ends_with_metadata_path [simp]: "ends_with (lit ''.json'') (metadata_path t)"
  by (auto simp: ends_with_iff metadata_path_def)

section \<open>Invariant\<close>

text \<open>
  The index agrees with itself and with the directory: records are stored under their own token and
  path, the item sets are the tokens of the records of the item, pins count existing records, and
  every record has its state file, of the recorded size, and its sidecar.
\<close>

definition records_ok :: "store \<Rightarrow> bool" where
  "records_ok st \<longleftrightarrow> dwf (st_records st) \<and>
     (\<forall>t r. dget (st_records st) t = Some r \<longrightarrow>
        rec_token r = t \<and> rec_path r = state_path t \<and> t \<noteq> [])"

definition token_set :: "pystr list \<Rightarrow> bool" where
  "token_set ts \<longleftrightarrow> ts \<noteq> [] \<and> distinct ts"

definition items_ok :: "store \<Rightarrow> bool" where
  "items_ok st \<longleftrightarrow> dwf (st_by_item st) \<and>
     (\<forall>i ts. dget (st_by_item st) i = Some ts \<longrightarrow> token_set ts)"

definition index_agrees :: "store \<Rightarrow> bool" where
  "index_agrees st \<longleftrightarrow> (\<forall>i t. t \<in> set (tokens_of_item i st) \<longleftrightarrow>
     (\<exists>r. dget (st_records st) t = Some r \<and> rec_item r = i))"

definition index_ok :: "store \<Rightarrow> bool" where
  "index_ok st \<longleftrightarrow> records_ok st \<and> items_ok st \<and> index_agrees st"

definition pins_ok :: "store \<Rightarrow> bool" where
  "pins_ok st \<longleftrightarrow> dwf (st_pins st) \<and>
     (\<forall>t n. dget (st_pins st) t = Some n \<longrightarrow> 1 \<le> n \<and> dget (st_records st) t \<noteq> None)"

definition record_files :: "directory \<Rightarrow> pystr \<Rightarrow> state_record \<Rightarrow> bool" where
  "record_files files t r \<longleftrightarrow>
     (\<exists>f. dget files (state_path t) = Some f \<and> file_size f = rec_size r) \<and>
     (\<exists>m. dget files (metadata_path t) = Some \<lparr>fl_content = Sidecar (meta_of r), fl_mtime = m\<rparr>)"

definition files_ok :: "store \<Rightarrow> bool" where
  "files_ok st \<longleftrightarrow> dwf (st_files st) \<and>
     (\<forall>t r. dget (st_records st) t = Some r \<longrightarrow> record_files (st_files st) t r)"

definition store_inv :: "store \<Rightarrow> bool" where
  "store_inv st \<longleftrightarrow> index_ok st \<and> pins_ok st \<and> files_ok st"

text \<open>A path the store does not track: a worker's scratch file.\<close>

definition untracked :: "pystr \<Rightarrow> store \<Rightarrow> bool" where
  "untracked path st \<longleftrightarrow> (\<forall>t. dget (st_records st) t \<noteq> None \<longrightarrow>
     path \<noteq> state_path t \<and> path \<noteq> metadata_path t)"

definition has_state :: "store \<Rightarrow> pystr \<Rightarrow> bool" where
  "has_state st t \<longleftrightarrow> dget (st_records st) t \<noteq> None"

definition pin_count :: "store \<Rightarrow> pystr \<Rightarrow> int" where
  "pin_count st t = dget_or (st_pins st) t 0"

lemma record_files_cong:
  "dget files' (state_path t) = dget files (state_path t) \<Longrightarrow>
   dget files' (metadata_path t) = dget files (metadata_path t) \<Longrightarrow>
   record_files files' t r = record_files files t r"
  by (simp add: record_files_def)

lemma files_okI:
  assumes "dwf (st_files st)"
    and "\<And>t r. dget (st_records st) t = Some r \<Longrightarrow> record_files (st_files st) t r"
  shows "files_ok st"
  using assms by (simp add: files_ok_def)

lemma files_okD: "files_ok st \<Longrightarrow> dget (st_records st) t = Some r \<Longrightarrow> record_files (st_files st) t r"
  by (simp add: files_ok_def)

lemma files_ok_dwf: "files_ok st \<Longrightarrow> dwf (st_files st)"
  by (simp add: files_ok_def)

lemma store_inv_files: "store_inv st \<Longrightarrow> files_ok st"
  by (simp add: store_inv_def)

text \<open>A directory that keeps the files of the records keeps the invariant.\<close>

lemma files_ok_keep:
  assumes "files_ok st" "dwf (st_files st')"
    and "\<And>t r. dget (st_records st') t = Some r \<Longrightarrow> dget (st_records st) t = Some r \<and>
      dget (st_files st') (state_path t) = dget (st_files st) (state_path t) \<and>
      dget (st_files st') (metadata_path t) = dget (st_files st) (metadata_path t)"
  shows "files_ok st'"
proof (rule files_okI [OF assms(2)])
  fix t r assume "dget (st_records st') t = Some r"
  from assms(3) [OF this] files_okD [OF assms(1)]
  show "record_files (st_files st') t r" by (metis record_files_cong)
qed

lemma tokens_of_item_index:
  "tokens_of_item i (index_record r st) =
     (if i = rec_item r then set_add (rec_token r) (tokens_of_item i st) else tokens_of_item i st)"
  by (simp add: tokens_of_item_def index_record_def add_token_def dget_or_def)

lemma set_set_add [simp]: "set (set_add x xs) = insert x (set xs)"
  by (auto simp: set_add_def)

lemma distinct_set_add [simp]: "distinct (set_add x xs) = distinct xs"
  by (simp add: set_add_def)

lemma set_add_nonempty [simp]: "set_add x xs \<noteq> []"
  by (auto simp: set_add_def)

lemma items_ok_token_set: "items_ok st \<Longrightarrow> dget (st_by_item st) i = Some ts \<Longrightarrow> token_set ts"
  unfolding items_ok_def by blast

lemma tokens_distinct: "items_ok st \<Longrightarrow> distinct (tokens_of_item i st)"
  by (cases "dget (st_by_item st) i")
    (auto simp: tokens_of_item_def dget_or_def token_set_def dest: items_ok_token_set)

lemma items_ok_upd:
  assumes "items_ok st" "st_by_item st' = dset i ts (st_by_item st)" "token_set ts"
  shows "items_ok st'"
  using assms unfolding items_ok_def by simp

lemma items_ok_add: "items_ok st \<Longrightarrow> items_ok (index_record r st)"
  by (rule items_ok_upd [where i = "rec_item r"
        and ts = "set_add (rec_token r) (tokens_of_item (rec_item r) st)"])
    (simp_all add: index_record_def add_token_def tokens_of_item_def [symmetric] tokens_distinct
      token_set_def)

lemma index_record_index_ok:
  assumes "index_ok st" "dget (st_records st) (rec_token r) = None"
    and "rec_path r = state_path (rec_token r)" "rec_token r \<noteq> []"
  shows "index_ok (index_record r st)"
proof -
  have ag: "t \<in> set (tokens_of_item i st) \<longleftrightarrow>
      (\<exists>r'. dget (st_records st) t = Some r' \<and> rec_item r' = i)" for i t
    using assms(1) by (simp add: index_ok_def index_agrees_def)
  have recs: "st_records (index_record r st) = dset (rec_token r) r (st_records st)"
    by (simp add: index_record_def)
  have "index_agrees (index_record r st)"
    unfolding index_agrees_def tokens_of_item_index recs
    using assms(2) by (simp add: ag)
  moreover have "records_ok (index_record r st)"
    using assms by (auto simp: recs index_ok_def records_ok_def)
  ultimately show ?thesis
    using assms(1) by (simp add: index_ok_def items_ok_add)
qed

lemma tokens_of_item_delete [simp]:
  "tokens_of_item i (delete_record t r st) =
     (if i = rec_item r then removeAll t (tokens_of_item i st) else tokens_of_item i st)"
  by (simp add: tokens_of_item_def delete_record_def discard_token_def dget_or_def Let_def
      split: option.splits)

lemma items_ok_delete:
  assumes ok: "items_ok st"
  shows "items_ok (delete_record t r st)"
proof (cases "dget (st_by_item st) (rec_item r)")
  case None
  with ok show ?thesis
    by (simp add: delete_record_def discard_token_def items_ok_def)
next
  case (Some ts)
  with ok have "token_set ts" by (rule items_ok_token_set)
  then have "distinct ts" by (simp add: token_set_def)
  then have ts: "distinct (removeAll t ts)" by (rule distinct_removeAll)
  show ?thesis
  proof (cases "removeAll t ts = []")
    case True
    with Some ok show ?thesis
      by (auto simp: delete_record_def discard_token_def items_ok_def)
  next
    case False
    with Some have "st_by_item (delete_record t r st) =
        dset (rec_item r) (removeAll t ts) (st_by_item st)"
      by (simp add: delete_record_def discard_token_def)
    moreover have "token_set (removeAll t ts)"
      using False ts by (simp add: token_set_def)
    ultimately show ?thesis by (rule items_ok_upd [OF ok])
  qed
qed

lemma delete_record_index_ok:
  assumes "index_ok st" "dget (st_records st) t = Some r"
  shows "index_ok (delete_record t r st)"
proof -
  have ag: "u \<in> set (tokens_of_item i st) \<longleftrightarrow>
      (\<exists>r'. dget (st_records st) u = Some r' \<and> rec_item r' = i)" for i u
    using assms(1) by (simp add: index_ok_def index_agrees_def)
  have recs: "st_records (delete_record t r st) = dpop t (st_records st)"
    by (simp add: delete_record_def)
  have "index_agrees (delete_record t r st)"
    unfolding index_agrees_def tokens_of_item_delete recs
    using assms(2) by (simp add: ag)
  moreover have "records_ok (delete_record t r st)"
    using assms(1) by (auto simp: recs index_ok_def records_ok_def)
  ultimately show ?thesis
    using assms(1) by (simp add: index_ok_def items_ok_delete)
qed

lemma delete_record_inv:
  assumes "store_inv st" "dget (st_records st) t = Some r" "dget (st_pins st) t = None"
  shows "store_inv (delete_record t r st)"
proof -
  have p: "rec_path r = state_path t"
    using assms(1,2) by (simp add: store_inv_def index_ok_def records_ok_def)
  have "pins_ok (delete_record t r st)"
    using assms by (auto simp: store_inv_def pins_ok_def delete_record_def)
  moreover have "files_ok (delete_record t r st)"
    using assms(1) p by (intro files_ok_keep [OF store_inv_files [OF assms(1)]])
      (auto simp: delete_record_def files_ok_dwf dest: store_inv_files split: if_splits)
  ultimately show ?thesis
    using assms(1,2) delete_record_index_ok by (simp add: store_inv_def)
qed

section \<open>Every operation keeps the invariant\<close>

text \<open>\<open>_delete_tokens\<close>: the records that go are those listed and not pinned, in any order.\<close>

lemma delete_record_simps [simp]:
  "st_records (delete_record t r st) = dpop t (st_records st)"
  "st_pins (delete_record t r st) = st_pins st"
  "st_ttl (delete_record t r st) = st_ttl st"
  "st_max_bytes (delete_record t r st) = st_max_bytes st"
  by (simp_all add: delete_record_def)

lemma delete_tokens_simps [simp]:
  "st_pins (fst (delete_tokens ts st)) = st_pins st"
  "st_ttl (fst (delete_tokens ts st)) = st_ttl st"
  "st_max_bytes (fst (delete_tokens ts st)) = st_max_bytes st"
  by (induction ts st rule: delete_tokens.induct) (auto split: option.splits prod.splits)

lemma delete_tokens_records:
  "dget (st_records (fst (delete_tokens ts st))) t =
     (if t \<in> set ts \<and> dget (st_pins st) t = None then None else dget (st_records st) t)"
  by (induction ts st rule: delete_tokens.induct) (auto split: option.splits prod.splits)

lemma delete_tokens_inv [inv_intros]: "store_inv st \<Longrightarrow> store_inv (fst (delete_tokens ts st))"
  by (induction ts st rule: delete_tokens.induct)
    (auto split: option.splits prod.splits dest: delete_record_inv)

text \<open>The byte count it returns is what the total loses.\<close>

lemma delete_tokens_bytes:
  "dwf (st_records st) \<Longrightarrow>
   total_bytes (fst (delete_tokens ts st)) = total_bytes st - ds_bytes (snd (delete_tokens ts st))"
  by (induction ts st rule: delete_tokens.induct)
    (auto simp: total_bytes_def dsum_dpop split: option.splits prod.splits)

lemma records_ok_dwf [dest]: "store_inv st \<Longrightarrow> dwf (st_records st)"
  by (simp add: store_inv_def index_ok_def records_ok_def)

lemma store_inv_record:
  assumes "store_inv st" "dget (st_records st) t = Some r"
  shows "rec_token r = t" "rec_path r = state_path t" "t \<noteq> []"
  using assms by (simp_all add: store_inv_def index_ok_def records_ok_def)

lemma store_inv_pinned: "store_inv st \<Longrightarrow> dget (st_pins st) t = Some n \<Longrightarrow> 1 \<le> n \<and> has_state st t"
  by (simp add: store_inv_def pins_ok_def has_state_def)

lemma touch_index_agrees:
  assumes "index_ok st" "dget (st_records st) t = Some r"
    and "rec_token r' = rec_token r" "rec_item r' = rec_item r" "rec_path r' = rec_path r"
  shows "index_ok (st\<lparr>st_records := dset t r' (st_records st)\<rparr>)"
proof -
  have "u \<in> set (tokens_of_item i st) \<longleftrightarrow>
      (\<exists>r'. dget (st_records st) u = Some r' \<and> rec_item r' = i)" for i u
    using assms(1) by (simp add: index_ok_def index_agrees_def)
  with assms show ?thesis
    by (auto simp: index_ok_def records_ok_def items_ok_def index_agrees_def tokens_of_item_def)
qed

lemma resolve_inv [inv_intros]:
  assumes "store_inv st" "resolve t now st = Inr (r', st')"
  shows "store_inv st'"
proof -
  from assms(2) obtain r where r: "dget (st_records st) t = Some r" "r' = r\<lparr>rec_accessed := now\<rparr>"
    "st' = write_metadata r' now (st\<lparr>st_records := dset t r' (st_records st)\<rparr>)"
    by (auto simp: resolve_def Let_def split: option.splits)
  have rt: "rec_token r = t" using assms(1) r(1) by (simp add: store_inv_record)
  have "index_ok (st\<lparr>st_records := dset t r' (st_records st)\<rparr>)"
    using assms(1) r by (intro touch_index_agrees) (auto simp: store_inv_def)
  then have "index_ok st'"
    by (simp add: r(3) write_metadata_def index_ok_def records_ok_def items_ok_def index_agrees_def
        tokens_of_item_def)
  moreover have "pins_ok st'" using assms(1)
    by (auto simp: r(3) write_metadata_def store_inv_def pins_ok_def)
  moreover have "files_ok st'"
  proof (rule files_okI)
    show "dwf (st_files st')"
      using assms(1) by (simp add: r(3) write_metadata_def files_ok_dwf store_inv_files)
    fix u s assume u: "dget (st_records st') u = Some s"
    show "record_files (st_files st') u s"
      using u r rt files_okD [OF store_inv_files [OF assms(1)]]
      by (auto simp: write_metadata_def record_files_def split: if_splits)
  qed
  ultimately show ?thesis by (simp add: store_inv_def)
qed

lemma resolve_records:
  "resolve t now st = Inr (r, st') \<Longrightarrow> has_state st' u = has_state st u"
  "resolve t now st = Inr (r, st') \<Longrightarrow> st_pins st' = st_pins st"
  by (auto simp: resolve_def Let_def write_metadata_def has_state_def split: option.splits if_splits)

lemma resolve_total: "(\<exists>r st'. resolve t now st = Inr (r, st')) \<longleftrightarrow> has_state st t"
  by (auto simp: resolve_def Let_def has_state_def split: option.splits)

lemma resolve_and_pin_inv [inv_intros]:
  assumes "store_inv st" "resolve_and_pin t now st = Inr (r, st')"
  shows "store_inv st'"
proof -
  from assms(2) obtain st1 where st1: "resolve t now st = Inr (r, st1)"
    "st' = st1\<lparr>st_pins := dset t (dget_or (st_pins st1) t 0 + 1) (st_pins st1)\<rparr>"
    by (auto simp: resolve_and_pin_def)
  have inv: "store_inv st1" using assms(1) st1(1) by (rule resolve_inv)
  have "has_state st1 t" using st1(1) resolve_total resolve_records(1) by blast
  moreover have "0 \<le> dget_or (st_pins st1) t 0"
    using inv by (auto simp: dget_or_def split: option.splits dest: store_inv_pinned)
  ultimately have "pins_ok st'"
    using inv by (auto simp: st1(2) store_inv_def pins_ok_def has_state_def)
  with inv show ?thesis
    by (simp add: st1(2) store_inv_def index_ok_def records_ok_def items_ok_def index_agrees_def
        tokens_of_item_def files_ok_def)
qed

lemma unpin_frame [simp]:
  "st_records (unpin t st) = st_records st" "st_by_item (unpin t st) = st_by_item st"
  "st_files (unpin t st) = st_files st"
  by (auto simp: unpin_def split: option.splits)

lemma unpin_inv [inv_intros]: "store_inv st \<Longrightarrow> store_inv (unpin t st)"
proof -
  assume inv: "store_inv st"
  have "pins_ok (unpin t st)"
    using inv by (auto simp: store_inv_def pins_ok_def unpin_def split: option.splits)
  with inv show ?thesis
    by (simp add: store_inv_def index_ok_def records_ok_def items_ok_def index_agrees_def
        tokens_of_item_def files_ok_def)
qed

lemma unpin_many_inv [inv_intros]: "store_inv st \<Longrightarrow> store_inv (unpin_many ts st)"
  unfolding unpin_many_def by (rule foldl_inv) (auto intro: unpin_inv)

lemma unpin_many_records [simp]: "st_records (unpin_many ts st) = st_records st"
  unfolding unpin_many_def by (induction ts arbitrary: st) auto

lemma untracked_put:
  assumes "files_ok st" "untracked path st" "dget (st_files st) path = Some f"
    and "dget (st_records st) token = None" "rec_token r = token" "rec_size r = file_size f"
    and "st' = write_metadata r now (index_record r
           (st\<lparr>st_files := dset (state_path token) f (dpop path (st_files st))\<rparr>))"
  shows "files_ok st'"
proof (rule files_okI)
  show "dwf (st_files st')"
    using assms(1,7) by (simp add: write_metadata_def index_record_def files_ok_dwf)
  fix u s assume u: "dget (st_records st') u = Some s"
  show "record_files (st_files st') u s"
  proof (cases "u = token")
    case True
    with u assms(4-7) show ?thesis
      by (simp add: record_files_def write_metadata_def index_record_def)
  next
    case False
    with u assms(5,7) have s: "dget (st_records st) u = Some s"
      by (simp add: write_metadata_def index_record_def)
    then have "record_files (st_files st) u s" by (rule files_okD [OF assms(1)])
    moreover have "path \<noteq> state_path u" "path \<noteq> metadata_path u"
      using assms(2) s by (auto simp: untracked_def)
    ultimately show ?thesis
      using False assms(5,7) by (simp add: record_files_def write_metadata_def index_record_def)
  qed
qed

lemma put_with_token_inv [inv_intros]:
  assumes "store_inv st" "untracked path st" "dget (st_records st) token = None" "token \<noteq> []"
    and "put_with_token token path item env header hash now st = Inr (t, st')"
  shows "store_inv st'"
proof -
  from assms(5) obtain f where f: "dget (st_files st) path = Some f"
    by (auto simp: put_with_token_def split: option.splits)
  define r where "r = \<lparr>rec_token = token, rec_item = item, rec_env = env, rec_header = header,
     rec_hash = hash, rec_path = state_path token, rec_created = now, rec_accessed = now,
     rec_size = file_size f\<rparr>"
  then have r: "rec_token r = token" "rec_path r = state_path token" "rec_size r = file_size f"
    by simp_all
  have st': "st' = write_metadata r now (index_record r
           (st\<lparr>st_files := dset (state_path token) f (dpop path (st_files st))\<rparr>))"
    using assms(5) f by (auto simp: put_with_token_def Let_def r_def)
  have fo: "files_ok st'"
    by (rule untracked_put [OF store_inv_files [OF assms(1)] assms(2) f assms(3) r(1) r(3) st'])
  have "index_ok (st\<lparr>st_files := dset (state_path token) f (dpop path (st_files st))\<rparr>)"
    using assms(1) by (simp add: store_inv_def index_ok_def records_ok_def items_ok_def
        index_agrees_def tokens_of_item_def)
  then have "index_ok (index_record r
      (st\<lparr>st_files := dset (state_path token) f (dpop path (st_files st))\<rparr>))"
    using assms(3,4) r by (intro index_record_index_ok) auto
  then have "index_ok st'"
    by (simp add: st' write_metadata_def index_ok_def records_ok_def items_ok_def
        index_agrees_def tokens_of_item_def)
  moreover have "pins_ok st'" using assms(1)
    by (auto simp: st' write_metadata_def index_record_def store_inv_def pins_ok_def)
  ultimately show ?thesis using fo by (simp add: store_inv_def)
qed

text \<open>The sweep removes only files of no record.\<close>

lemma sweep_names_simps [simp]:
  "st_records (fst (sweep_names c ns st)) = st_records st"
  "st_by_item (fst (sweep_names c ns st)) = st_by_item st"
  "st_pins (fst (sweep_names c ns st)) = st_pins st"
  by (induction c ns st rule: sweep_names.induct) (auto split: option.splits prod.splits)

lemma sweep_names_files:
  "dget (st_files (fst (sweep_names c ns st))) n =
     (case dget (st_files st) n of
        None \<Rightarrow> None
      | Some f \<Rightarrow> if n \<in> set ns \<and> fl_mtime f < c \<and> dget (st_records st) (path_stem n) = None
                  then None else Some f)"
  by (induction c ns st rule: sweep_names.induct) (auto split: option.splits prod.splits if_splits)

lemma sweep_names_dwf: "dwf (st_files st) \<Longrightarrow> dwf (st_files (fst (sweep_names c ns st)))"
  by (induction c ns st rule: sweep_names.induct) (auto split: option.splits prod.splits)

lemma sweep_names_inv [inv_intros]:
  assumes "store_inv st"
  shows "store_inv (fst (sweep_names c ns st))"
proof -
  let ?st = "fst (sweep_names c ns st)"
  have "files_ok ?st"
  proof (rule files_ok_keep [OF store_inv_files [OF assms]])
    show "dwf (st_files ?st)"
      using assms by (simp add: files_ok_dwf store_inv_files sweep_names_dwf)
  next
    fix t r assume "dget (st_records ?st) t = Some r"
    then have r: "dget (st_records st) t = Some r" by simp
    then have "t \<noteq> []" using assms by (auto simp: store_inv_record)
    with r show "dget (st_records st) t = Some r \<and>
        dget (st_files ?st) (state_path t) = dget (st_files st) (state_path t) \<and>
        dget (st_files ?st) (metadata_path t) = dget (st_files st) (metadata_path t)"
      by (simp add: sweep_names_files split: option.splits)
  qed
  with assms show ?thesis
    by (simp add: store_inv_def index_ok_def records_ok_def items_ok_def index_agrees_def
        tokens_of_item_def pins_ok_def)
qed

lemma gc_over_budget_inv [inv_intros]: "store_inv st \<Longrightarrow> store_inv (fst (gc_over_budget st))"
  by (simp add: gc_over_budget_def delete_tokens_inv)

lemma gc_expired_fst:
  "fst (gc_expired now st) =
     fst (sweep_orphans (now - st_ttl st) (fst (gc_over_budget (fst (delete_tokens
       (map fst (filter (\<lambda>p. rec_accessed (snd p) < now - st_ttl st) (st_records st))) st)))))"
  by (simp add: gc_expired_def Let_def case_prod_beta)

lemma gc_expired_inv [inv_intros]: "store_inv st \<Longrightarrow> store_inv (fst (gc_expired now st))"
  unfolding gc_expired_fst sweep_orphans_def
  by (intro sweep_names_inv gc_over_budget_inv delete_tokens_inv)

lemma delete_by_item_inv [inv_intros]:
  "store_inv st \<Longrightarrow> store_inv (fst (delete_by_item_id i st))"
  "store_inv st \<Longrightarrow> store_inv (fst (delete_by_item_id_all_or_none i st))"
  by (auto simp: delete_by_item_id_def delete_by_item_id_all_or_none_def Let_def
      intro: delete_tokens_inv split: prod.splits) (metis delete_tokens_inv fst_conv)

lemma discard_paths_simps [simp]:
  "st_records (fst (discard_paths ps st)) = st_records st"
  "st_by_item (fst (discard_paths ps st)) = st_by_item st"
  "st_pins (fst (discard_paths ps st)) = st_pins st"
  by (induction ps st rule: discard_paths.induct) (auto split: prod.splits)

lemma discard_paths_files:
  "dget (st_files (fst (discard_paths ps st))) n =
     (if Some n \<in> set ps then None else dget (st_files st) n)"
  by (induction ps st rule: discard_paths.induct) (auto split: prod.splits)

lemma discard_paths_dwf: "dwf (st_files st) \<Longrightarrow> dwf (st_files (fst (discard_paths ps st)))"
  by (induction ps st rule: discard_paths.induct) (auto split: prod.splits)

lemma discard_paths_inv [inv_intros]:
  assumes "store_inv st" "\<And>p. Some p \<in> set ps \<Longrightarrow> untracked p st"
  shows "store_inv (fst (discard_paths ps st))"
proof -
  have "files_ok (fst (discard_paths ps st))"
    using assms(1)
  proof (intro files_ok_keep [OF store_inv_files [OF assms(1)]])
    fix t r assume "dget (st_records (fst (discard_paths ps st))) t = Some r"
    then have "dget (st_records st) t = Some r" by simp
    with assms(2) show "dget (st_records st) t = Some r \<and>
        dget (st_files (fst (discard_paths ps st))) (state_path t) = dget (st_files st) (state_path t) \<and>
        dget (st_files (fst (discard_paths ps st))) (metadata_path t) =
          dget (st_files st) (metadata_path t)"
      unfolding discard_paths_files untracked_def by auto
  qed (simp add: discard_paths_dwf files_ok_dwf store_inv_files)
  with assms(1) show ?thesis
    by (simp add: store_inv_def index_ok_def records_ok_def items_ok_def index_agrees_def
        tokens_of_item_def pins_ok_def)
qed

section \<open>Fresh tokens\<close>

lemma new_token_fresh: "new_token draw recs n = Some (t, m) \<Longrightarrow>
  dget recs t = None \<and> starts_with (lit ''st_'') t \<and> n < m"
proof -
  assume run: "new_token draw recs n = Some (t, m)"
  have "dget recs (fst (t, m)) = None \<and> starts_with (lit ''st_'') (fst (t, m)) \<and> n < snd (t, m)"
  proof (rule new_token.raw_induct [OF _ run, where P = "\<lambda>draw recs n tm.
      dget recs (fst tm) = None \<and> starts_with (lit ''st_'') (fst tm) \<and> n < snd tm"])
    fix f :: "(nat \<Rightarrow> pystr) \<Rightarrow> (pystr, state_record) pydict \<Rightarrow> nat \<Rightarrow> (pystr \<times> nat) option"
    fix draw recs n tm
    assume IH: "\<And>draw recs n tm. f draw recs n = Some tm \<Longrightarrow>
        dget recs (fst tm) = None \<and> starts_with (lit ''st_'') (fst tm) \<and> n < snd tm"
      and eq: "(let token = normal_token (draw n) in
        if dget recs token = None then Some (token, Suc n) else f draw recs (Suc n)) = Some tm"
    show "dget recs (fst tm) = None \<and> starts_with (lit ''st_'') (fst tm) \<and> n < snd tm"
    proof (cases "dget recs (normal_token (draw n))")
      case None
      with eq show ?thesis by (auto simp: normal_token_def Let_def starts_with_iff)
    next
      case (Some r)
      with eq have "f draw recs (Suc n) = Some tm" by (simp add: Let_def)
      from IH [OF this] show ?thesis by auto
    qed
  qed
  then show ?thesis by simp
qed

text \<open>The loop returns as soon as the factory draws a token that is not in use.\<close>

lemma new_token_returns:
  "dget recs (normal_token (draw (n + k))) = None \<Longrightarrow> \<exists>t m. new_token draw recs n = Some (t, m)"
proof (induction k arbitrary: n)
  case 0
  then show ?case by (subst new_token.simps) (simp add: Let_def)
next
  case (Suc k)
  then have "\<exists>t m. new_token draw recs (Suc n) = Some (t, m)" by simp
  then show ?case by (subst new_token.simps) (auto simp: Let_def)
qed

end
