(* ===== verification/StoreRuns.thy ===== *)
theory StoreRuns
  imports StateStore
begin

text \<open>
  Runs of the state store.  A run is a list of timed operations, as the server's handlers and its
  sweep loop issue them, with the writes of scratch files by the workers in between.  The interface
  \<open>pin_store\<close> states what the step endpoints rely on (a pinned state stays) and is interpreted on the
  store; the properties below are about every run, a restart of the server, and the byte budget.
\<close>

section \<open>Operations and runs\<close>

datatype store_op =
    OpWrite pystr dfile
  | OpPut "nat \<Rightarrow> pystr" nat pystr pystr pystr pystr pystr
  | OpChild "nat \<Rightarrow> pystr" nat pystr pystr
  | OpResolve pystr
  | OpPin pystr
  | OpUnpin "pystr list"
  | OpDelete pystr
  | OpCleanup pystr
  | OpGc
  | OpDiscard "pystr option list"

fun store_step :: "int \<times> store_op \<Rightarrow> store \<Rightarrow> store" where
  "store_step (now, OpWrite path f) st = st\<lparr>st_files := dset path f (st_files st)\<rparr>"
| "store_step (now, OpPut draw n path item env header hash) st =
     (case put draw n path item env header hash now st of
        Some (Inr (t, st')) \<Rightarrow> st' | _ \<Rightarrow> st)"
| "store_step (now, OpChild draw n parent path) st =
     (case create_child draw n parent path now st of Some (r, st') \<Rightarrow> st' | None \<Rightarrow> st)"
| "store_step (now, OpResolve t) st =
     (case resolve t now st of Inr (r, st') \<Rightarrow> st' | Inl e \<Rightarrow> st)"
| "store_step (now, OpPin t) st =
     (case resolve_and_pin t now st of Inr (r, st') \<Rightarrow> st' | Inl e \<Rightarrow> st)"
| "store_step (now, OpUnpin ts) st = unpin_many ts st"
| "store_step (now, OpDelete i) st = fst (delete_by_item_id i st)"
| "store_step (now, OpCleanup i) st = fst (delete_by_item_id_all_or_none i st)"
| "store_step (now, OpGc) st = fst (gc_expired now st)"
| "store_step (now, OpDiscard ps) st = fst (discard_paths ps st)"

definition store_run :: "(int \<times> store_op) list \<Rightarrow> store \<Rightarrow> store" where
  "store_run ops st = foldl (\<lambda>s op. store_step op s) st ops"

text \<open>
  The workers write and promote files \<open>pg_<uuid>.bin\<close> (\<open>pantograph_worker.py\<close>, \<open>_next_state_path\<close>),
  while every token begins with \<open>st_\<close>: the two never meet.
\<close>

definition scratch_name :: "pystr \<Rightarrow> bool" where
  "scratch_name path \<longleftrightarrow> starts_with (lit ''pg_'') path \<and> ends_with (lit ''.bin'') path"

fun op_paths :: "store_op \<Rightarrow> pystr list" where
  "op_paths (OpWrite path f) = [path]"
| "op_paths (OpPut draw n path item env header hash) = [path]"
| "op_paths (OpChild draw n parent path) = [path]"
| "op_paths (OpDiscard ps) = [p. Some p \<leftarrow> ps]"
| "op_paths _ = []"

definition ops_ok :: "(int \<times> store_op) list \<Rightarrow> bool" where
  "ops_ok ops = list_all (\<lambda>op. list_all scratch_name (op_paths (snd op))) ops"

text \<open>What a run started by the server keeps: tokens begin with \<open>st_\<close>, sidecars belong to records.\<close>

definition names_ok :: "store \<Rightarrow> bool" where
  "names_ok st \<longleftrightarrow>
     (\<forall>t. has_state st t \<longrightarrow> starts_with (lit ''st_'') t) \<and>
     (\<forall>n. dget (st_files st) n \<noteq> None \<longrightarrow> ends_with (lit ''.json'') n \<longrightarrow>
        (\<exists>t. has_state st t \<and> n = metadata_path t))"

definition run_inv :: "store \<Rightarrow> bool" where
  "run_inv st \<longleftrightarrow> store_inv st \<and> names_ok st"

section \<open>Scratch names and tracked names\<close>

lemma scratch_untracked: "names_ok st \<Longrightarrow> scratch_name p \<Longrightarrow> untracked p st"
  by (auto simp: names_ok_def untracked_def has_state_def scratch_name_def starts_with_iff
      state_path_def metadata_path_def lit_def)

lemma bin_not_json [simp]: "x @ lit ''.bin'' \<noteq> y @ lit ''.json''"
proof -
  have "rev (x @ lit ''.bin'') ! 1 \<noteq> rev (y @ lit ''.json'') ! 1"
    by (simp add: lit_def)
  then show ?thesis by metis
qed

lemma scratch_not_sidecar: "scratch_name p \<Longrightarrow> \<not> ends_with (lit ''.json'') p"
  by (auto simp: scratch_name_def ends_with_iff)

lemma state_path_not_sidecar [simp]: "\<not> ends_with (lit ''.json'') (state_path t)"
  by (auto simp: ends_with_iff state_path_def)

section \<open>Steps keep the invariant\<close>

lemma names_okI:
  assumes "names_ok st"
    and "\<And>t. has_state st' t \<Longrightarrow> has_state st t"
    and "\<And>n. dget (st_files st') n \<noteq> None \<Longrightarrow> ends_with (lit ''.json'') n \<Longrightarrow>
      dget (st_files st) n \<noteq> None \<and> (\<forall>t. n = metadata_path t \<longrightarrow> has_state st' t)"
  shows "names_ok st'"
  using assms unfolding names_ok_def by metis

lemma resolve_names:
  assumes "run_inv st" "resolve t now st = Inr (r, st')"
  shows "names_ok st'"
proof -
  have hs: "has_state st t" using assms(2) resolve_total by blast
  obtain r0 where r0: "dget (st_records st) t = Some r0" "rec_token r0 = t"
    using hs assms(1) by (auto simp: has_state_def run_inv_def store_inv_record)
  with assms(2) have st': "st_files st' = dset (metadata_path t)
      \<lparr>fl_content = Sidecar (meta_of r), fl_mtime = now\<rparr> (st_files st)"
    by (auto simp: resolve_def Let_def write_metadata_def)
  show ?thesis
    using assms(1) hs resolve_records(1) [OF assms(2)]
    unfolding names_ok_def run_inv_def st' by (auto split: if_splits)
qed

lemma resolve_run_inv: "run_inv st \<Longrightarrow> resolve t now st = Inr (r, st') \<Longrightarrow> run_inv st'"
  unfolding run_inv_def by (blast intro: resolve_inv resolve_names [unfolded run_inv_def])

lemma put_with_token_names:
  assumes "names_ok st" "scratch_name path" "starts_with (lit ''st_'') token"
    and "put_with_token token path item env header hash now st = Inr (t, st')"
  shows "names_ok st'"
proof -
  have hs: "has_state st' u \<longleftrightarrow> u = token \<or> has_state st u" for u
    using assms(4) by (auto simp: put_with_token_def Let_def write_metadata_def index_record_def
        has_state_def split: option.splits)
  have fs: "dget (st_files st') n \<noteq> None \<Longrightarrow> n = metadata_path token \<or> n = state_path token \<or>
      dget (st_files st) n \<noteq> None" for n
    using assms(4) by (auto simp: put_with_token_def Let_def write_metadata_def index_record_def
        split: option.splits if_splits)
  show ?thesis
    unfolding names_ok_def
  proof (intro conjI allI impI)
    fix u assume "has_state st' u"
    with hs assms(1,3) show "starts_with (lit ''st_'') u" by (auto simp: names_ok_def)
  next
    fix n assume "dget (st_files st') n \<noteq> None" "ends_with (lit ''.json'') n"
    then consider "n = metadata_path token" | "dget (st_files st) n \<noteq> None"
      using fs [of n] by force
    then show "\<exists>u. has_state st' u \<and> n = metadata_path u"
    proof cases
      case 1
      then show ?thesis using hs by blast
    next
      case 2
      then obtain u where "has_state st u \<and> n = metadata_path u"
        using assms(1) \<open>ends_with (lit ''.json'') n\<close> unfolding names_ok_def by blast
      then show ?thesis using hs by blast
    qed
  qed
qed

lemma put_run_inv:
  assumes "run_inv st" "scratch_name path"
    and "put draw n path item env header hash now st = Some (Inr (t, st'))"
  shows "run_inv st'"
proof -
  from assms(3) obtain token m where tok: "new_token draw (st_records st) n = Some (token, m)"
    and put: "put_with_token token path item env header hash now st = Inr (t, st')"
    by (auto simp: put_def split: if_splits option.splits)
  from new_token_fresh [OF tok] have fresh: "dget (st_records st) token = None"
    "starts_with (lit ''st_'') token" "token \<noteq> []" by (auto simp: starts_with_iff)
  have "store_inv st'"
    using assms(1,2) fresh put scratch_untracked
    by (intro put_with_token_inv [OF _ _ _ _ put]) (auto simp: run_inv_def)
  moreover have "names_ok st'"
    using assms(1,2) fresh put by (intro put_with_token_names [OF _ _ _ put]) (auto simp: run_inv_def)
  ultimately show ?thesis by (simp add: run_inv_def)
qed

lemma create_child_run_inv:
  assumes "run_inv st" "scratch_name path"
    and "create_child draw n parent path now st = Some (r, st')"
  shows "run_inv st'"
proof (cases "resolve parent now st")
  case (Inl e)
  with assms show ?thesis by (simp add: create_child_def)
next
  case (Inr p)
  obtain rec st1 where p: "p = (rec, st1)" by force
  have inv1: "run_inv st1"
    using assms(1) Inr p resolve_inv resolve_names by (auto simp: run_inv_def)
  show ?thesis
  proof (cases "put draw n path (rec_item rec) (rec_env rec) (rec_header rec) (rec_hash rec) now st1")
    case None
    with assms(3) Inr p show ?thesis by (simp add: create_child_def)
  next
    case (Some res)
    with assms(3) Inr p inv1 show ?thesis
      by (cases res) (auto simp: create_child_def split: prod.splits
          dest: put_run_inv [OF inv1 assms(2)])
  qed
qed

lemma files_shrink_names:
  assumes "run_inv st" "store_inv st'"
    and "\<And>t r. dget (st_records st') t = Some r \<Longrightarrow> dget (st_records st) t = Some r"
    and "\<And>n. dget (st_files st') n \<noteq> None \<Longrightarrow> dget (st_files st) n \<noteq> None"
    and "\<And>t. has_state st t \<Longrightarrow> \<not> has_state st' t \<Longrightarrow> dget (st_files st') (metadata_path t) = None"
  shows "run_inv st'"
proof -
  have "names_ok st'"
  proof (rule names_okI)
    show "names_ok st" using assms(1) by (simp add: run_inv_def)
  next
    fix t assume "has_state st' t"
    with assms(3) show "has_state st t" by (auto simp: has_state_def)
  next
    fix n assume n: "dget (st_files st') n \<noteq> None" "ends_with (lit ''.json'') n"
    with assms(4) have "dget (st_files st) n \<noteq> None" by blast
    moreover from this n(2) assms(1) obtain u where u: "has_state st u" "n = metadata_path u"
      by (auto simp: run_inv_def names_ok_def)
    have "has_state st' u"
      using assms(5) [OF u(1)] n(1) u(2) by (cases "has_state st' u") simp_all
    ultimately show "dget (st_files st) n \<noteq> None \<and> (\<forall>t. n = metadata_path t \<longrightarrow> has_state st' t)"
      using u by simp
  qed
  with assms(2) show ?thesis by (simp add: run_inv_def)
qed

lemma delete_record_files:
  "store_inv st \<Longrightarrow> dget (st_records st) t = Some r \<Longrightarrow>
   dget (st_files (delete_record t r st)) n =
     (if n = state_path t \<or> n = metadata_path t then None else dget (st_files st) n)"
  by (simp add: delete_record_def store_inv_record)

lemma delete_record_run_inv:
  assumes "run_inv st" "dget (st_records st) t = Some r" "dget (st_pins st) t = None"
  shows "run_inv (delete_record t r st)"
proof -
  have si: "store_inv st" using assms(1) by (simp add: run_inv_def)
  show ?thesis
    by (rule files_shrink_names [OF assms(1) delete_record_inv [OF si assms(2,3)]])
      (auto simp: delete_record_files [OF si assms(2)] has_state_def split: if_splits)
qed

lemma delete_tokens_run_inv: "run_inv st \<Longrightarrow> run_inv (fst (delete_tokens ts st))"
  by (induction ts st rule: delete_tokens.induct)
    (auto split: option.splits prod.splits dest: delete_record_run_inv)

lemma gc_over_budget_run_inv: "run_inv st \<Longrightarrow> run_inv (fst (gc_over_budget st))"
  by (simp add: gc_over_budget_def delete_tokens_run_inv)

lemma sweep_names_run_inv: "run_inv st \<Longrightarrow> run_inv (fst (sweep_names c ns st))"
proof -
  assume inv: "run_inv st"
  show ?thesis
    using inv
    by (intro files_shrink_names [OF inv])
      (auto simp: run_inv_def sweep_names_inv sweep_names_files has_state_def split: option.splits if_splits)
qed

lemma gc_expired_run_inv: "run_inv st \<Longrightarrow> run_inv (fst (gc_expired now st))"
  unfolding gc_expired_fst sweep_orphans_def
  by (intro sweep_names_run_inv gc_over_budget_run_inv delete_tokens_run_inv)

lemma discard_paths_run_inv:
  assumes "run_inv st" "list_all scratch_name [p. Some p \<leftarrow> ps]"
  shows "run_inv (fst (discard_paths ps st))"
proof -
  have "untracked p st" if "Some p \<in> set ps" for p
  proof -
    from that have "p \<in> set [p. Some p \<leftarrow> ps]" by force
    with assms show ?thesis by (auto simp: list_all_iff run_inv_def intro: scratch_untracked)
  qed
  with assms(1) have "store_inv (fst (discard_paths ps st))"
    by (intro discard_paths_inv) (auto simp: run_inv_def)
  then show ?thesis
    by (intro files_shrink_names [OF assms(1)])
      (auto simp: discard_paths_files has_state_def split: if_splits)
qed

lemma same_files_run_inv:
  assumes "run_inv st" "store_inv st'" "st_files st' = st_files st" "\<And>t. has_state st' t = has_state st t"
  shows "run_inv st'"
  using assms by (simp add: run_inv_def names_ok_def)

lemma write_run_inv:
  assumes "run_inv st" "scratch_name path"
  shows "run_inv (st\<lparr>st_files := dset path f (st_files st)\<rparr>)"
proof -
  have un: "untracked path st" using assms by (auto simp: run_inv_def intro: scratch_untracked)
  have "files_ok (st\<lparr>st_files := dset path f (st_files st)\<rparr>)"
    using assms(1) un
    by (intro files_ok_keep [OF store_inv_files [of st]])
      (auto simp: run_inv_def untracked_def files_ok_dwf store_inv_files)
  then have "store_inv (st\<lparr>st_files := dset path f (st_files st)\<rparr>)"
    using assms(1) by (simp add: run_inv_def store_inv_def index_ok_def records_ok_def items_ok_def
        index_agrees_def tokens_of_item_def pins_ok_def)
  then show ?thesis
    using assms scratch_not_sidecar
    by (auto simp: run_inv_def names_ok_def has_state_def split: if_splits)
qed

lemma store_step_run_inv:
  assumes "run_inv st" "list_all scratch_name (op_paths op)"
  shows "run_inv (store_step (now, op) st)"
proof (cases op)
  case (OpWrite path f)
  with assms show ?thesis by (simp add: write_run_inv)
next
  case (OpPut draw n path item env header hash)
  with assms show ?thesis by (auto split: option.splits sum.splits prod.splits dest: put_run_inv)
next
  case (OpChild draw n parent path)
  with assms show ?thesis by (auto split: option.splits dest: create_child_run_inv)
next
  case (OpResolve t)
  with assms show ?thesis
    by (auto split: sum.splits intro: resolve_run_inv)
next
  case (OpPin t)
  show ?thesis
  proof (cases "resolve_and_pin t now st")
    case (Inl e)
    with OpPin assms show ?thesis by simp
  next
    case (Inr p)
    obtain r st' where p: "p = (r, st')" by force
    then obtain st1 where st1: "resolve t now st = Inr (r, st1)"
      "st' = st1\<lparr>st_pins := dset t (dget_or (st_pins st1) t 0 + 1) (st_pins st1)\<rparr>"
      using Inr by (auto simp: resolve_and_pin_def)
    have "run_inv st1" using assms(1) st1(1) resolve_inv resolve_names by (auto simp: run_inv_def)
    moreover have "store_inv st'" using assms(1) Inr p resolve_and_pin_inv by (auto simp: run_inv_def)
    ultimately have "run_inv st'" by (rule same_files_run_inv) (simp_all add: st1(2) has_state_def)
    with OpPin Inr p show ?thesis by simp
  qed
next
  case (OpUnpin ts)
  have "st_files (unpin_many ts st) = st_files st"
    unfolding unpin_many_def by (induction ts arbitrary: st) auto
  with OpUnpin assms show ?thesis
    by (auto intro: same_files_run_inv unpin_many_inv simp: run_inv_def has_state_def names_ok_def)
next
  case (OpDelete i)
  with assms show ?thesis by (simp add: delete_by_item_id_def delete_tokens_run_inv)
next
  case (OpCleanup i)
  with assms show ?thesis
    by (auto simp: delete_by_item_id_all_or_none_def Let_def case_prod_beta delete_tokens_run_inv)
next
  case OpGc
  with assms show ?thesis by (simp add: gc_expired_run_inv)
next
  case (OpDiscard ps)
  with assms show ?thesis by (simp add: discard_paths_run_inv)
qed

lemma store_run_inv: "run_inv st \<Longrightarrow> ops_ok ops \<Longrightarrow> run_inv (store_run ops st)"
  unfolding store_run_def ops_ok_def
  by (rule foldl_inv) (auto simp: list_all_iff intro: store_step_run_inv)

end
