(* ===== verification/StoreProps.thy ===== *)
theory StoreProps
  imports StoreRuns "HOL-Library.Multiset"
begin

text \<open>
  What the rest of the server may rely on: the pin interface and its interpretation on the store,
  recovery after a restart, and the byte budget.
\<close>

section \<open>The pin interface\<close>

text \<open>
  A client pins a token, works, and releases it.  \<open>view\<close> is what the client reads of a token,
  \<open>held\<close> how many pins it has, \<open>released\<close> how many pins of the token an operation gives back.
\<close>

locale pin_store =
  fixes step :: "'op \<Rightarrow> 's \<Rightarrow> 's"
    and good :: "'s \<Rightarrow> bool"
    and allowed :: "'op \<Rightarrow> bool"
    and view :: "'s \<Rightarrow> 't \<Rightarrow> 'v option"
    and held :: "'s \<Rightarrow> 't \<Rightarrow> int"
    and released :: "'op \<Rightarrow> 't \<Rightarrow> int"
  assumes step_good: "good s \<Longrightarrow> allowed op \<Longrightarrow> good (step op s)"
    and step_view: "good s \<Longrightarrow> allowed op \<Longrightarrow> view s t = Some v \<Longrightarrow> 0 < held s t \<Longrightarrow>
      view (step op s) t = Some v"
    and step_held: "good s \<Longrightarrow> allowed op \<Longrightarrow> held s t - released op t \<le> held (step op s) t"
    and released_nonneg: "0 \<le> released op t"
begin

definition runs :: "'op list \<Rightarrow> 's \<Rightarrow> 's" where
  "runs ops s = foldl (\<lambda>s op. step op s) s ops"

definition releases :: "'op list \<Rightarrow> 't \<Rightarrow> int" where
  "releases ops t = sum_list (map (\<lambda>op. released op t) ops)"

lemma releases_nonneg: "0 \<le> releases ops t"
  unfolding releases_def by (rule sum_list_nonneg) (auto simp: released_nonneg)

lemma pinned_stays:
  assumes "good s" "list_all allowed ops" "view s t = Some v" "releases ops t < held s t"
  shows "view (runs ops s) t = Some v \<and> held s t - releases ops t \<le> held (runs ops s) t"
  using assms
proof (induction ops arbitrary: s)
  case Nil
  then show ?case by (simp add: runs_def releases_def)
next
  case (Cons op ops)
  have pos: "0 < held s t" using Cons.prems(4) releases_nonneg [of "op # ops" t] by simp
  have h: "held s t - released op t \<le> held (step op s) t"
    using Cons.prems by (intro step_held) auto
  moreover have "releases (op # ops) t = released op t + releases ops t"
    by (simp add: releases_def)
  ultimately have "releases ops t < held (step op s) t" using Cons.prems(4) by simp
  moreover have "good (step op s)" "view (step op s) t = Some v"
    using Cons.prems pos by (auto intro: step_good step_view)
  ultimately have "view (runs ops (step op s)) t = Some v \<and>
      held (step op s) t - releases ops t \<le> held (runs ops (step op s)) t"
    using Cons.IH Cons.prems(2) by simp
  with h \<open>releases (op # ops) t = _\<close> show ?case by (simp add: runs_def)
qed

end

text \<open>What a handler reads of a state: everything but the access time.\<close>

definition state_view :: "store \<Rightarrow> pystr \<Rightarrow> (pystr \<times> pystr \<times> pystr \<times> pystr \<times> int \<times> int) option" where
  "state_view st t = map_option (\<lambda>r. (rec_item r, rec_env r, rec_header r, rec_hash r,
     rec_created r, rec_size r)) (dget (st_records st) t)"

fun op_released :: "int \<times> store_op \<Rightarrow> pystr \<Rightarrow> int" where
  "op_released (now, OpUnpin ts) t = int (count_list ts t)"
| "op_released (now, op) t = 0"

definition op_allowed :: "int \<times> store_op \<Rightarrow> bool" where
  "op_allowed op = list_all scratch_name (op_paths (snd op))"

lemma pin_count_unpin:
  "pin_count (unpin u st) t = (if u = t then max (pin_count st t - 1) 0 else pin_count st t)"
  if "store_inv st"
  using store_inv_pinned [OF that, of u]
  by (auto simp: pin_count_def unpin_def dget_or_def split: option.splits)

lemma pin_count_nonneg: "store_inv st \<Longrightarrow> 0 \<le> pin_count st t"
  by (auto simp: pin_count_def dget_or_def split: option.splits dest: store_inv_pinned)

lemma pin_count_unpin_many:
  "store_inv st \<Longrightarrow> pin_count (unpin_many ts st) t = max (pin_count st t - int (count_list ts t)) 0"
proof (induction ts arbitrary: st)
  case Nil
  then show ?case using pin_count_nonneg [of st t] by (simp add: unpin_many_def)
next
  case (Cons u ts)
  have "pin_count (unpin_many (u # ts) st) t = pin_count (unpin_many ts (unpin u st)) t"
    by (simp add: unpin_many_def)
  also have "\<dots> = max (pin_count (unpin u st) t - int (count_list ts t)) 0"
    using Cons.prems by (intro Cons.IH unpin_inv)
  finally show ?case using Cons.prems by (auto simp: pin_count_unpin)
qed

lemma pin_count_same: "st_pins st' = st_pins st \<Longrightarrow> pin_count st' t = pin_count st t"
  by (simp add: pin_count_def)

lemma state_view_same:
  "dget (st_records st') t = dget (st_records st) t \<Longrightarrow> state_view st' t = state_view st t"
  by (simp add: state_view_def)

lemma pinned_not_deleted:
  "0 < pin_count st t \<Longrightarrow> dget (st_records (fst (delete_tokens ts st))) t = dget (st_records st) t"
  by (auto simp: delete_tokens_records pin_count_def dget_or_def split: option.splits)

lemma gc_over_budget_frame [simp]: "st_pins (fst (gc_over_budget st)) = st_pins st"
  by (simp add: gc_over_budget_def)

lemma gc_over_budget_pinned:
  "0 < pin_count st t \<Longrightarrow> dget (st_records (fst (gc_over_budget st))) t = dget (st_records st) t"
  by (simp add: gc_over_budget_def pinned_not_deleted)

lemma gc_expired_pins [simp]: "st_pins (fst (gc_expired now st)) = st_pins st"
  by (simp add: gc_expired_fst sweep_orphans_def)

lemma gc_expired_pinned:
  "0 < pin_count st t \<Longrightarrow> dget (st_records (fst (gc_expired now st))) t = dget (st_records st) t"
  by (simp add: gc_expired_fst sweep_orphans_def gc_over_budget_pinned pinned_not_deleted
      pin_count_def)

lemma put_frame:
  assumes "put draw n path item env header hash now st = Some (Inr (u, st'))"
  shows "st_pins st' = st_pins st" "has_state st t \<Longrightarrow> state_view st' t = state_view st t"
    "dget (st_records st) u = None" "has_state st' u"
proof -
  from assms obtain m where tok: "new_token draw (st_records st) n = Some (u, m)"
    and put: "put_with_token u path item env header hash now st = Inr (u, st')"
    by (auto simp: put_def put_with_token_def Let_def split: if_splits option.splits)
  show fresh: "dget (st_records st) u = None" using new_token_fresh [OF tok] by simp
  show "st_pins st' = st_pins st" "has_state st' u"
    using put by (auto simp: put_with_token_def Let_def write_metadata_def index_record_def
        has_state_def split: option.splits)
  show "state_view st' t = state_view st t" if "has_state st t"
    using put fresh that by (auto simp: put_with_token_def Let_def write_metadata_def
        index_record_def has_state_def state_view_def split: option.splits)
qed

lemma resolve_view:
  "resolve u now st = Inr (r, st') \<Longrightarrow> state_view st' t = state_view st t"
  by (auto simp: resolve_def Let_def write_metadata_def state_view_def split: option.splits)

lemma create_child_frame:
  assumes "create_child draw n parent path now st = Some (r, st')"
  shows "st_pins st' = st_pins st \<and> (has_state st t \<longrightarrow> state_view st' t = state_view st t)"
proof (cases "resolve parent now st")
  case (Inl e)
  with assms show ?thesis by (simp add: create_child_def)
next
  case (Inr p)
  obtain rec st1 where p: "p = (rec, st1)" by force
  note r = resolve_records [of parent now st rec st1] resolve_view [of parent now st rec st1]
  show ?thesis
  proof (cases "put draw n path (rec_item rec) (rec_env rec) (rec_header rec) (rec_hash rec) now st1")
    case None
    with assms Inr p show ?thesis by (simp add: create_child_def)
  next
    case (Some res)
    with assms Inr p r show ?thesis
      by (cases res) (auto simp: create_child_def split: prod.splits dest: put_frame)
  qed
qed

lemma view_has_state: "state_view st t = Some v \<Longrightarrow> has_state st t"
  by (auto simp: state_view_def has_state_def)

lemma resolve_and_pin_frame:
  assumes "resolve_and_pin u now st = Inr (r, st')"
  shows "pin_count st' t = (if u = t then pin_count st t + 1 else pin_count st t)"
    "state_view st' t = state_view st t"
proof -
  from assms obtain st1 where st1: "resolve u now st = Inr (r, st1)"
    "st' = st1\<lparr>st_pins := dset u (dget_or (st_pins st1) u 0 + 1) (st_pins st1)\<rparr>"
    by (auto simp: resolve_and_pin_def)
  have "st_pins st1 = st_pins st" using st1(1) by (rule resolve_records(2))
  with st1(2) show "pin_count st' t = (if u = t then pin_count st t + 1 else pin_count st t)"
    by (simp add: pin_count_def dget_or_def)
  have "state_view st1 t = state_view st t" using st1(1) by (rule resolve_view)
  with st1(2) show "state_view st' t = state_view st t" by (simp add: state_view_def)
qed

lemma store_step_view:
  assumes "0 < pin_count st t" "state_view st t = Some v"
  shows "state_view (store_step (now, op) st) t = Some v"
proof (cases op)
  case (OpPut draw n path item env header hash)
  with assms show ?thesis
    by (auto split: option.splits sum.splits dest: put_frame(2) [OF _ view_has_state])
next
  case (OpChild draw n parent path)
  with assms show ?thesis
    by (auto split: option.splits dest: create_child_frame [where t = t] simp: view_has_state)
next
  case (OpResolve u)
  with assms show ?thesis by (auto split: sum.splits dest: resolve_view [where t = t])
next
  case (OpPin u)
  with assms show ?thesis by (auto split: sum.splits dest: resolve_and_pin_frame(2) [where t = t])
next
  case (OpCleanup i)
  with assms show ?thesis
    by (auto simp: delete_by_item_id_all_or_none_def Let_def case_prod_beta state_view_def
        pinned_not_deleted)
qed (use assms in \<open>auto simp: state_view_def delete_by_item_id_def pinned_not_deleted
      gc_expired_pinned\<close>)

lemma store_step_held:
  assumes "store_inv st"
  shows "pin_count st t - op_released (now, op) t \<le> pin_count (store_step (now, op) st) t"
proof (cases op)
  case (OpPut draw n path item env header hash)
  then show ?thesis
    by (auto split: option.splits sum.splits dest: put_frame(1) simp: pin_count_def)
next
  case (OpChild draw n parent path)
  then show ?thesis
    by (auto split: option.splits dest: create_child_frame simp: pin_count_def)
next
  case (OpResolve u)
  then show ?thesis by (auto split: sum.splits dest: resolve_records(2) simp: pin_count_def)
next
  case (OpPin u)
  then show ?thesis by (auto split: sum.splits dest: resolve_and_pin_frame(1) [where t = t])
next
  case (OpUnpin ts)
  with assms show ?thesis by (simp add: pin_count_unpin_many)
next
  case (OpCleanup i)
  then show ?thesis
    by (simp add: delete_by_item_id_all_or_none_def Let_def case_prod_beta pin_count_def)
qed (simp_all add: pin_count_def delete_by_item_id_def)

interpretation store_pins: pin_store store_step run_inv op_allowed state_view pin_count op_released
proof
  fix st :: store and op :: "int \<times> store_op" and t :: pystr
  obtain now o' where op: "op = (now, o')" by force
  show "run_inv st \<Longrightarrow> op_allowed op \<Longrightarrow> run_inv (store_step op st)"
    by (simp add: op op_allowed_def store_step_run_inv)
  show "run_inv st \<Longrightarrow> op_allowed op \<Longrightarrow>
      pin_count st t - op_released op t \<le> pin_count (store_step op st) t"
    by (simp add: op run_inv_def store_step_held)
  show "0 \<le> op_released op t"
    by (cases o') (simp_all add: op)
  show "run_inv st \<Longrightarrow> op_allowed op \<Longrightarrow> state_view st t = Some v \<Longrightarrow> 0 < pin_count st t \<Longrightarrow>
      state_view (store_step op st) t = Some v" for v
    by (simp add: op store_step_view)
qed

section \<open>Restart\<close>

lemma record_of_meta_of:
  "rec_path r = state_path (rec_token r) \<Longrightarrow> record_of_meta (meta_of r) = r"
  by (simp add: record_of_meta_def meta_of_def)

lemma read_own_sidecar:
  assumes "store_inv st" "dget (st_records st) t = Some r"
  shows "read_metadata (metadata_path t) (st_files st) = Inr (Some r, st_files st)"
proof -
  have r: "rec_token r = t" "rec_path r = state_path t"
    using assms by (simp_all add: store_inv_record)
  have "record_files (st_files st) t r"
    using assms by (auto intro: files_okD store_inv_files)
  with r show ?thesis
    by (auto simp: read_metadata_def record_files_def meta_of_def [of r] record_of_meta_of
        record_of_meta_of [unfolded meta_of_def])
qed

lemma rehydrate_own_files:
  assumes "store_inv st" "\<forall>n\<in>set ns. \<exists>t. has_state st t \<and> n = metadata_path t" "distinct ns"
    and "st_files acc = st_files st" "index_ok acc"
    and "\<forall>t. metadata_path t \<in> set ns \<longrightarrow> dget (st_records acc) t = None"
  shows "\<exists>acc'. rehydrate_files ns acc = Inr acc' \<and> st_files acc' = st_files st \<and> index_ok acc' \<and>
    st_pins acc' = st_pins acc \<and> st_ttl acc' = st_ttl acc \<and> st_max_bytes acc' = st_max_bytes acc \<and>
    (\<forall>t. dget (st_records acc') t =
       (if metadata_path t \<in> set ns then dget (st_records st) t else dget (st_records acc) t))"
  using assms(2-)
proof (induction ns arbitrary: acc)
  case Nil
  then show ?case by simp
next
  case (Cons n ns)
  obtain t r where t: "n = metadata_path t" "dget (st_records st) t = Some r"
    using Cons.prems(1) by (auto simp: has_state_def)
  have r: "rec_token r = t" "rec_path r = state_path t" "t \<noteq> []"
    using assms(1) t(2) by (simp_all add: store_inv_record)
  have rec: "st_records (index_record r acc) = dset t r (st_records acc)"
    using r(1) by (simp add: index_record_def)
  have "index_ok (index_record r acc)"
    using Cons.prems t r by (intro index_record_index_ok) auto
  moreover have "\<forall>u. metadata_path u \<in> set ns \<longrightarrow> dget (st_records (index_record r acc)) u = None"
    using Cons.prems(2,5) t(1) unfolding rec by auto
  ultimately obtain acc' where acc': "rehydrate_files ns (index_record r acc) = Inr acc'"
    "st_files acc' = st_files st" "index_ok acc'" "st_pins acc' = st_pins (index_record r acc)"
    "st_ttl acc' = st_ttl (index_record r acc)" "st_max_bytes acc' = st_max_bytes (index_record r acc)"
    "\<forall>u. dget (st_records acc') u = (if metadata_path u \<in> set ns then dget (st_records st) u
       else dget (st_records (index_record r acc)) u)"
    using Cons.IH [of "index_record r acc"] Cons.prems by (auto simp: index_record_def)
  have "acc\<lparr>st_files := st_files st\<rparr> = acc" using Cons.prems(3) by (cases acc) simp
  moreover have "rehydrate_files (n # ns) acc =
      rehydrate_files ns (index_record r (acc\<lparr>st_files := st_files st\<rparr>))"
    using Cons.prems(3) read_own_sidecar [OF assms(1) t(2)] t(1) by simp
  ultimately have "rehydrate_files (n # ns) acc = Inr acc'" using acc'(1) by (simp only:)
  with acc' t show ?case
    by (auto simp: rec) (simp_all add: index_record_def)
qed

lemma new_store_recovers:
  assumes "run_inv st" "0 < ttl" "- 1 \<le> max_bytes"
  shows "\<exists>st'. new_store ttl max_bytes (st_files st) = Inr st' \<and> run_inv st' \<and>
    dget (st_records st') = dget (st_records st) \<and> st_files st' = st_files st \<and> st_pins st' = []"
proof -
  let ?ns = "filter (ends_with (lit ''.json'')) (map fst (st_files st))"
  define acc :: store where "acc = \<lparr>st_ttl = ttl, st_max_bytes = max_bytes, st_records = [],
    st_by_item = [], st_pins = [], st_files = st_files st\<rparr>"
  have inv: "store_inv st" and names: "names_ok st" using assms(1) by (auto simp: run_inv_def)
  have owned: "\<exists>t. has_state st t \<and> n = metadata_path t" if "n \<in> set ?ns" for n
  proof -
    from that have "dget (st_files st) n \<noteq> None" "ends_with (lit ''.json'') n"
      using dget_keys [of n "st_files st"] by auto
    then show ?thesis using names unfolding names_ok_def by blast
  qed
  have "distinct ?ns"
    using files_ok_dwf [OF store_inv_files [OF inv]] by (simp add: dwf_def)
  moreover have "index_ok acc"
    by (simp add: acc_def index_ok_def records_ok_def items_ok_def index_agrees_def
        tokens_of_item_def dget_or_def)
  ultimately obtain st' where st': "rehydrate_files ?ns acc = Inr st'" "st_files st' = st_files st"
    "index_ok st'" "st_pins st' = []"
    "\<forall>t. dget (st_records st') t = (if metadata_path t \<in> set ?ns then dget (st_records st) t else None)"
    using rehydrate_own_files [OF inv, of ?ns acc] owned by (auto simp: acc_def)
  have rec: "dget (st_records st') t = dget (st_records st) t" for t
  proof (cases "dget (st_records st) t")
    case None
    then show ?thesis using st'(5) by simp
  next
    case (Some r)
    then have "record_files (st_files st) t r" by (rule files_okD [OF store_inv_files [OF inv]])
    then have "dget (st_files st) (metadata_path t) \<noteq> None" by (auto simp: record_files_def)
    then have "metadata_path t \<in> set ?ns" using dget_keys [of "metadata_path t" "st_files st"] by auto
    then show ?thesis using st'(5) by simp
  qed
  have "new_store ttl max_bytes (st_files st) = Inr st'"
    using assms(2,3) st'(1) by (simp add: new_store_def rehydrate_def acc_def)
  moreover have "run_inv st'"
    using assms(1) st' rec
    by (simp add: run_inv_def store_inv_def files_ok_def names_ok_def has_state_def pins_ok_def)
  ultimately show ?thesis using st'(2,4) rec by (auto intro!: exI [of _ st'])
qed

lemma empty_run_inv:
  "new_store ttl max_bytes [] = Inr st \<Longrightarrow> run_inv st"
  by (auto simp: new_store_def rehydrate_def run_inv_def store_inv_def index_ok_def records_ok_def
      items_ok_def index_agrees_def tokens_of_item_def dget_or_def pins_ok_def files_ok_def
      names_ok_def has_state_def split: if_splits)

lemma index_tokens:
  "store_inv st \<Longrightarrow> set (tokens_of_item i st) =
     {t. \<exists>r. dget (st_records st) t = Some r \<and> rec_item r = i}"
  by (auto simp: store_inv_def index_ok_def index_agrees_def)

section \<open>The byte budget\<close>

definition pinned :: "store \<Rightarrow> pystr \<Rightarrow> bool" where
  "pinned st t \<longleftrightarrow> dget (st_pins st) t \<noteq> None"

definition pinned_bytes :: "store \<Rightarrow> int" where
  "pinned_bytes st = dsum rec_size (filter (\<lambda>p. pinned st (fst p)) (st_records st))"

definition sizes_ok :: "store \<Rightarrow> bool" where
  "sizes_ok st = list_all (\<lambda>p. 0 \<le> rec_size (snd p)) (st_records st)"

lemma sizes_okD: "sizes_ok st \<Longrightarrow> dget (st_records st) t = Some r \<Longrightarrow> 0 \<le> rec_size r"
  by (force simp: sizes_ok_def list_all_iff dest: map_of_SomeD)

definition lru_key :: "state_record \<Rightarrow> int \<times> int" where
  "lru_key r = (rec_accessed r, rec_created r)"

definition lru_order :: "store \<Rightarrow> state_record list" where
  "lru_order st = sort_key lru_key (map snd (st_records st))"

lemma over_budget_prefix:
  "\<exists>k. over_budget_tokens m rem rs = map rec_token (take k rs) \<and>
     (k = length rs \<or> rem - sum_list (map rec_size (take k rs)) \<le> m)"
proof (induction m rem rs rule: over_budget_tokens.induct)
  case (1 m rem)
  then show ?case by simp
next
  case (2 m rem r rs)
  show ?case
  proof (cases "rem - rec_size r \<le> m")
    case True
    then show ?thesis by (intro exI [of _ 1]) simp
  next
    case False
    then obtain k where "over_budget_tokens m (rem - rec_size r) rs = map rec_token (take k rs)"
      "k = length rs \<or> rem - rec_size r - sum_list (map rec_size (take k rs)) \<le> m"
      using 2 by blast
    with False show ?thesis by (intro exI [of _ "Suc k"]) auto
  qed
qed

lemma sum_keys: "dwf d \<Longrightarrow> (\<Sum>k\<in>dom (map_of d). f (the (map_of d k))) = dsum f d"
proof (induction d)
  case (Cons p d)
  obtain k v where p: "p = (k, v)" by force
  with Cons.prems have k: "k \<notin> dom (map_of d)" by (simp add: dwf_def dom_map_of_conv_image_fst)
  have "(\<Sum>i\<in>dom (map_of (p # d)). f (the (map_of (p # d) i))) =
      f v + (\<Sum>i\<in>dom (map_of d). f (the (map_of (p # d) i)))"
  proof -
    have "dom (map_of (p # d)) = insert k (dom (map_of d))" by (auto simp: p)
    then show ?thesis by (simp only: sum.insert [OF finite_dom_map_of k]) (simp add: p)
  qed
  also have "(\<Sum>i\<in>dom (map_of d). f (the (map_of (p # d) i))) = (\<Sum>i\<in>dom (map_of d). f (the (map_of d i)))"
    using k p by (intro sum.cong) auto
  also have "\<dots> = dsum f d" using Cons by (simp add: dwf_def)
  finally show ?case by (simp add: p)
qed simp

lemma dget_filter_key: "dget (filter (\<lambda>p. P (fst p)) d) k = (if P k then dget d k else None)"
  by (induction d) auto

lemma lru_mset: "mset (map f (lru_order st)) = mset (map (\<lambda>p. f (snd p)) (st_records st))"
  by (simp add: lru_order_def image_mset.compositionality comp_def)

lemma lru_sorted: "sorted (map lru_key (lru_order st))"
  by (simp add: lru_order_def)

lemma lru_distinct:
  assumes "store_inv st"
  shows "distinct (map rec_token (lru_order st))"
proof -
  have wf: "dwf (st_records st)" using assms by (rule records_ok_dwf)
  have "map (\<lambda>p. rec_token (snd p)) (st_records st) = map fst (st_records st)"
    using assms by (intro map_cong [OF refl])
      (metis dget_in_set [OF wf] prod.collapse store_inv_record(1))
  then have "distinct (map (\<lambda>p. rec_token (snd p)) (st_records st))"
    using wf by (simp only: dwf_def)
  then show ?thesis by (rule mset_eq_imp_distinct_iff [THEN iffD2, OF lru_mset])
qed

lemma lru_member:
  assumes "store_inv st"
  shows "r \<in> set (lru_order st) \<longleftrightarrow> dget (st_records st) (rec_token r) = Some r"
proof -
  have "set (lru_order st) = set (map snd (st_records st))"
    by (simp add: lru_order_def)
  then show ?thesis
    using dget_values [OF records_ok_dwf [OF assms], of r] store_inv_record(1) [OF assms]
    by blast
qed

lemma lru_total: "sum_list (map rec_size (lru_order st)) = total_bytes st"
proof -
  have "sum_list (map rec_size (lru_order st)) = sum_mset (mset (map rec_size (lru_order st)))"
    by (rule sum_mset_sum_list [symmetric])
  also have "\<dots> = total_bytes st"
    unfolding lru_mset sum_mset_sum_list by (simp add: total_bytes_def dsum_def)
  finally show ?thesis .
qed

text \<open>The records a collection over budget lists: a prefix of the order, long enough to fit.\<close>

lemma gc_over_budget_split:
  assumes "store_inv st" "0 \<le> st_max_bytes st" "st_max_bytes st < total_bytes st"
  obtains old kept where "lru_order st = old @ kept"
    and "sum_list (map rec_size kept) \<le> st_max_bytes st"
    and "fst (gc_over_budget st) = fst (delete_tokens (map rec_token old) st)"
proof -
  obtain k where k: "over_budget_tokens (st_max_bytes st) (total_bytes st) (lru_order st) =
      map rec_token (take k (lru_order st))"
    "k = length (lru_order st) \<or>
     total_bytes st - sum_list (map rec_size (take k (lru_order st))) \<le> st_max_bytes st"
    using over_budget_prefix by blast
  have "sum_list (map rec_size (take k (lru_order st))) + sum_list (map rec_size (drop k (lru_order st)))
      = total_bytes st"
    using lru_total [of st] by (metis append_take_drop_id map_append sum_list.append)
  with k(2) assms(2) have "sum_list (map rec_size (drop k (lru_order st))) \<le> st_max_bytes st" by auto
  moreover have "fst (gc_over_budget st) = fst (delete_tokens (map rec_token (take k (lru_order st))) st)"
    using assms(2,3) k(1) by (simp add: gc_over_budget_def lru_order_def lru_key_def [abs_def])
  ultimately show ?thesis
    using that [of "take k (lru_order st)" "drop k (lru_order st)"] by simp
qed

lemma total_after_delete:
  assumes "store_inv st" "sizes_ok st" "lru_order st = old @ kept"
  shows "total_bytes (fst (delete_tokens (map rec_token old) st)) \<le>
    pinned_bytes st + sum_list (map rec_size kept)"
proof -
  let ?st = "fst (delete_tokens (map rec_token old) st)"
  let ?size = "\<lambda>t. rec_size (the (dget (st_records st) t))"
  have wf: "dwf (st_records st)" using assms(1) by (rule records_ok_dwf)
  have wf': "dwf (st_records ?st)" using assms(1) by (intro records_ok_dwf delete_tokens_inv)
  let ?pinned = "dom (map_of (filter (\<lambda>p. pinned st (fst p)) (st_records st)))"
  have filt: "dget (filter (\<lambda>p. pinned st (fst p)) (st_records st)) t =
      (if pinned st t then dget (st_records st) t else None)" for t
    by (rule dget_filter_key)
  have keep: "sum_list (map rec_size kept) = (\<Sum>t\<in>rec_token ` set kept. ?size t)"
  proof -
    have dist: "distinct (map rec_token kept)" using lru_distinct [OF assms(1)] assms(3) by simp
    have "map rec_size kept = map ?size (map rec_token kept)"
    proof (simp, intro ballI)
      fix r assume "r \<in> set kept"
      then have "dget (st_records st) (rec_token r) = Some r"
        using lru_member [OF assms(1), of r] assms(3) by simp
      then show "rec_size r = ?size (rec_token r)" by simp
    qed
    then show ?thesis
      using sum_list_distinct_conv_sum_set [OF dist, of ?size] by (simp only: set_map)
  qed
  have "total_bytes ?st = (\<Sum>t\<in>dom (dget (st_records ?st)). rec_size (the (dget (st_records ?st) t)))"
    by (simp add: total_bytes_def sum_keys [OF wf'])
  also have "\<dots> = (\<Sum>t\<in>dom (dget (st_records ?st)). ?size t)"
    by (intro sum.cong refl) (auto simp: delete_tokens_records split: if_splits)
  also have "\<dots> \<le> (\<Sum>t\<in>?pinned \<union> rec_token ` set kept. ?size t)"
  proof (rule sum_mono2)
    show "dom (dget (st_records ?st)) \<subseteq> ?pinned \<union> rec_token ` set kept"
    proof
      fix t assume "t \<in> dom (dget (st_records ?st))"
      then obtain r where r: "dget (st_records st) t = Some r"
        "t \<notin> rec_token ` set old \<or> pinned st t"
        by (auto simp: delete_tokens_records pinned_def split: if_splits)
      have rt: "rec_token r = t" using assms(1) r(1) by (rule store_inv_record)
      then have "r \<in> set old \<union> set kept" using lru_member [OF assms(1), of r] r(1) assms(3) by auto
      with r rt show "t \<in> ?pinned \<union> rec_token ` set kept" by (auto simp: filt)
    qed
  next
    fix t assume "t \<in> ?pinned \<union> rec_token ` set kept - dom (dget (st_records ?st))"
    then have "t \<in> ?pinned \<or> t \<in> rec_token ` set kept" by blast
    then obtain r where "dget (st_records st) t = Some r"
      using lru_member [OF assms(1)] assms(3) by (auto simp: filt split: if_splits)
    then show "0 \<le> ?size t" using sizes_okD [OF assms(2)] by simp
  qed (simp add: finite_dom_map_of)
  also have "\<dots> \<le> (\<Sum>t\<in>?pinned. ?size t) + (\<Sum>t\<in>rec_token ` set kept. ?size t)"
  proof -
    have "0 \<le> (\<Sum>t\<in>?pinned \<inter> rec_token ` set kept. ?size t)"
    proof (rule sum_nonneg)
      fix t assume "t \<in> ?pinned \<inter> rec_token ` set kept"
      then obtain r where "dget (st_records st) t = Some r" by (auto simp: filt split: if_splits)
      then show "0 \<le> ?size t" using sizes_okD [OF assms(2)] by simp
    qed
    then show ?thesis by (simp add: sum_Un finite_dom_map_of)
  qed
  also have "(\<Sum>t\<in>?pinned. ?size t) = pinned_bytes st"
  proof -
    have "(\<Sum>t\<in>?pinned. ?size t) = (\<Sum>t\<in>?pinned. rec_size
        (the (map_of (filter (\<lambda>p. pinned st (fst p)) (st_records st)) t)))"
      by (intro sum.cong refl) (auto simp: filt split: if_splits)
    also have "\<dots> = pinned_bytes st"
      using wf by (simp add: pinned_bytes_def sum_keys)
    finally show ?thesis .
  qed
  finally show ?thesis by (simp add: keep)
qed

text \<open>The two outcomes of an all-or-nothing cleanup.\<close>

lemma cleanup_pinned:
  assumes "store_inv st" "delete_by_item_id_all_or_none i st = (st', DeletePinned n)"
  shows "st' = st" "n = int (card {t. pinned st t \<and> t \<in> set (tokens_of_item i st)})" "0 < n"
proof -
  let ?ts = "tokens_of_item i st"
  have dist: "distinct ?ts"
    using assms(1) by (simp add: store_inv_def index_ok_def tokens_distinct)
  have "filter (\<lambda>t. dget (st_pins st) t \<noteq> None) ?ts = filter (pinned st) ?ts"
    by (simp add: pinned_def [abs_def])
  with assms(2) have n: "st' = st" "n = int (length (filter (pinned st) ?ts))" "n \<noteq> 0"
    by (auto simp: delete_by_item_id_all_or_none_def Let_def case_prod_beta split: if_splits)
  then show "st' = st" "0 < n" by linarith+
  have "card {t. pinned st t \<and> t \<in> set ?ts} = length (filter (pinned st) ?ts)"
    using dist distinct_card [of "filter (pinned st) ?ts"] by (simp add: conj_commute)
  with n show "n = int (card {t. pinned st t \<and> t \<in> set ?ts})" by simp
qed

lemma cleanup_done:
  assumes "store_inv st" "delete_by_item_id_all_or_none i st = (st', DeleteDone ds)"
  shows "tokens_of_item i st' = []" "store_inv st'" "total_bytes st' = total_bytes st - ds_bytes ds"
    "dget (st_records st') t = (case dget (st_records st) t of None \<Rightarrow> None
      | Some r \<Rightarrow> if rec_item r = i then None else Some r)"
proof -
  let ?ts = "tokens_of_item i st"
  have free: "filter (pinned st) ?ts = []" and st': "st' = fst (delete_tokens ?ts st)"
    "ds = snd (delete_tokens ?ts st)"
    using assms(2) by (auto simp: delete_by_item_id_all_or_none_def Let_def case_prod_beta
        pinned_def filter_empty_conv split: if_splits)
  show inv': "store_inv st'" unfolding st'(1) using assms(1) by (rule delete_tokens_inv)
  have rec: "dget (st_records st') t = (case dget (st_records st) t of None \<Rightarrow> None
      | Some r \<Rightarrow> if rec_item r = i then None else Some r)" for t
    using free index_tokens [OF assms(1), of i]
    by (auto simp: st' delete_tokens_records pinned_def filter_empty_conv split: option.splits)
  show "dget (st_records st') t = (case dget (st_records st) t of None \<Rightarrow> None
      | Some r \<Rightarrow> if rec_item r = i then None else Some r)" by (rule rec)
  have "set (tokens_of_item i st') = {}"
    using rec index_tokens [OF inv', of i] by (auto split: option.splits if_splits)
  then show "tokens_of_item i st' = []" by simp
  show "total_bytes st' = total_bytes st - ds_bytes ds"
    unfolding st' using assms(1) by (intro delete_tokens_bytes records_ok_dwf)
qed

section \<open>Properties\<close>

text \<open>
  C1. Whatever the handlers and the sweep loop do, in any order, starting from an empty state
  directory, the store stays consistent: records, item index, pins and the files on disk agree, and
  restarting the server on the directory it leaves behind recovers exactly the records of the run,
  indexed by item, with no pins.
\<close>

theorem restart_recovers_run:
  assumes "ops_ok ops" "0 < ttl" "- 1 \<le> max_bytes"
    and "new_store ttl max_bytes [] = Inr st0"
  shows "store_inv (store_run ops st0) \<and>
    (\<exists>st'. new_store ttl max_bytes (st_files (store_run ops st0)) = Inr st' \<and> store_inv st' \<and>
       dget (st_records st') = dget (st_records (store_run ops st0)) \<and>
       (\<lambda>i. set (tokens_of_item i st')) = (\<lambda>i. set (tokens_of_item i (store_run ops st0))) \<and>
       st_pins st' = [])"
proof -
  have inv: "run_inv (store_run ops st0)"
    using assms by (intro store_run_inv empty_run_inv)
  then obtain st' where st': "new_store ttl max_bytes (st_files (store_run ops st0)) = Inr st'"
    "run_inv st'" "dget (st_records st') = dget (st_records (store_run ops st0))" "st_pins st' = []"
    using new_store_recovers assms(2,3) by blast
  have si: "store_inv (store_run ops st0)" "store_inv st'"
    using inv st'(2) by (simp_all add: run_inv_def)
  then have "set (tokens_of_item i st') = set (tokens_of_item i (store_run ops st0))" for i
    using st'(3) by (simp add: index_tokens)
  with st' si show ?thesis by auto
qed

definition demo_store :: store where
  "demo_store = \<lparr>st_ttl = 60, st_max_bytes = 100, st_records = [], st_by_item = [], st_pins = [],
     st_files = []\<rparr>"

definition demo_ops :: "(int \<times> store_op) list" where
  "demo_ops =
     [(1, OpWrite (lit ''pg_1.bin'') \<lparr>fl_content = Blob 90, fl_mtime = 1\<rparr>),
      (2, OpPut (\<lambda>n. lit ''a'') 0 (lit ''pg_1.bin'') (lit ''i'') (lit ''e'') [] (lit ''h'')),
      (3, OpPin (lit ''st_a'')),
      (4, OpWrite (lit ''pg_2.bin'') \<lparr>fl_content = Blob 50, fl_mtime = 4\<rparr>),
      (5, OpChild (\<lambda>n. lit ''b'') 0 (lit ''st_a'') (lit ''pg_2.bin''))]"

lemma demo_ops_ok: "ops_ok demo_ops" "new_store 60 100 [] = Inr demo_store"
  by code_simp+

theorem restart_recovers_run_witness:
  "\<exists>st'. new_store 60 100 (st_files (store_run demo_ops demo_store)) = Inr st' \<and> store_inv st'"
  using restart_recovers_run [OF demo_ops_ok(1) _ _ demo_ops_ok(2)] by simp blast



text \<open>
  C10. The over-budget collection brings the recorded bytes down to the budget plus what is pinned,
  and it takes the least recently used states first: no deleted state was used later than an unpinned
  state that is kept.
\<close>

theorem gc_over_budget_bound:
  assumes "store_inv st" "sizes_ok st" "0 \<le> st_max_bytes st"
  shows "total_bytes (fst (gc_over_budget st)) \<le> st_max_bytes st + pinned_bytes st \<and>
    (dget (st_records st) t = Some r \<longrightarrow> dget (st_records (fst (gc_over_budget st))) t = None \<longrightarrow>
     dget (st_records (fst (gc_over_budget st))) u = Some s \<longrightarrow> dget (st_pins st) u = None \<longrightarrow>
       lru_key r \<le> lru_key s)"
proof (cases "st_max_bytes st < total_bytes st")
  case False
  have "0 \<le> pinned_bytes st"
    unfolding pinned_bytes_def using assms(2)
    by (intro dsum_nonneg) (auto simp: sizes_ok_def list_all_iff)
  with False assms(3) show ?thesis by (auto simp: gc_over_budget_def)
next
  case True
  with assms obtain old kept where split: "lru_order st = old @ kept"
    "sum_list (map rec_size kept) \<le> st_max_bytes st"
    "fst (gc_over_budget st) = fst (delete_tokens (map rec_token old) st)"
    using gc_over_budget_split by blast
  have "total_bytes (fst (gc_over_budget st)) \<le> st_max_bytes st + pinned_bytes st"
    using total_after_delete [OF assms(1,2) split(1)] split(2,3) by simp
  moreover have "lru_key r \<le> lru_key s"
    if r: "dget (st_records st) t = Some r" "dget (st_records (fst (gc_over_budget st))) t = None"
      and s: "dget (st_records (fst (gc_over_budget st))) u = Some s" "dget (st_pins st) u = None"
  proof -
    have s': "dget (st_records st) u = Some s" "u \<notin> rec_token ` set old"
      using s by (auto simp: split(3) delete_tokens_records split: if_splits)
    have tok: "rec_token r = t" "rec_token s = u"
      using assms(1) r(1) s'(1) by (simp_all add: store_inv_record)
    have "s \<in> set kept"
      using lru_member [OF assms(1), of s] s' tok split(1) by auto
    moreover have "r \<in> set old"
    proof -
      have "t \<in> rec_token ` set old"
        using r by (auto simp: split(3) delete_tokens_records split: if_splits)
      then obtain r' where "r' \<in> set old" "rec_token r' = t" by auto
      with lru_member [OF assms(1), of r'] r(1) split(1) show ?thesis by auto
    qed
    ultimately show ?thesis using lru_sorted [of st] split(1) by (auto simp: sorted_append)
  qed
  ultimately show ?thesis by blast
qed

theorem gc_over_budget_bound_witness:
  "total_bytes (fst (gc_over_budget (store_run demo_ops demo_store))) \<le> 190"
proof -
  have "store_inv (store_run demo_ops demo_store)"
    using store_run_inv [OF empty_run_inv [OF demo_ops_ok(2)] demo_ops_ok(1)]
    by (simp add: run_inv_def)
  moreover have "sizes_ok (store_run demo_ops demo_store)" by code_simp
  moreover have "st_max_bytes (store_run demo_ops demo_store) = 100" by code_simp
  moreover have "pinned_bytes (store_run demo_ops demo_store) = 90" by code_simp
  ultimately show ?thesis
    using gc_over_budget_bound [of "store_run demo_ops demo_store"] by simp
qed

text \<open>
  The slack of the bound is real: the loop counts a pinned state as freed although the deletion
  skips it.  With a pinned state of 90 bytes and a newer free one of 50 under a budget of 100 bytes,
  the collection deletes nothing and stays at 140, although deleting the free state would reach 90.
\<close>

theorem gc_counts_pinned_as_freed:
  "let st = store_run demo_ops demo_store
   in total_bytes st = 140 \<and> gc_over_budget st = (st, \<lparr>ds_states = 0, ds_bytes = 0\<rparr>) \<and>
      total_bytes (fst (delete_tokens [lit ''st_b''] st)) \<le> st_max_bytes st"
  by code_simp

text \<open>
  C11. The all-or-nothing cleanup of an item: with any of the item's states pinned nothing changes and
  the number of pinned states is reported; otherwise the item's states and their files are gone,
  every other state is untouched, and the reported bytes are what the total loses.
\<close>

theorem cleanup_all_or_none:
  assumes "store_inv st"
  shows "case delete_by_item_id_all_or_none i st of
      (st', DeletePinned n) \<Rightarrow> st' = st \<and>
        n = int (card {t. pinned st t \<and> t \<in> set (tokens_of_item i st)}) \<and> 0 < n
    | (st', DeleteDone ds) \<Rightarrow> tokens_of_item i st' = [] \<and> store_inv st' \<and>
        total_bytes st' = total_bytes st - ds_bytes ds \<and>
        dget (st_records st') t = (case dget (st_records st) t of None \<Rightarrow> None
          | Some r \<Rightarrow> if rec_item r = i then None else Some r)"
proof -
  obtain st' out where d: "delete_by_item_id_all_or_none i st = (st', out)" by force
  show ?thesis
    using d cleanup_pinned [OF assms] cleanup_done [OF assms] by (cases out) simp_all
qed

theorem cleanup_all_or_none_witness:
  "fst (delete_by_item_id_all_or_none (lit ''i'') (store_run demo_ops demo_store)) =
     store_run demo_ops demo_store"
proof -
  have "store_inv (store_run demo_ops demo_store)"
    using store_run_inv [OF empty_run_inv [OF demo_ops_ok(2)] demo_ops_ok(1)]
    by (simp add: run_inv_def)
  note all = cleanup_all_or_none [OF this, of "lit ''i''"]
  have "snd (delete_by_item_id_all_or_none (lit ''i'') (store_run demo_ops demo_store)) = DeletePinned 1"
    by code_simp
  then obtain st' where "delete_by_item_id_all_or_none (lit ''i'') (store_run demo_ops demo_store) =
      (st', DeletePinned 1)" by (metis prod.collapse)
  with all [of undefined] show ?thesis by simp
qed

end
