(* ===== verification/Limiter.thy ===== *)
theory Limiter
  imports Prelude
begin

text \<open>
  \<open>server/exec_request_limiter.py\<close>: the bounded slots and the bounded queue in front of the exec
  endpoints.  The critical sections under the condition's lock never suspend while they hold it, so
  the lock is never contended and each section is one atomic step.  Beside the two counters of the
  code the state names the tasks: those waiting on the condition (oldest first, the order
  \<open>notify\<close> wakes them), those notified and not yet resumed, those cancelled inside \<open>wait\<close> and not yet
  resumed, and those holding a slot.  Any interleaving of arrivals, resumptions, cancellations and
  releases is a run of \<open>lim_step\<close>; a notified task may lose the free slot to a newcomer.
\<close>

section \<open>State and operations\<close>

record limiter =
  lim_max :: int
  lim_max_queued :: int
  lim_in_flight :: int
  lim_queued :: int
  lim_waiting :: "nat list"
  lim_woken :: "nat list"
  lim_cancelling :: "nat list"
  lim_holding :: "nat list"

datatype limiter_error = MaxInFlightInvalid | MaxQueuedInvalid | RequestRejected

record limiter_stats =
  ls_max_in_flight :: int
  ls_max_queued :: int
  ls_in_flight :: int
  ls_queued :: int

definition new_limiter :: "int \<Rightarrow> int \<Rightarrow> limiter_error + limiter" where
  "new_limiter max_in_flight max_queued =
     (if max_in_flight = 0 \<or> max_in_flight < - 1 then Inl MaxInFlightInvalid
      else if max_queued < - 1 then Inl MaxQueuedInvalid
      else Inr \<lparr>lim_max = max_in_flight, lim_max_queued = max_queued, lim_in_flight = 0,
             lim_queued = 0, lim_waiting = [], lim_woken = [], lim_cancelling = [],
             lim_holding = []\<rparr>)"

text \<open>\<open>self._condition.notify(1)\<close>\<close>

definition notify_one :: "limiter \<Rightarrow> limiter" where
  "notify_one l = (case lim_waiting l of [] \<Rightarrow> l
     | t # ts \<Rightarrow> l\<lparr>lim_waiting := ts, lim_woken := lim_woken l @ [t]\<rparr>)"

text \<open>\<open>acquire\<close>, up to its first suspension.\<close>

definition acquire :: "nat \<Rightarrow> limiter \<Rightarrow> limiter_error + limiter" where
  "acquire t l =
     (if lim_max l < 0 \<or> lim_in_flight l < lim_max l
      then Inr (l\<lparr>lim_in_flight := lim_in_flight l + 1, lim_holding := t # lim_holding l\<rparr>)
      else if 0 \<le> lim_max_queued l \<and> lim_max_queued l \<le> lim_queued l then Inl RequestRejected
      else Inr (l\<lparr>lim_queued := lim_queued l + 1, lim_waiting := lim_waiting l @ [t]\<rparr>))"

text \<open>A notified task runs again: it rechecks the loop condition.\<close>

definition resume :: "nat \<Rightarrow> limiter \<Rightarrow> limiter" where
  "resume t l =
     (let l = l\<lparr>lim_woken := remove1 t (lim_woken l)\<rparr>
      in if lim_max l \<le> lim_in_flight l then l\<lparr>lim_waiting := lim_waiting l @ [t]\<rparr>
         else l\<lparr>lim_queued := lim_queued l - 1, lim_in_flight := lim_in_flight l + 1,
                lim_holding := t # lim_holding l\<rparr>)"

text \<open>A task is cancelled while it waits, whether or not it has been notified.\<close>

definition cancel_wait :: "nat \<Rightarrow> limiter \<Rightarrow> limiter" where
  "cancel_wait t l = l\<lparr>lim_waiting := remove1 t (lim_waiting l), lim_woken := remove1 t (lim_woken l),
     lim_cancelling := t # lim_cancelling l\<rparr>"

text \<open>The \<open>except BaseException\<close> branch: leave the queue and pass the wake-up on.\<close>

definition leave_queue :: "nat \<Rightarrow> limiter \<Rightarrow> limiter" where
  "leave_queue t l = notify_one (l\<lparr>lim_cancelling := remove1 t (lim_cancelling l),
     lim_queued := lim_queued l - 1\<rparr>)"

definition release :: "nat \<Rightarrow> limiter \<Rightarrow> limiter" where
  "release t l =
     (let l = l\<lparr>lim_in_flight := max (lim_in_flight l - 1) 0, lim_holding := remove1 t (lim_holding l)\<rparr>
      in if lim_max l < 0 then l else notify_one l)"

definition limiter_stats_of :: "limiter \<Rightarrow> limiter_stats" where
  "limiter_stats_of l = \<lparr>ls_max_in_flight = lim_max l, ls_max_queued = lim_max_queued l,
     ls_in_flight = lim_in_flight l, ls_queued = lim_queued l\<rparr>"

text \<open>The tasks inside \<open>acquire\<close>; a task is in one call at a time.\<close>

definition lim_tasks :: "limiter \<Rightarrow> nat list" where
  "lim_tasks l = lim_waiting l @ lim_woken l @ lim_cancelling l"

text \<open>The last rule covers \<open>Condition.wait\<close> notifying another task itself when it is cancelled.\<close>

inductive lim_step :: "limiter \<Rightarrow> limiter \<Rightarrow> bool" where
  step_acquire: "t \<notin> set (lim_tasks l) \<Longrightarrow> acquire t l = Inr l' \<Longrightarrow> lim_step l l'"
| step_resume: "t \<in> set (lim_woken l) \<Longrightarrow> lim_step l (resume t l)"
| step_cancel: "t \<in> set (lim_waiting l @ lim_woken l) \<Longrightarrow> lim_step l (cancel_wait t l)"
| step_leave: "t \<in> set (lim_cancelling l) \<Longrightarrow> lim_step l (leave_queue t l)"
| step_release: "t \<in> set (lim_holding l) \<Longrightarrow> lim_step l (release t l)"
| step_notify: "lim_step l (notify_one l)"

inductive_cases lim_stepE: "lim_step l l'"

section \<open>Invariant\<close>

text \<open>The counters are the numbers of tasks and respect the limits.\<close>

definition lim_counts :: "limiter \<Rightarrow> bool" where
  "lim_counts l \<longleftrightarrow> lim_in_flight l = int (length (lim_holding l)) \<and>
     lim_queued l = int (length (lim_tasks l)) \<and>
     (0 \<le> lim_max l \<longrightarrow> lim_in_flight l \<le> lim_max l) \<and>
     (0 \<le> lim_max_queued l \<longrightarrow> lim_queued l \<le> lim_max_queued l) \<and>
     (lim_max l < 0 \<longrightarrow> lim_tasks l = [])"

text \<open>Every free slot has a task on its way to it, as long as anybody waits.\<close>

definition lim_wakeups :: "limiter \<Rightarrow> bool" where
  "lim_wakeups l \<longleftrightarrow> (lim_waiting l \<noteq> [] \<longrightarrow> lim_max l - lim_in_flight l \<le>
     int (length (lim_woken l)) + int (length (lim_cancelling l)))"

definition lim_inv :: "limiter \<Rightarrow> bool" where
  "lim_inv l \<longleftrightarrow> lim_counts l \<and> lim_wakeups l \<and> distinct (lim_tasks l)"

lemma notify_one_inv:
  assumes "lim_counts l" "distinct (lim_tasks l)"
    and "lim_waiting l \<noteq> [] \<Longrightarrow> lim_max l - lim_in_flight l \<le>
      int (length (lim_woken l)) + int (length (lim_cancelling l)) + 1"
  shows "lim_inv (notify_one l)"
  using assms
  by (cases "lim_waiting l") (auto simp: notify_one_def lim_inv_def lim_counts_def lim_wakeups_def
      lim_tasks_def)

lemma acquire_inv:
  assumes "lim_inv l" "t \<notin> set (lim_tasks l)" "acquire t l = Inr l'"
  shows "lim_inv l'"
proof (cases "lim_max l < 0 \<or> lim_in_flight l < lim_max l")
  case True
  then have l': "l' = l\<lparr>lim_in_flight := lim_in_flight l + 1, lim_holding := t # lim_holding l\<rparr>"
    using assms(3) by (simp add: acquire_def)
  have "lim_counts l'" using assms(1) True
    by (cases "lim_max l < 0"; cases "0 \<le> lim_max_queued l")
      (simp_all add: l' lim_inv_def lim_counts_def lim_tasks_def)
  moreover have "lim_wakeups l'" using assms(1)
    by (cases "lim_waiting l") (simp_all add: l' lim_inv_def lim_wakeups_def)
  moreover have "distinct (lim_tasks l')" using assms(1) by (simp add: l' lim_inv_def lim_tasks_def)
  ultimately show ?thesis by (simp add: lim_inv_def)
next
  case False
  then have l': "l' = l\<lparr>lim_queued := lim_queued l + 1, lim_waiting := lim_waiting l @ [t]\<rparr>"
    and q: "\<not> (0 \<le> lim_max_queued l \<and> lim_max_queued l \<le> lim_queued l)"
    using assms(3) by (auto simp: acquire_def split: if_splits)
  have "lim_counts l'" using assms(1) False q
    by (cases "0 \<le> lim_max_queued l") (simp_all add: l' lim_inv_def lim_counts_def lim_tasks_def)
  moreover have "lim_wakeups l'" using False by (simp add: l' lim_wakeups_def)
  moreover have "distinct (lim_tasks l')"
    using assms(1,2) by (auto simp: l' lim_inv_def lim_tasks_def)
  ultimately show ?thesis by (simp add: lim_inv_def)
qed

lemma resume_inv:
  assumes "lim_inv l" "t \<in> set (lim_woken l)"
  shows "lim_inv (resume t l)"
proof -
  have d: "distinct (lim_woken l)" "t \<notin> set (lim_waiting l)" "t \<notin> set (lim_cancelling l)"
    using assms by (auto simp: lim_inv_def lim_tasks_def)
  have len: "int (length (remove1 t (lim_woken l))) = int (length (lim_woken l)) - 1"
    "set (remove1 t (lim_woken l)) = set (lim_woken l) - {t}" "1 \<le> int (length (lim_woken l))"
    using assms(2) d(1) by (simp_all add: remove1_facts) (cases "lim_woken l"; simp)
  have lim: "0 \<le> lim_max l"
    using assms by (cases "lim_max l < 0") (auto simp: lim_inv_def lim_counts_def lim_tasks_def)
  have dist: "distinct (lim_tasks (resume t l))"
    using assms d by (auto simp: lim_inv_def lim_tasks_def resume_def Let_def)
  show ?thesis
  proof (cases "lim_max l \<le> lim_in_flight l")
    case True
    with assms(1) lim len dist show ?thesis
      unfolding lim_inv_def lim_counts_def lim_wakeups_def resume_def Let_def
      by (simp add: lim_tasks_def) (cases "0 \<le> lim_max_queued l"; simp)
  next
    case False
    with assms(1) lim len dist show ?thesis
      unfolding lim_inv_def lim_counts_def lim_wakeups_def resume_def Let_def
      by (simp add: lim_tasks_def) (cases "0 \<le> lim_max_queued l"; cases "lim_waiting l"; simp)
  qed
qed

lemma cancel_wait_inv:
  assumes "lim_inv l" "t \<in> set (lim_waiting l @ lim_woken l)"
  shows "lim_inv (cancel_wait t l)"
proof (cases "t \<in> set (lim_waiting l)")
  case True
  with assms have "t \<notin> set (lim_woken l)" "distinct (lim_waiting l)" "t \<notin> set (lim_cancelling l)"
    by (auto simp: lim_inv_def lim_tasks_def)
  with assms True show ?thesis
    by (auto simp: cancel_wait_def lim_inv_def lim_counts_def lim_wakeups_def lim_tasks_def
        remove1_facts set_remove1_eq)
next
  case False
  with assms have "t \<in> set (lim_woken l)" "distinct (lim_woken l)" "t \<notin> set (lim_cancelling l)"
    by (auto simp: lim_inv_def lim_tasks_def)
  with assms False show ?thesis
    by (auto simp: cancel_wait_def lim_inv_def lim_counts_def lim_wakeups_def lim_tasks_def
        remove1_facts set_remove1_eq)
qed

lemma leave_queue_inv:
  assumes "lim_inv l" "t \<in> set (lim_cancelling l)"
  shows "lim_inv (leave_queue t l)"
proof -
  have "distinct (lim_cancelling l)" using assms(1) by (simp add: lim_inv_def lim_tasks_def)
  with assms show ?thesis
    unfolding leave_queue_def
    by (intro notify_one_inv) (auto simp: lim_inv_def lim_counts_def lim_wakeups_def lim_tasks_def
        remove1_facts set_remove1_eq)
qed

lemma limiter_release_inv:
  assumes "lim_inv l" "t \<in> set (lim_holding l)"
  shows "lim_inv (release t l)"
proof -
  let ?l = "l\<lparr>lim_in_flight := max (lim_in_flight l - 1) 0, lim_holding := remove1 t (lim_holding l)\<rparr>"
  have pos: "1 \<le> lim_in_flight l" using assms
    by (cases "lim_holding l") (auto simp: lim_inv_def lim_counts_def)
  have counts: "lim_counts ?l" "distinct (lim_tasks ?l)"
    using assms pos by (auto simp: lim_inv_def lim_counts_def lim_tasks_def remove1_facts)
  show ?thesis
  proof (cases "lim_max l < 0")
    case True
    with assms counts pos show ?thesis
      by (auto simp: release_def Let_def lim_inv_def lim_wakeups_def lim_counts_def lim_tasks_def)
  next
    case False
    moreover have "lim_inv (notify_one ?l)"
      using assms counts pos by (intro notify_one_inv) (auto simp: lim_inv_def lim_wakeups_def)
    ultimately show ?thesis by (simp add: release_def Let_def)
  qed
qed

lemma lim_step_inv: "lim_inv l \<Longrightarrow> lim_step l l' \<Longrightarrow> lim_inv l'"
proof (erule lim_stepE)
  assume "lim_inv l" "l' = notify_one l"
  moreover have "lim_inv (notify_one l)"
    using \<open>lim_inv l\<close> by (intro notify_one_inv) (auto simp: lim_inv_def lim_wakeups_def)
  ultimately show "lim_inv l'" by simp
qed (auto intro: acquire_inv resume_inv cancel_wait_inv leave_queue_inv limiter_release_inv)

lemma new_limiter_inv: "new_limiter m q = Inr l \<Longrightarrow> lim_inv l"
  by (auto simp: new_limiter_def lim_inv_def lim_counts_def lim_wakeups_def lim_tasks_def
      split: if_splits)

lemma new_limiter_limits: "new_limiter m q = Inr l \<Longrightarrow> lim_max l = m \<and> lim_max_queued l = q"
  by (auto simp: new_limiter_def split: if_splits)

lemma notify_one_limits [simp]:
  "lim_max (notify_one l) = lim_max l" "lim_max_queued (notify_one l) = lim_max_queued l"
  by (auto simp: notify_one_def split: list.splits)

lemma lim_step_limits: "lim_step l l' \<Longrightarrow> lim_max l' = lim_max l \<and> lim_max_queued l' = lim_max_queued l"
  by (erule lim_stepE) (auto simp: acquire_def resume_def cancel_wait_def leave_queue_def release_def
      Let_def split: if_splits)

interpretation slots: step_system lim_step lim_inv "\<lambda>l. (lim_max l, lim_max_queued l)"
  by unfold_locales (auto intro: lim_step_inv dest: lim_step_limits)

section \<open>Properties\<close>

text \<open>
  C15. Under every interleaving of arrivals, wake-ups, cancellations and releases, a bounded limiter
  admits at most \<open>max_in_flight\<close> requests at once and queues at most \<open>max_queued\<close>, its counters are
  the numbers of tasks that hold a slot or wait, and no wake-up is lost: once every notified or
  cancelled task has run, a task still waits only if all slots are taken.
\<close>

theorem limiter_bounds_and_wakeups:
  assumes "new_limiter m q = Inr l0" "reaches lim_step l0 l"
  shows "(0 < m \<longrightarrow> lim_in_flight l \<le> m) \<and> (0 \<le> q \<longrightarrow> lim_queued l \<le> q) \<and>
    lim_in_flight l = int (length (lim_holding l)) \<and>
    lim_queued l = int (length (lim_waiting l @ lim_woken l @ lim_cancelling l)) \<and>
    (lim_woken l = [] \<longrightarrow> lim_cancelling l = [] \<longrightarrow> lim_waiting l \<noteq> [] \<longrightarrow> lim_in_flight l = m)"
proof -
  have "lim_inv l" "lim_max l = m" "lim_max_queued l = q"
    using slots.reached [OF assms(2) new_limiter_inv [OF assms(1)]] new_limiter_limits [OF assms(1)] by auto
  then show ?thesis
    by (auto simp: lim_inv_def lim_counts_def lim_wakeups_def lim_tasks_def)
qed

definition demo_limiter :: limiter where
  "demo_limiter = \<lparr>lim_max = 1, lim_max_queued = 1, lim_in_flight = 1, lim_queued = 1,
     lim_waiting = [2], lim_woken = [], lim_cancelling = [], lim_holding = [1]\<rparr>"

lemma demo_limiter_reached:
  "\<exists>l0. new_limiter 1 1 = Inr l0 \<and> reaches lim_step l0 demo_limiter"
proof -
  obtain l0 where l0: "new_limiter 1 1 = Inr l0" by (simp add: new_limiter_def)
  define l1 where "l1 = (case acquire 1 l0 of Inr l \<Rightarrow> l)"
  have "lim_step l0 l1" using l0
    by (intro step_acquire [of 1]) (auto simp: l1_def new_limiter_def acquire_def lim_tasks_def)
  moreover have "lim_step l1 demo_limiter" using l0
    by (intro step_acquire [of 2])
      (auto simp: l1_def new_limiter_def acquire_def lim_tasks_def demo_limiter_def)
  ultimately show ?thesis using l0 by (blast intro: reaches_step)
qed

theorem limiter_bounds_and_wakeups_witness:
  "lim_in_flight demo_limiter = 1 \<and> lim_waiting demo_limiter \<noteq> [] \<and>
   acquire 3 demo_limiter = Inl RequestRejected"
  using demo_limiter_reached limiter_bounds_and_wakeups [of 1 1 _ demo_limiter]
  by (auto simp: demo_limiter_def acquire_def)

text \<open>
  A released slot reaches a waiting task: if the slots are full and a task waits, then after the
  release of one slot the longest-waiting task, resumed before anyone else arrives, holds it.
\<close>

theorem release_hands_over:
  assumes "lim_inv l" "lim_in_flight l = lim_max l" "0 < lim_max l" "h \<in> set (lim_holding l)"
    and "lim_waiting l = t # ts"
  shows "t \<in> set (lim_woken (release h l)) \<and> t \<in> set (lim_holding (resume t (release h l))) \<and>
    lim_in_flight (resume t (release h l)) = lim_max l \<and>
    lim_queued (resume t (release h l)) = lim_queued l - 1"
  using assms by (simp add: release_def resume_def notify_one_def Let_def)

theorem release_hands_over_witness:
  "2 \<in> set (lim_holding (resume 2 (release 1 demo_limiter)))"
proof -
  obtain l0 where l0: "new_limiter 1 1 = Inr l0" "reaches lim_step l0 demo_limiter"
    using demo_limiter_reached by blast
  then have "lim_inv demo_limiter"
    using slots.reached [OF _ new_limiter_inv] by blast
  then show ?thesis
    using release_hands_over [of demo_limiter 1 2 "[]"] by (simp add: demo_limiter_def)
qed

end
