(* ===== verification/Sched.thy ===== *)
theory Sched
  imports Prelude "HOL-Library.Multiset"
begin

text \<open>
  \<open>server/exec_backend_utils.py\<close> and the request caps of \<open>server/exec_backends.py\<close>: how the items of
  a step batch are grouped by environment and header, and how a group is dealt out to worker lanes.
\<close>

section \<open>Grouping and lanes\<close>

type_synonym compat_key = "pystr \<times> pystr"

definition compatibility_key :: "pystr \<Rightarrow> pystr \<Rightarrow> compat_key" where
  "compatibility_key env header_hash = (env, header_hash)"

text \<open>\<open>grouped.setdefault(key, []).append(item)\<close> on an ordered dictionary.\<close>

definition add_to_group :: "('i \<Rightarrow> compat_key) \<Rightarrow> (compat_key, 'i list) pydict \<Rightarrow> 'i
    \<Rightarrow> (compat_key, 'i list) pydict" where
  "add_to_group key grouped x = dset (key x) (dget_or grouped (key x) [] @ [x]) grouped"

definition group_items :: "('i \<Rightarrow> compat_key) \<Rightarrow> 'i list \<Rightarrow> (compat_key, 'i list) pydict" where
  "group_items key items = foldl (add_to_group key) [] items"

definition lane_count :: "int \<Rightarrow> int \<Rightarrow> int" where
  "lane_count item_count max_lanes =
     (if item_count \<le> 0 then 0 else if max_lanes \<le> 0 then item_count else min max_lanes item_count)"

text \<open>The loop over \<open>enumerate(items)\<close>: item \<open>i\<close> is appended to lane \<open>i % n\<close>.\<close>

fun deal :: "nat \<Rightarrow> nat \<Rightarrow> 'i list \<Rightarrow> 'i list list \<Rightarrow> 'i list list" where
  "deal n i [] lanes = lanes"
| "deal n i (x # xs) lanes = deal n (Suc i) xs (lanes[i mod n := lanes ! (i mod n) @ [x]])"

definition distribute_items :: "'i list \<Rightarrow> int \<Rightarrow> 'i list list" where
  "distribute_items items max_lanes =
     (let n = nat (lane_count (int (length items)) max_lanes)
      in if n = 0 then [] else deal n 0 items (replicate n []))"

section \<open>Grouping\<close>

lemma group_items_dwf: "dwf (group_items key items)"
  unfolding group_items_def by (rule foldl_inv) (auto simp: add_to_group_def)

lemma group_items_get:
  "dget (group_items key items) k =
     (let xs = filter (\<lambda>x. key x = k) items in if xs = [] then None else Some xs)"
proof (induction items rule: rev_induct)
  case Nil
  then show ?case by (simp add: group_items_def)
next
  case (snoc x items)
  have step: "group_items key (items @ [x]) = add_to_group key (group_items key items) x"
    by (simp add: group_items_def)
  show ?case
    unfolding step using snoc.IH
    by (auto simp: add_to_group_def dget_or_def Let_def)
qed

lemma keys_dset: "map fst (dset k v d) = (if dget d k = None then map fst d @ [k] else map fst d)"
  by (induction d) auto

text \<open>The groups come in the order their first items have, and each keeps the order of its items.\<close>

lemma group_items_keys: "map fst (group_items key items) = rev (remdups (rev (map key items)))"
proof (induction items rule: rev_induct)
  case Nil
  then show ?case by (simp add: group_items_def)
next
  case (snoc x items)
  have step: "group_items key (items @ [x]) = add_to_group key (group_items key items) x"
    by (simp add: group_items_def)
  have "dget (group_items key items) (key x) = None \<longleftrightarrow> key x \<notin> key ` set items"
  proof -
    have "filter (\<lambda>y. key y = key x) items = [] \<longleftrightarrow> key x \<notin> key ` set items"
    proof -
      have "key x \<in> key ` set items \<longleftrightarrow> (\<exists>y\<in>set items. key y = key x)"
        unfolding image_iff by (rule bex_cong [OF refl]) (rule eq_commute)
      then show ?thesis by (simp add: filter_empty_conv)
    qed
    then show ?thesis by (simp add: group_items_get Let_def)
  qed
  then show ?case
    unfolding step add_to_group_def keys_dset using snoc.IH by simp
qed

section \<open>Lanes\<close>

lemma lane_count_bounds:
  "0 < c \<Longrightarrow> 1 \<le> lane_count c m \<and> lane_count c m \<le> c"
  "0 < m \<Longrightarrow> 0 \<le> c \<Longrightarrow> lane_count c m \<le> m"
  by (auto simp: lane_count_def)

lemma deal_length [simp]: "length (deal n i xs lanes) = length lanes"
  by (induction n i xs lanes rule: deal.induct) auto

text \<open>The items lane \<open>l\<close> receives: those at the positions congruent to \<open>l\<close>.\<close>

definition lane_of :: "nat \<Rightarrow> nat \<Rightarrow> nat \<Rightarrow> 'i list \<Rightarrow> 'i list" where
  "lane_of n i l xs = map snd (filter (\<lambda>p. (i + fst p) mod n = l) (zip [0..<length xs] xs))"

lemma zip_upt_Cons: "zip [0..<length (x # xs)] (x # xs) =
  (0, x) # map (\<lambda>p. (Suc (fst p), snd p)) (zip [0..<length xs] xs)"
proof -
  have "[0..<length (x # xs)] = 0 # map Suc [0..<length xs]"
    by (simp add: upt_conv_Cons map_Suc_upt del: upt_Suc)
  then show ?thesis by (simp add: zip_map1 case_prod_beta)
qed

lemma lane_of_Cons:
  "lane_of n i l (x # xs) = (if i mod n = l then [x] else []) @ lane_of n (Suc i) l xs"
proof -
  have "map snd (filter (\<lambda>p. (i + fst p) mod n = l)
      (map (\<lambda>p. (Suc (fst p), snd p)) (zip [0..<length xs] xs))) = lane_of n (Suc i) l xs"
    by (simp add: lane_of_def filter_map comp_def)
  then show ?thesis unfolding lane_of_def zip_upt_Cons by simp
qed

lemma deal_nth:
  "0 < n \<Longrightarrow> length lanes = n \<Longrightarrow> l < n \<Longrightarrow> deal n i xs lanes ! l = lanes ! l @ lane_of n i l xs"
proof (induction n i xs lanes rule: deal.induct)
  case (1 n i lanes)
  then show ?case by (simp add: lane_of_def)
next
  case (2 n i x xs lanes)
  then show ?case by (auto simp: lane_of_Cons nth_list_update)
qed

lemma distribute_nth:
  assumes "l < length (distribute_items items m)"
  shows "distribute_items items m ! l = lane_of (length (distribute_items items m)) 0 l items"
  using assms by (auto simp: distribute_items_def Let_def deal_nth split: if_splits)

lemma distribute_length:
  "length (distribute_items items m) = nat (lane_count (int (length items)) m)"
  by (simp add: distribute_items_def Let_def)

lemma mset_deal:
  "0 < n \<Longrightarrow> length lanes = n \<Longrightarrow> mset (concat (deal n i xs lanes)) = mset (concat lanes) + mset xs"
proof (induction n i xs lanes rule: deal.induct)
  case (2 n i x xs lanes)
  have "mset (concat (lanes[j := lanes ! j @ [x]])) = mset (concat lanes) + {#x#}"
    if "j < length lanes" for j
  proof -
    have "concat lanes = concat (take j lanes) @ lanes ! j @ concat (drop (Suc j) lanes)"
      using id_take_nth_drop [OF that] by (metis concat.simps(2) concat_append)
    moreover have "concat (lanes[j := lanes ! j @ [x]]) =
        concat (take j lanes) @ (lanes ! j @ [x]) @ concat (drop (Suc j) lanes)"
      using upd_conv_take_nth_drop [OF that] by (metis concat.simps(2) concat_append)
    ultimately show ?thesis by simp
  qed
  then show ?case using 2 by simp
qed simp

lemma div_step: "l < n \<Longrightarrow>
  (Suc i + (n - Suc l)) div n = (i + (n - Suc l)) div n + (if i mod n = l then 1 else 0)"
proof -
  assume l: "l < n"
  have eq: "Suc (i + (n - Suc l)) = i + (n - l)" using l by simp
  have "Suc (i + (n - Suc l)) mod n = 0 \<longleftrightarrow> i mod n = l"
  proof
    assume "Suc (i + (n - Suc l)) mod n = 0"
    then have "(i mod n + (n - l)) mod n = 0" unfolding eq by (simp add: mod_add_left_eq)
    then have "n dvd (i mod n + (n - l))" by (simp add: dvd_eq_mod_eq_0)
    moreover have "0 < i mod n + (n - l)" "i mod n + (n - l) < 2 * n"
      using l mod_less_divisor [of n i] by linarith+
    ultimately have "i mod n + (n - l) = n"
    proof -
      obtain k where k: "i mod n + (n - l) = n * k" using \<open>n dvd _\<close> by (auto simp: dvd_def)
      then have "0 < n * k" "n * k < n * 2" using \<open>0 < _\<close> \<open>_ < 2 * n\<close> by (simp_all add: mult.commute)
      then have "k \<noteq> 0" "k < 2" by auto
      then have "k = 1" by linarith
      with k show ?thesis by simp
    qed
    then show "i mod n = l" using l by simp
  next
    assume "i mod n = l"
    then have "(i + (n - l)) mod n = n mod n"
      using l by (metis le_add_diff_inverse less_imp_le mod_add_left_eq)
    then show "Suc (i + (n - Suc l)) mod n = 0" unfolding eq by simp
  qed
  then show ?thesis by (simp add: div_Suc)
qed

lemma lane_of_length:
  "l < n \<Longrightarrow> length (lane_of n i l xs) + (i + (n - Suc l)) div n = (i + length xs + (n - Suc l)) div n"
proof (induction xs arbitrary: i)
  case Nil
  then show ?case by (simp add: lane_of_def)
next
  case (Cons x xs)
  have "length (lane_of n (Suc i) l xs) + (Suc i + (n - Suc l)) div n =
      (Suc i + length xs + (n - Suc l)) div n"
    using Cons by blast
  then show ?case using div_step [OF Cons.prems, of i]
    by (cases "i mod n = l") (simp_all add: lane_of_Cons)
qed

section \<open>Request caps\<close>

record batch_caps =
  cap_items :: int
  cap_tactics :: int
  cap_attempts :: int
  cap_lanes :: int
  cap_acquire_ms :: int
  cap_step_ms :: int

datatype cap_error = TooManyItems | TooManyTactics | AcquireTimeoutTooLong | StepTimeoutTooLong
  | TooManyAttempts

text \<open>Of an item the caps see the number of tactics and the two timeouts.\<close>

type_synonym item_size = "int \<times> int \<times> int"

fun check_item_caps :: "batch_caps \<Rightarrow> int \<Rightarrow> item_size list \<Rightarrow> cap_error + int" where
  "check_item_caps caps attempts [] = Inr attempts"
| "check_item_caps caps attempts ((tactics, acquire_ms, step_ms) # xs) =
     (if cap_tactics caps < tactics then Inl TooManyTactics
      else if cap_acquire_ms caps < acquire_ms then Inl AcquireTimeoutTooLong
      else if cap_step_ms caps < step_ms then Inl StepTimeoutTooLong
      else check_item_caps caps (attempts + tactics) xs)"

definition validate_step_batch_caps :: "batch_caps \<Rightarrow> item_size list \<Rightarrow> cap_error + unit" where
  "validate_step_batch_caps caps items =
     (if cap_items caps < int (length items) then Inl TooManyItems
      else ebind (check_item_caps caps 0 items)
        (\<lambda>attempts. ensure (attempts \<le> cap_attempts caps) TooManyAttempts))"

lemma check_item_caps_Inr:
  "check_item_caps caps a xs = Inr b \<longleftrightarrow>
     (\<forall>(n, am, sm)\<in>set xs. n \<le> cap_tactics caps \<and> am \<le> cap_acquire_ms caps \<and> sm \<le> cap_step_ms caps) \<and>
     b = a + sum_list (map fst xs)"
  by (induction caps a xs rule: check_item_caps.induct) auto

section \<open>Properties\<close>

text \<open>
  Dealing a group to lanes loses, duplicates and reorders nothing: there are at most \<open>max_lanes\<close>
  lanes when that is positive, none is empty, the lanes together hold exactly the items, each lane
  holds the items at its positions in their order, and lane sizes differ by at most one.
\<close>

theorem lanes_partition_items:
  "let lanes = distribute_items items m in mset (concat lanes) = mset items \<and>
    (0 < m \<longrightarrow> int (length lanes) \<le> m) \<and> (items = [] \<longleftrightarrow> lanes = []) \<and>
    (l < length lanes \<longrightarrow> lanes ! l \<noteq> [] \<and>
       lanes ! l = map snd (filter (\<lambda>p. fst p mod length lanes = l) (zip [0..<length items] items))) \<and>
    (l < length lanes \<longrightarrow> k < length lanes \<longrightarrow> length (lanes ! l) \<le> length (lanes ! k) + 1)"
proof -
  define lanes where "lanes = distribute_items items m"
  let ?n = "nat (lane_count (int (length items)) m)"
  have len: "length lanes = ?n" by (simp add: lanes_def distribute_length)
  have bounds: "0 < length items \<Longrightarrow> 0 < ?n \<and> ?n \<le> length items"
    using lane_count_bounds(1) [of "int (length items)" m] by auto
  have part: "mset (concat lanes) = mset items"
    using bounds by (cases "items = []")
      (auto simp: lanes_def distribute_items_def Let_def lane_count_def mset_deal concat_replicate_trivial)
  have sizes: "length (lanes ! l) = (length items + (?n - Suc l)) div ?n" if "l < length lanes" for l
    using lane_of_length [of l ?n 0 items] that distribute_nth [of l items m]
    by (simp add: lanes_def distribute_length)
  have ne: "lanes ! l \<noteq> []" if l: "l < length lanes" for l
  proof -
    have "0 < length items" using l len by (cases items) (auto simp: lane_count_def)
    then have "?n \<le> length items + (?n - Suc l)" "0 < ?n" using bounds by auto
    then have "0 < length (lanes ! l)" unfolding sizes [OF l] by (simp add: div_greater_zero_iff)
    then show ?thesis by simp
  qed
  have le: "length (lanes ! l) \<le> length (lanes ! k) + 1" if "l < length lanes" "k < length lanes"
    for l k
  proof -
    have "(length items + (?n - Suc l)) div ?n \<le> (length items + (?n - Suc k) + ?n) div ?n"
      using that len by (intro div_le_mono) simp
    also have "\<dots> = (length items + (?n - Suc k)) div ?n + 1"
      using that len by (intro div_add_self2) simp
    finally show ?thesis using that by (simp only: sizes)
  qed
  have nil: "items = [] \<longleftrightarrow> lanes = []"
    using bounds len by (cases items) (auto simp: lanes_def distribute_items_def lane_count_def)
  have cap: "0 < m \<Longrightarrow> int (length lanes) \<le> m"
    using lane_count_bounds(2) [of m "int (length items)"] len by (simp add: lane_count_def)
  have lane: "l < length lanes \<Longrightarrow> lanes ! l =
      map snd (filter (\<lambda>p. fst p mod length lanes = l) (zip [0..<length items] items))"
    using distribute_nth [of l items m] by (simp add: lanes_def lane_of_def)
  from part nil cap ne lane le show ?thesis unfolding Let_def lanes_def [symmetric] by blast
qed

theorem lanes_partition_items_witness:
  "distribute_items [10, 11, 12, 13, 14::nat] 2 = [[10, 12, 14], [11, 13]] \<and>
   mset (concat (distribute_items [10, 11, 12, 13, 14::nat] 2)) = mset [10, 11, 12, 13, 14]"
proof -
  have "distribute_items [10, 11, 12, 13, 14::nat] 2 = [[10, 12, 14], [11, 13]]" by code_simp
  moreover have "mset (concat (distribute_items [10, 11, 12, 13, 14::nat] 2)) = mset [10, 11, 12, 13, 14]"
    using lanes_partition_items [of "[10, 11, 12, 13, 14::nat]" 2 0 1] by (simp only: Let_def)
  ultimately show ?thesis by blast
qed

text \<open>
  Grouping is by compatibility and stable: a group holds exactly the items of its key in request
  order, no group is empty, and the groups come in the order of their first items.
\<close>

theorem groups_by_compatibility:
  "dget (group_items key items) k =
     (if filter (\<lambda>x. key x = k) items = [] then None else Some (filter (\<lambda>x. key x = k) items)) \<and>
   map fst (group_items key items) = rev (remdups (rev (map key items)))"
  by (simp add: group_items_get group_items_keys Let_def)

text \<open>
  A step batch passes the caps iff the number of items, the tactics and timeouts of every item and
  the total number of attempts are within the configured limits; otherwise it is rejected whole.
\<close>

theorem caps_accepted_iff:
  "validate_step_batch_caps caps items = Inr () \<longleftrightarrow>
     int (length items) \<le> cap_items caps \<and>
     list_all (\<lambda>(n, am, sm). n \<le> cap_tactics caps \<and> am \<le> cap_acquire_ms caps \<and>
       sm \<le> cap_step_ms caps) items \<and>
     sum_list (map fst items) \<le> cap_attempts caps"
  by (auto simp: validate_step_batch_caps_def check_item_caps_Inr list_all_iff)

end
