(* ===== verification/WorkerPool.thy ===== *)
theory WorkerPool
  imports PyText "HOL-Library.Multiset"
begin

text \<open>
  \<open>PantographManager\<close> of \<open>server/pantograph_manager.py\<close>: a bounded pool of Pantograph worker
  processes.  Each section under the pool's condition is atomic; between two sections a request may
  wait for a notification, close an evicted worker or start a new one.  The state of the system is
  the pool with the requests in each of these situations, and every interleaving is a run of
  \<open>pool_step\<close>.  The worker processes are known by their lease numbers (leases are compared by
  identity); times are in milliseconds.
\<close>

section \<open>State\<close>

record lease =
  ls_id :: nat
  ls_env :: pystr
  ls_header :: pystr
  ls_hash :: pystr
  ls_used :: int
  ls_uses :: int

record pool =
  pl_max :: int
  pl_max_uses :: int
  pl_max_env :: int
  pl_startup_s :: int
  pl_free :: "lease list"
  pl_busy :: "lease list"
  pl_starting :: int
  pl_starting_env :: "(pystr, int) pydict"
  pl_requests :: int
  pl_timeouts :: int
  pl_wait_total :: int
  pl_wait_max :: int

datatype pool_error = MaxWorkersInvalid | MaxUsesInvalid | MaxPerEnvInvalid | StartupTimeoutInvalid

definition new_pool :: "int \<Rightarrow> int \<Rightarrow> int \<Rightarrow> int \<Rightarrow> pool_error + pool" where
  "new_pool max_workers max_uses max_env startup_s =
     (if max_workers \<le> 0 then Inl MaxWorkersInvalid
      else if max_uses < - 1 then Inl MaxUsesInvalid
      else if max_env = 0 \<or> max_env < - 1 then Inl MaxPerEnvInvalid
      else if startup_s \<le> 0 then Inl StartupTimeoutInvalid
      else Inr \<lparr>pl_max = max_workers, pl_max_uses = max_uses, pl_max_env = max_env,
             pl_startup_s = startup_s, pl_free = [], pl_busy = [], pl_starting = 0,
             pl_starting_env = [], pl_requests = 0, pl_timeouts = 0, pl_wait_total = 0,
             pl_wait_max = 0\<rparr>)"

text \<open>A call of \<open>get_worker\<close>; \<open>hash\<close> is SHA-256.\<close>

record request =
  rq_id :: nat
  rq_env :: pystr
  rq_header :: pystr
  rq_hash :: pystr
  rq_started :: int
  rq_deadline :: int

definition new_request :: "(pystr \<Rightarrow> pystr) \<Rightarrow> nat \<Rightarrow> pystr \<Rightarrow> pystr \<Rightarrow> int \<Rightarrow> int \<Rightarrow> request" where
  "new_request hash i env header now timeout =
     \<lparr>rq_id = i, rq_env = env, rq_header = header, rq_hash = hash header, rq_started = now,
      rq_deadline = now + timeout\<rparr>"

section \<open>Operations\<close>

definition env_count :: "pystr \<Rightarrow> lease list \<Rightarrow> int" where
  "env_count env ls = int (length (filter (\<lambda>l. ls_env l = env) ls))"

definition total_workers :: "pool \<Rightarrow> int" where
  "total_workers p = int (length (pl_free p)) + int (length (pl_busy p)) + pl_starting p"

definition active_env :: "pystr \<Rightarrow> pool \<Rightarrow> int" where
  "active_env env p = env_count env (pl_free p @ pl_busy p) + dget_or (pl_starting_env p) env 0"

definition can_start :: "pystr \<Rightarrow> pool \<Rightarrow> bool" where
  "can_start env p \<longleftrightarrow> pl_max_env p < 0 \<or> active_env env p < pl_max_env p"

text \<open>\<open>min(leases, key=last_used_at)\<close>: the first of the minimal ones.\<close>

fun least_used :: "lease list \<Rightarrow> lease option" where
  "least_used [] = None"
| "least_used (l # ls) = (case least_used ls of None \<Rightarrow> Some l
     | Some m \<Rightarrow> if ls_used l \<le> ls_used m then Some l else Some m)"

definition worker_to_close :: "pystr \<Rightarrow> bool \<Rightarrow> pool \<Rightarrow> lease option" where
  "worker_to_close env startable p =
     (if startable then least_used (pl_free p)
      else least_used (filter (\<lambda>l. ls_env l = env) (pl_free p)))"

definition mark_starting :: "pystr \<Rightarrow> pool \<Rightarrow> pool" where
  "mark_starting env p = p\<lparr>pl_starting := pl_starting p + 1,
     pl_starting_env := dset env (dget_or (pl_starting_env p) env 0 + 1) (pl_starting_env p)\<rparr>"

definition unmark_starting :: "pystr \<Rightarrow> pool \<Rightarrow> pool" where
  "unmark_starting env p =
     (let count = dget_or (pl_starting_env p) env 0
      in p\<lparr>pl_starting := pl_starting p - 1,
           pl_starting_env := (if count \<le> 1 then dpop env (pl_starting_env p)
                               else dset env (count - 1) (pl_starting_env p))\<rparr>)"

definition record_wait :: "int \<Rightarrow> int \<Rightarrow> bool \<Rightarrow> pool \<Rightarrow> pool" where
  "record_wait started now timed_out p =
     (let wait = max (now - started) 0
      in p\<lparr>pl_wait_total := pl_wait_total p + wait, pl_wait_max := max (pl_wait_max p) wait,
           pl_timeouts := pl_timeouts p + (if timed_out then 1 else 0)\<rparr>)"

text \<open>The scan of the free list: the first lease of the same environment and header, popped.\<close>

fun pop_matching :: "pystr \<Rightarrow> pystr \<Rightarrow> lease list \<Rightarrow> (lease \<times> lease list) option" where
  "pop_matching env hash [] = None"
| "pop_matching env hash (l # ls) =
     (if ls_env l = env \<and> ls_hash l = hash then Some (l, ls)
      else map_option (\<lambda>(m, rest). (m, l # rest)) (pop_matching env hash ls))"

datatype lease_decision = Leased lease | StartNew "lease option" | KeepWaiting | NoWorker

text \<open>One pass of the loop of \<open>get_worker\<close> under the condition.\<close>

definition attempt :: "request \<Rightarrow> int \<Rightarrow> pool \<Rightarrow> lease_decision \<times> pool" where
  "attempt rq now p =
     (case pop_matching (rq_env rq) (rq_hash rq) (pl_free p) of
        Some (l, rest) \<Rightarrow>
          (Leased l, record_wait (rq_started rq) now False (p\<lparr>pl_free := rest, pl_busy := l # pl_busy p\<rparr>))
      | None \<Rightarrow>
          if total_workers p < pl_max p \<and> can_start (rq_env rq) p
          then (StartNew None, mark_starting (rq_env rq) p)
          else (case worker_to_close (rq_env rq) (can_start (rq_env rq) p) p of
              Some l \<Rightarrow> (StartNew (Some l),
                 mark_starting (rq_env rq) (p\<lparr>pl_free := remove1 l (pl_free p)\<rparr>))
            | None \<Rightarrow>
                if rq_deadline rq - now \<le> 0
                then (NoWorker, record_wait (rq_started rq) now True p)
                else (KeepWaiting, p)))"

definition new_lease :: "request \<Rightarrow> nat \<Rightarrow> int \<Rightarrow> lease" where
  "new_lease rq i now = \<lparr>ls_id = i, ls_env = rq_env rq, ls_header = rq_header rq,
     ls_hash = rq_hash rq, ls_used = now, ls_uses = 0\<rparr>"

definition start_done :: "request \<Rightarrow> lease \<Rightarrow> int \<Rightarrow> pool \<Rightarrow> pool" where
  "start_done rq l now p =
     record_wait (rq_started rq) now False
       ((unmark_starting (rq_env rq) p)\<lparr>pl_busy := l # pl_busy p\<rparr>)"

definition start_failed :: "request \<Rightarrow> int \<Rightarrow> pool \<Rightarrow> pool" where
  "start_failed rq now p = record_wait (rq_started rq) now False (unmark_starting (rq_env rq) p)"

definition is_exhausted :: "lease \<Rightarrow> pool \<Rightarrow> bool" where
  "is_exhausted l p \<longleftrightarrow> \<not> pl_max_uses p < 0 \<and> pl_max_uses p \<le> ls_uses l"

fun take_lease :: "nat \<Rightarrow> lease list \<Rightarrow> (lease \<times> lease list) option" where
  "take_lease i [] = None"
| "take_lease i (l # ls) =
     (if ls_id l = i then Some (l, ls)
      else map_option (\<lambda>(m, rest). (m, l # rest)) (take_lease i ls))"

text \<open>\<open>release_worker\<close>: the new pool and whether the worker is closed; an unknown lease changes nothing.\<close>

definition release_worker :: "nat \<Rightarrow> int \<Rightarrow> pool \<Rightarrow> pool \<times> bool" where
  "release_worker i now p =
     (case take_lease i (pl_busy p) of
        None \<Rightarrow> (p, False)
      | Some (l, rest) \<Rightarrow>
          (let used = l\<lparr>ls_uses := ls_uses l + 1\<rparr>
           in if is_exhausted used p then (p\<lparr>pl_busy := rest\<rparr>, True)
              else (p\<lparr>pl_busy := rest, pl_free := pl_free p @ [used\<lparr>ls_used := now\<rparr>]\<rparr>, False)))"

definition destroy_worker :: "nat \<Rightarrow> pool \<Rightarrow> pool \<times> bool" where
  "destroy_worker i p =
     (p\<lparr>pl_busy := filter (\<lambda>l. ls_id l \<noteq> i) (pl_busy p), pl_free := filter (\<lambda>l. ls_id l \<noteq> i) (pl_free p)\<rparr>,
      i \<in> ls_id ` set (pl_busy p @ pl_free p))"

definition cleanup_pool :: "pool \<Rightarrow> pool" where
  "cleanup_pool p = p\<lparr>pl_free := [], pl_busy := []\<rparr>"

definition count_env :: "lease list \<Rightarrow> (pystr, int) pydict" where
  "count_env ls = foldl (\<lambda>d l. dset (ls_env l) (dget_or d (ls_env l) 0 + 1) d) [] ls"

definition workers_by_env :: "pool \<Rightarrow> (pystr, int) pydict" where
  "workers_by_env p = foldl (\<lambda>d (env, n). dset env (dget_or d env 0 + n) d)
     (count_env (pl_free p @ pl_busy p)) (pl_starting_env p)"

record pool_stats =
  pst_free :: int
  pst_busy :: int
  pst_starting :: int
  pst_total :: int
  pst_by_env :: "(pystr, int) pydict"
  pst_requests :: int
  pst_timeouts :: int
  pst_wait_total :: int
  pst_wait_max :: int

definition pool_stats_of :: "pool \<Rightarrow> pool_stats" where
  "pool_stats_of p =
     \<lparr>pst_free = int (length (pl_free p)), pst_busy = int (length (pl_busy p)),
      pst_starting = dsum (\<lambda>n. n) (pl_starting_env p),
      pst_total = int (length (pl_free p)) + int (length (pl_busy p)) + dsum (\<lambda>n. n) (pl_starting_env p),
      pst_by_env = workers_by_env p, pst_requests = pl_requests p, pst_timeouts = pl_timeouts p,
      pst_wait_total = pl_wait_total p, pst_wait_max = pl_wait_max p\<rparr>"

section \<open>The system around the pool\<close>

record pool_sys =
  ps_pool :: pool
  ps_waiting :: "request list"
  ps_woken :: "request list"
  ps_starters :: "(request \<times> lease option) list"

definition notify_pool :: "pool_sys \<Rightarrow> pool_sys" where
  "notify_pool s = (case ps_waiting s of [] \<Rightarrow> s
     | rq # rqs \<Rightarrow> s\<lparr>ps_waiting := rqs, ps_woken := ps_woken s @ [rq]\<rparr>)"

definition serve :: "request \<Rightarrow> int \<Rightarrow> pool_sys \<Rightarrow> pool_sys" where
  "serve rq now s =
     (let (d, p) = attempt rq now (ps_pool s); s = s\<lparr>ps_pool := p\<rparr>
      in case d of
           StartNew closing \<Rightarrow> s\<lparr>ps_starters := (rq, closing) # ps_starters s\<rparr>
         | KeepWaiting \<Rightarrow> s\<lparr>ps_waiting := ps_waiting s @ [rq]\<rparr>
         | _ \<Rightarrow> s)"

definition drop_waiter :: "request \<Rightarrow> pool_sys \<Rightarrow> pool_sys" where
  "drop_waiter rq s =
     (if rq \<in> set (ps_waiting s) then s\<lparr>ps_waiting := remove1 rq (ps_waiting s)\<rparr>
      else s\<lparr>ps_woken := remove1 rq (ps_woken s)\<rparr>)"

definition drop_starter :: "request \<times> lease option \<Rightarrow> pool_sys \<Rightarrow> pool_sys" where
  "drop_starter rc s = s\<lparr>ps_starters := remove1 rc (ps_starters s)\<rparr>"

definition map_pool :: "(pool \<Rightarrow> pool) \<Rightarrow> pool_sys \<Rightarrow> pool_sys" where
  "map_pool f s = s\<lparr>ps_pool := f (ps_pool s)\<rparr>"

definition lease_ids :: "pool \<Rightarrow> nat list" where
  "lease_ids p = map ls_id (pl_free p @ pl_busy p)"

text \<open>
  The rule \<open>pool_aborted\<close> is a request that ends while it starts a worker without reaching either of
  the code's two endings: \<open>_close_worker\<close> raises, which happens before the \<open>try\<close>, or the task is
  cancelled, which \<open>except Exception\<close> does not catch.
\<close>

inductive pool_step :: "pool_sys \<Rightarrow> pool_sys \<Rightarrow> bool" where
  pool_request: "pool_step s
     (serve rq now (map_pool (\<lambda>p. p\<lparr>pl_requests := pl_requests p + 1\<rparr>) s))"
| pool_resume: "rq \<in> set (ps_woken s) \<Longrightarrow>
     pool_step s (serve rq now (s\<lparr>ps_woken := remove1 rq (ps_woken s)\<rparr>))"
| pool_timeout: "rq \<in> set (ps_waiting s @ ps_woken s) \<Longrightarrow>
     pool_step s (map_pool (record_wait (rq_started rq) now True) (drop_waiter rq s))"
| pool_cancelled: "rq \<in> set (ps_waiting s @ ps_woken s) \<Longrightarrow> pool_step s (drop_waiter rq s)"
| pool_started: "(rq, c) \<in> set (ps_starters s) \<Longrightarrow> i \<notin> set (lease_ids (ps_pool s)) \<Longrightarrow>
     pool_step s (notify_pool (map_pool (start_done rq (new_lease rq i made) now)
       (drop_starter (rq, c) s)))"
| pool_start_failed: "(rq, c) \<in> set (ps_starters s) \<Longrightarrow>
     pool_step s (notify_pool (map_pool (start_failed rq now) (drop_starter (rq, c) s)))"
| pool_aborted: "(rq, c) \<in> set (ps_starters s) \<Longrightarrow> pool_step s (drop_starter (rq, c) s)"
| pool_release: "i \<in> ls_id ` set (pl_busy (ps_pool s)) \<Longrightarrow>
     pool_step s (notify_pool (map_pool (\<lambda>p. fst (release_worker i now p)) s))"
| pool_destroy: "pool_step s (notify_pool (map_pool (\<lambda>p. fst (destroy_worker i p)) s))"
| pool_cleanup: "pool_step s (map_pool cleanup_pool
     (s\<lparr>ps_waiting := [], ps_woken := ps_woken s @ ps_waiting s\<rparr>))"
| pool_notify: "pool_step s (notify_pool s)"

inductive_cases pool_stepE: "pool_step s s'"

definition empty_sys :: "pool \<Rightarrow> pool_sys" where
  "empty_sys p = \<lparr>ps_pool = p, ps_waiting = [], ps_woken = [], ps_starters = []\<rparr>"

section \<open>Invariant\<close>

definition starting_ok :: "pool \<Rightarrow> bool" where
  "starting_ok p \<longleftrightarrow> dwf (pl_starting_env p) \<and>
     (\<forall>e n. dget (pl_starting_env p) e = Some n \<longrightarrow> 1 \<le> n) \<and>
     dsum (\<lambda>n. n) (pl_starting_env p) = pl_starting p"

definition caps_ok :: "pool \<Rightarrow> bool" where
  "caps_ok p \<longleftrightarrow> total_workers p \<le> pl_max p \<and>
     (0 \<le> pl_max_env p \<longrightarrow> (\<forall>e. active_env e p \<le> pl_max_env p))"

definition ids_ok :: "pool \<Rightarrow> bool" where
  "ids_ok p \<longleftrightarrow> distinct (lease_ids p)"

definition pool_inv :: "pool \<Rightarrow> bool" where
  "pool_inv p \<longleftrightarrow> starting_ok p \<and> caps_ok p \<and> ids_ok p"

definition starters_env :: "pystr \<Rightarrow> (request \<times> lease option) list \<Rightarrow> int" where
  "starters_env env rcs = int (length (filter (\<lambda>rc. rq_env (fst rc) = env) rcs))"

definition sys_inv :: "pool_sys \<Rightarrow> bool" where
  "sys_inv s \<longleftrightarrow> pool_inv (ps_pool s) \<and>
     (\<forall>e. starters_env e (ps_starters s) \<le> dget_or (pl_starting_env (ps_pool s)) e 0)"

lemma env_count_simps [simp]:
  "env_count e [] = 0"
  "env_count e (l # ls) = (if ls_env l = e then 1 else 0) + env_count e ls"
  "env_count e (ls @ ls') = env_count e ls + env_count e ls'"
  by (simp_all add: env_count_def)

lemma env_count_nonneg [simp]: "0 \<le> env_count e ls"
  by (simp add: env_count_def)

lemma env_count_remove1:
  "l \<in> set ls \<Longrightarrow> env_count e (remove1 l ls) = env_count e ls - (if ls_env l = e then 1 else 0)"
  by (induction ls) auto

lemma starting_nonneg: "starting_ok p \<Longrightarrow> 0 \<le> dget_or (pl_starting_env p) e 0"
  by (force simp: starting_ok_def dget_or_def split: option.splits)

lemma mark_starting_ok: "starting_ok p \<Longrightarrow> starting_ok (mark_starting e p)"
  by (force simp: starting_ok_def mark_starting_def dget_or_def dsum_dset_new dsum_dset_old
      split: option.splits)

lemma unmark_starting_ok:
  assumes "starting_ok p" "1 \<le> dget_or (pl_starting_env p) e 0"
  shows "starting_ok (unmark_starting e p)"
proof -
  from assms obtain n where n: "dget (pl_starting_env p) e = Some n" "1 \<le> n"
    by (auto simp: dget_or_def split: option.splits)
  then show ?thesis using assms(1)
    by (cases "n \<le> 1") (auto simp: starting_ok_def unmark_starting_def dget_or_def dsum_dpop
        dsum_dset_old)
qed

lemma unmark_starting_get:
  assumes "starting_ok p"
  shows "dget_or (pl_starting_env (unmark_starting e p)) e' 0 =
    (if e' = e then max (dget_or (pl_starting_env p) e 0 - 1) 0 else dget_or (pl_starting_env p) e' 0)"
  using starting_nonneg [OF assms, of e]
  by (auto simp: unmark_starting_def dget_or_def Let_def split: option.splits)

lemma mark_starting_get:
  "dget_or (pl_starting_env (mark_starting e p)) e' 0 =
    dget_or (pl_starting_env p) e' 0 + (if e' = e then 1 else 0)"
  by (auto simp: mark_starting_def dget_or_def)

lemma mark_frame [simp]:
  "pl_free (mark_starting e p) = pl_free p" "pl_busy (mark_starting e p) = pl_busy p"
  "pl_max (mark_starting e p) = pl_max p" "pl_max_env (mark_starting e p) = pl_max_env p"
  "pl_starting (mark_starting e p) = pl_starting p + 1"
  by (simp_all add: mark_starting_def)

lemma unmark_frame [simp]:
  "pl_free (unmark_starting e p) = pl_free p" "pl_busy (unmark_starting e p) = pl_busy p"
  "pl_max (unmark_starting e p) = pl_max p" "pl_max_env (unmark_starting e p) = pl_max_env p"
  "pl_starting (unmark_starting e p) = pl_starting p - 1"
  by (simp_all add: unmark_starting_def Let_def)

text \<open>The counters of waits and requests are irrelevant to the invariant.\<close>

lemma pool_inv_cong:
  assumes "pl_free p' = pl_free p" "pl_busy p' = pl_busy p" "pl_starting p' = pl_starting p"
    and "pl_starting_env p' = pl_starting_env p" "pl_max p' = pl_max p" "pl_max_env p' = pl_max_env p"
  shows "pool_inv p' = pool_inv p"
  by (simp add: assms pool_inv_def starting_ok_def caps_ok_def ids_ok_def lease_ids_def
      total_workers_def active_env_def)

lemma record_wait_frame [simp]:
  "pl_free (record_wait a b c p) = pl_free p" "pl_busy (record_wait a b c p) = pl_busy p"
  "pl_starting (record_wait a b c p) = pl_starting p"
  "pl_starting_env (record_wait a b c p) = pl_starting_env p"
  "pl_max (record_wait a b c p) = pl_max p" "pl_max_env (record_wait a b c p) = pl_max_env p"
  by (simp_all add: record_wait_def Let_def)

lemma record_wait_inv [simp]: "pool_inv (record_wait a b c p) = pool_inv p"
  by (rule pool_inv_cong) simp_all

section \<open>Steps keep the invariant\<close>

lemma pop_matching_Some:
  "pop_matching e h ls = Some (l, rest) \<Longrightarrow>
     ls_env l = e \<and> ls_hash l = h \<and> l \<in> set ls \<and> mset ls = add_mset l (mset rest) \<and>
     (\<exists>before. ls = before @ l # drop (length before) rest \<and>
        (\<forall>m\<in>set before. \<not> (ls_env m = e \<and> ls_hash m = h)))"
proof (induction ls arbitrary: rest)
  case (Cons m ls)
  show ?case
  proof (cases "ls_env m = e \<and> ls_hash m = h")
    case True
    with Cons.prems show ?thesis by (auto intro: exI [of _ "[]"])
  next
    case False
    with Cons.prems obtain rest' where r: "pop_matching e h ls = Some (l, rest')" "rest = m # rest'"
      by auto
    from Cons.IH [OF r(1)] obtain before where "ls = before @ l # drop (length before) rest'"
      "\<forall>m\<in>set before. \<not> (ls_env m = e \<and> ls_hash m = h)" by blast
    with False r Cons.IH [OF r(1)] show ?thesis
      by (auto intro!: exI [of _ "m # before"])
  qed
qed simp

lemma pop_matching_None:
  "pop_matching e h ls = None \<longleftrightarrow> (\<forall>l\<in>set ls. \<not> (ls_env l = e \<and> ls_hash l = h))"
  by (induction ls) auto

lemma least_used_Some:
  "least_used ls = Some l \<Longrightarrow> l \<in> set ls \<and> (\<forall>m\<in>set ls. ls_used l \<le> ls_used m)"
proof (induction ls arbitrary: l)
  case (Cons k ls)
  show ?case
  proof (cases "least_used ls")
    case None
    with Cons.prems show ?thesis by (cases ls) (auto split: option.splits if_splits)
  next
    case (Some m)
    with Cons.prems Cons.IH [OF Some] show ?thesis by (auto split: if_splits)
  qed
qed simp

lemma least_used_None: "least_used ls = None \<longleftrightarrow> ls = []"
  by (cases ls) (auto split: option.splits)

lemma env_count_mset: "env_count e ls = int (size (filter_mset (\<lambda>l. ls_env l = e) (mset ls)))"
  by (simp add: env_count_def flip: mset_filter)

lemma worker_to_close_Some:
  "worker_to_close env st p = Some l \<Longrightarrow> l \<in> set (pl_free p) \<and> (st \<or> ls_env l = env) \<and>
     (\<forall>m\<in>set (pl_free p). st \<or> ls_env m = env \<longrightarrow> ls_used l \<le> ls_used m)"
  by (auto simp: worker_to_close_def dest!: least_used_Some split: if_splits)

lemma distinct_mset_sub: "mset xs \<subseteq># mset ys \<Longrightarrow> distinct ys \<Longrightarrow> distinct xs"
proof -
  assume sub: "mset xs \<subseteq># mset ys" and d: "distinct ys"
  have "count (mset xs) a = (if a \<in> set xs then 1 else 0)" for a
  proof (cases "a \<in> set xs")
    case True
    then have "0 < count (mset xs) a" by simp
    moreover have "count (mset xs) a \<le> count (mset ys) a" using sub by (rule mset_subset_eq_count)
    moreover have "count (mset ys) a \<le> 1" using d by (simp add: distinct_count_atmost_1)
    ultimately have "count (mset xs) a = 1" by linarith
    then show ?thesis using True by simp
  qed simp
  then show "distinct xs" by (simp add: distinct_count_atmost_1)
qed

lemma distinct_map_drop: "distinct (map f (xs @ ys)) \<Longrightarrow> distinct (map f (remove1 x xs @ ys))"
  by (erule distinct_mset_sub [rotated])
    (metis diff_subset_eq_self image_mset_subseteq_mono mset_append mset_map mset_remove1
      subset_mset.add_le_cancel_right)

lemma lease_move_inv:
  assumes "pool_inv p" "mset (pl_free p) = add_mset l (mset rest)"
  shows "pool_inv (p\<lparr>pl_free := rest, pl_busy := l # pl_busy p\<rparr>)"
proof -
  have "mset (lease_ids (p\<lparr>pl_free := rest, pl_busy := l # pl_busy p\<rparr>)) = mset (lease_ids p)"
    using assms(2) by (simp add: lease_ids_def)
  then have "ids_ok (p\<lparr>pl_free := rest, pl_busy := l # pl_busy p\<rparr>)"
    using assms(1) by (metis ids_ok_def mset_eq_imp_distinct_iff pool_inv_def)
  moreover have "total_workers (p\<lparr>pl_free := rest, pl_busy := l # pl_busy p\<rparr>) = total_workers p"
    using arg_cong [OF assms(2), of size] by (simp add: total_workers_def)
  moreover have "active_env e (p\<lparr>pl_free := rest, pl_busy := l # pl_busy p\<rparr>) = active_env e p" for e
    unfolding active_env_def env_count_mset using assms(2) by simp
  ultimately show ?thesis
    using assms(1) by (simp add: pool_inv_def starting_ok_def caps_ok_def)
qed

lemma start_plain_inv:
  assumes "pool_inv p" "total_workers p < pl_max p" "can_start e p"
  shows "pool_inv (mark_starting e p)"
proof -
  have "active_env e' (mark_starting e p) = active_env e' p + (if e' = e then 1 else 0)" for e'
    by (simp add: active_env_def mark_starting_get)
  then show ?thesis
    using assms by (auto simp: pool_inv_def mark_starting_ok caps_ok_def ids_ok_def lease_ids_def
        total_workers_def can_start_def)
qed

lemma evict_inv:
  assumes "pool_inv p" "worker_to_close e (can_start e p) p = Some l"
  shows "pool_inv (mark_starting e (p\<lparr>pl_free := remove1 l (pl_free p)\<rparr>))" (is "pool_inv ?p")
proof -
  have l: "l \<in> set (pl_free p)" "can_start e p \<or> ls_env l = e"
    using worker_to_close_Some [OF assms(2)] by auto
  have len: "int (length (remove1 l (pl_free p))) = int (length (pl_free p)) - 1"
    using l(1) by (rule remove1_facts)
  have act: "active_env e' ?p = active_env e' p + (if e' = e then 1 else 0) -
      (if ls_env l = e' then 1 else 0)" for e'
    using l(1) by (simp add: active_env_def mark_starting_get env_count_remove1)
  have "active_env e' ?p \<le> pl_max_env p" if "0 \<le> pl_max_env p" for e'
  proof -
    have "active_env e' p \<le> pl_max_env p" using assms(1) that by (simp add: pool_inv_def caps_ok_def)
    then show ?thesis using l(2) that by (auto simp: act can_start_def)
  qed
  then have "caps_ok ?p"
    using assms(1) len by (simp add: pool_inv_def caps_ok_def total_workers_def)
  moreover have "ids_ok ?p"
    using assms(1) by (auto simp: pool_inv_def ids_ok_def lease_ids_def simp del: map_append
      dest: distinct_map_drop [where x = l])
  moreover have "starting_ok ?p"
    using assms(1) by (intro mark_starting_ok) (simp add: pool_inv_def starting_ok_def)
  ultimately show ?thesis by (simp add: pool_inv_def)
qed

lemma env_count_subset: "mset ls' \<subseteq># mset ls \<Longrightarrow> env_count e ls' \<le> env_count e ls"
  unfolding env_count_mset by (simp add: multiset_filter_mono size_mset_mono)

text \<open>Dropping leases, or replacing one by an updated copy, keeps the invariant.\<close>

lemma fewer_leases_inv:
  assumes "pool_inv p" "mset (map (\<lambda>l. (ls_id l, ls_env l)) (pl_free p' @ pl_busy p')) \<subseteq>#
      mset (map (\<lambda>l. (ls_id l, ls_env l)) (pl_free p @ pl_busy p))"
    and "pl_starting p' = pl_starting p" "pl_starting_env p' = pl_starting_env p"
    and "pl_max p' = pl_max p" "pl_max_env p' = pl_max_env p"
  shows "pool_inv p'"
proof -
  have env: "env_count e ls = int (size (filter_mset (\<lambda>q. snd q = e)
      (mset (map (\<lambda>l. (ls_id l, ls_env l)) ls))))" for e ls
    by (induction ls) auto
  have ids: "mset (lease_ids q) = image_mset fst (mset (map (\<lambda>l. (ls_id l, ls_env l)) (pl_free q @ pl_busy q)))"
    for q by (simp add: lease_ids_def image_mset.compositionality comp_def)
  have "mset (lease_ids p') \<subseteq># mset (lease_ids p)"
    unfolding ids using assms(2) by (rule image_mset_subseteq_mono)
  then have "ids_ok p'"
    using assms(1) unfolding pool_inv_def ids_ok_def
    by (blast intro: distinct_mset_sub)
  moreover have "length (pl_free p' @ pl_busy p') \<le> length (pl_free p @ pl_busy p)"
    using size_mset_mono [OF assms(2)] by (simp only: size_mset length_map)
  moreover have "env_count e (pl_free p' @ pl_busy p') \<le> env_count e (pl_free p @ pl_busy p)" for e
    unfolding env using assms(2) by (simp only: of_nat_le_iff size_mset_mono multiset_filter_mono)
  then have "active_env e p' \<le> active_env e p" for e by (simp only: active_env_def assms(4) add_right_mono)
  moreover have "total_workers p' \<le> total_workers p"
    using \<open>length _ \<le> length _\<close> by (simp add: total_workers_def assms(3))
  ultimately show ?thesis
    using assms(1,3-) \<open>\<And>e. active_env e p' \<le> active_env e p\<close>
    by (simp add: pool_inv_def starting_ok_def caps_ok_def) (meson order_trans)
qed

lemma take_lease_Some:
  "take_lease i ls = Some (l, rest) \<Longrightarrow> ls_id l = i \<and> mset ls = add_mset l (mset rest)"
  by (induction ls arbitrary: rest) (auto split: if_splits)

lemma take_lease_None: "take_lease i ls = None \<longleftrightarrow> i \<notin> ls_id ` set ls"
  by (induction ls) auto

lemma release_frame [simp]:
  "pl_starting_env (fst (release_worker i now p)) = pl_starting_env p"
  "pl_starting (fst (release_worker i now p)) = pl_starting p"
  "pl_max (fst (release_worker i now p)) = pl_max p"
  "pl_max_env (fst (release_worker i now p)) = pl_max_env p"
  by (auto simp: release_worker_def Let_def split: option.splits)

lemma destroy_frame [simp]:
  "pl_starting_env (fst (destroy_worker i p)) = pl_starting_env p"
  "pl_starting (fst (destroy_worker i p)) = pl_starting p"
  "pl_max (fst (destroy_worker i p)) = pl_max p"
  "pl_max_env (fst (destroy_worker i p)) = pl_max_env p"
  by (simp_all add: destroy_worker_def)

lemma release_inv: "pool_inv p \<Longrightarrow> pool_inv (fst (release_worker i now p))"
proof (cases "take_lease i (pl_busy p)")
  case None
  then show "pool_inv p \<Longrightarrow> pool_inv (fst (release_worker i now p))" by (simp add: release_worker_def)
next
  case (Some lr)
  obtain l rest where lr: "lr = (l, rest)" by force
  assume inv: "pool_inv p"
  have m: "mset (pl_busy p) = add_mset l (mset rest)"
    using take_lease_Some Some lr by simp
  show ?thesis
    by (rule fewer_leases_inv [OF inv]) (simp_all add: release_worker_def Some lr Let_def m)
qed

lemma filter_leases_subset: "mset (map f (filter P xs)) \<subseteq># mset (map f xs)"
  by (metis image_mset_subseteq_mono mset_filter mset_map multiset_filter_subset)

lemma destroy_inv: "pool_inv p \<Longrightarrow> pool_inv (fst (destroy_worker i p))"
  by (rule fewer_leases_inv)
    (simp_all add: destroy_worker_def subset_mset.add_mono filter_leases_subset flip: mset_map)

lemma cleanup_inv: "pool_inv p \<Longrightarrow> pool_inv (cleanup_pool p)"
  by (rule fewer_leases_inv) (simp_all add: cleanup_pool_def)

lemma unmark_inv:
  assumes "pool_inv p" "1 \<le> dget_or (pl_starting_env p) e 0"
  shows "pool_inv (unmark_starting e p)"
proof -
  have st: "starting_ok p" using assms(1) by (simp add: pool_inv_def)
  have act: "active_env e' (unmark_starting e p) \<le> active_env e' p" for e'
    using assms(2) by (auto simp: active_env_def unmark_starting_get [OF st])
  then show ?thesis
    using assms(1) unmark_starting_ok [OF st assms(2)]
    by (auto simp: pool_inv_def caps_ok_def total_workers_def ids_ok_def lease_ids_def
        intro: order_trans [OF act])
qed

lemma start_done_inv:
  assumes "pool_inv p" "1 \<le> dget_or (pl_starting_env p) (rq_env rq) 0" "i \<notin> set (lease_ids p)"
  shows "pool_inv (start_done rq (new_lease rq i made) now p)"
proof -
  have st: "starting_ok p" using assms(1) by (simp add: pool_inv_def)
  let ?p = "(unmark_starting (rq_env rq) p)\<lparr>pl_busy := new_lease rq i made # pl_busy p\<rparr>"
  have act: "active_env e ?p = active_env e p" for e
    using assms(2) by (auto simp: active_env_def unmark_starting_get [OF st] new_lease_def)
  have "pool_inv ?p"
    using assms act unmark_starting_ok [OF st assms(2)]
    by (simp add: pool_inv_def caps_ok_def total_workers_def ids_ok_def lease_ids_def starting_ok_def
        new_lease_def)
  then show ?thesis by (simp add: start_done_def)
qed

lemma start_env [simp]:
  "pl_starting_env (start_done rq l now p) = pl_starting_env (unmark_starting (rq_env rq) p)"
  "pl_starting_env (start_failed rq now p) = pl_starting_env (unmark_starting (rq_env rq) p)"
  by (simp_all add: start_done_def start_failed_def)

lemma start_failed_inv:
  "pool_inv p \<Longrightarrow> 1 \<le> dget_or (pl_starting_env p) (rq_env rq) 0 \<Longrightarrow> pool_inv (start_failed rq now p)"
  by (simp add: start_failed_def unmark_inv)

text \<open>What one pass of \<open>get_worker\<close> decides, and that it keeps the invariant.\<close>

lemma attempt_inv: "pool_inv p \<Longrightarrow> pool_inv (snd (attempt rq now p))"
  unfolding attempt_def
  by (auto split: option.splits simp: start_plain_inv evict_inv
      dest!: pop_matching_Some intro: lease_move_inv)

lemma attempt_starting:
  "dget_or (pl_starting_env (snd (attempt rq now p))) e 0 = dget_or (pl_starting_env p) e 0 +
     (case fst (attempt rq now p) of StartNew c \<Rightarrow> if e = rq_env rq then 1 else 0 | _ \<Rightarrow> 0)"
  unfolding attempt_def by (auto split: option.splits simp: mark_starting_get)

lemma starters_env_simps [simp]:
  "starters_env e [] = 0"
  "starters_env e (rc # rcs) = (if rq_env (fst rc) = e then 1 else 0) + starters_env e rcs"
  by (simp_all add: starters_env_def)

lemma starters_env_remove1:
  "rc \<in> set rcs \<Longrightarrow> starters_env e (remove1 rc rcs) =
     starters_env e rcs - (if rq_env (fst rc) = e then 1 else 0)"
  by (induction rcs) auto

lemma starters_env_remove_le: "starters_env e (remove1 rc rcs) \<le> starters_env e rcs"
  by (cases "rc \<in> set rcs") (simp_all add: starters_env_remove1 remove1_idem)

lemma starters_env_nonneg [simp]: "0 \<le> starters_env e rcs"
  by (simp add: starters_env_def)

lemma serve_inv:
  assumes "sys_inv s"
  shows "sys_inv (serve rq now s)"
proof -
  have "pool_inv (snd (attempt rq now (ps_pool s)))"
    using assms by (intro attempt_inv) (simp add: sys_inv_def)
  then show ?thesis
    using assms attempt_starting [of rq now "ps_pool s"]
    by (auto simp: serve_def Let_def sys_inv_def case_prod_beta split: lease_decision.splits)
qed

lemma notify_pool_inv [simp]: "sys_inv (notify_pool s) = sys_inv s"
  by (simp add: notify_pool_def sys_inv_def split: list.splits)

lemma sys_inv_waiters [simp]:
  "sys_inv (s\<lparr>ps_waiting := w\<rparr>) = sys_inv s" "sys_inv (s\<lparr>ps_woken := w\<rparr>) = sys_inv s"
  "sys_inv (drop_waiter rq s) = sys_inv s"
  by (simp_all add: sys_inv_def drop_waiter_def)

lemma map_pool_inv:
  assumes "sys_inv s" "pool_inv (f (ps_pool s))"
    and "pl_starting_env (f (ps_pool s)) = pl_starting_env (ps_pool s)"
  shows "sys_inv (map_pool f s)"
  using assms by (simp add: sys_inv_def map_pool_def)

lemma starter_counts:
  assumes "sys_inv s" "(rq, c) \<in> set (ps_starters s)"
  shows "1 \<le> dget_or (pl_starting_env (ps_pool s)) (rq_env rq) 0"
    "starters_env e (remove1 (rq, c) (ps_starters s)) \<le>
      dget_or (pl_starting_env (unmark_starting (rq_env rq) (ps_pool s))) e 0"
proof -
  have st: "starting_ok (ps_pool s)" using assms(1) by (simp add: sys_inv_def pool_inv_def)
  have le: "starters_env e (ps_starters s) \<le> dget_or (pl_starting_env (ps_pool s)) e 0" for e
    using assms(1) by (simp add: sys_inv_def)
  have "0 \<le> starters_env (rq_env rq) (remove1 (rq, c) (ps_starters s))" by simp
  then have "1 \<le> starters_env (rq_env rq) (ps_starters s)"
    using assms(2) by (simp only: starters_env_remove1) simp
  then show "1 \<le> dget_or (pl_starting_env (ps_pool s)) (rq_env rq) 0"
    using le [of "rq_env rq"] by simp
  show "starters_env e (remove1 (rq, c) (ps_starters s)) \<le>
      dget_or (pl_starting_env (unmark_starting (rq_env rq) (ps_pool s))) e 0"
    using le [of e] assms(2) by (auto simp: starters_env_remove1 unmark_starting_get [OF st])
qed

lemma pool_step_inv:
  assumes "sys_inv s" "pool_step s s'"
  shows "sys_inv s'"
  using assms(2)
proof (cases rule: pool_step.cases)
  case (pool_request rq now)
  have "sys_inv (map_pool (\<lambda>p. p\<lparr>pl_requests := pl_requests p + 1\<rparr>) s)"
    using assms(1) by (intro map_pool_inv) (auto simp: sys_inv_def intro: pool_inv_cong [THEN iffD2])
  with pool_request show ?thesis by (simp add: serve_inv)
next
  case (pool_started rq c i made now)
  have "pool_inv (start_done rq (new_lease rq i made) now (ps_pool s))"
    using assms(1) pool_started starter_counts [OF assms(1) pool_started(2)]
    by (intro start_done_inv) (simp_all add: sys_inv_def)
  then have "sys_inv (map_pool (start_done rq (new_lease rq i made) now) (drop_starter (rq, c) s))"
    using starter_counts [OF assms(1) pool_started(2)]
    by (simp add: sys_inv_def map_pool_def drop_starter_def)
  with pool_started(1) show ?thesis by simp
next
  case (pool_start_failed rq c now)
  have "pool_inv (start_failed rq now (ps_pool s))"
    using assms(1) starter_counts [OF assms(1) pool_start_failed(2)]
    by (intro start_failed_inv) (simp_all add: sys_inv_def)
  then have "sys_inv (map_pool (start_failed rq now) (drop_starter (rq, c) s))"
    using starter_counts [OF assms(1) pool_start_failed(2)]
    by (simp add: sys_inv_def map_pool_def drop_starter_def)
  with pool_start_failed(1) show ?thesis by simp
next
  case (pool_aborted rq c)
  then show ?thesis using assms(1) starters_env_remove_le
    by (simp add: sys_inv_def drop_starter_def) (meson order_trans)
next
  case (pool_release i now)
  have "sys_inv (map_pool (\<lambda>p. fst (release_worker i now p)) s)"
    using assms(1) by (intro map_pool_inv) (simp_all add: sys_inv_def release_inv)
  with pool_release(1) show ?thesis by simp
next
  case (pool_destroy i)
  have "sys_inv (map_pool (\<lambda>p. fst (destroy_worker i p)) s)"
    using assms(1) by (intro map_pool_inv) (simp_all add: sys_inv_def destroy_inv)
  with pool_destroy show ?thesis by simp
next
  case pool_cleanup
  have "sys_inv (map_pool cleanup_pool (s\<lparr>ps_waiting := [], ps_woken := ps_woken s @ ps_waiting s\<rparr>))"
    using assms(1) by (intro map_pool_inv) (simp_all add: sys_inv_def cleanup_inv, simp add: cleanup_pool_def)
  with pool_cleanup show ?thesis by simp
next
  case (pool_timeout rq now)
  have "sys_inv (map_pool (record_wait (rq_started rq) now True) (drop_waiter rq s))"
    using assms(1) by (intro map_pool_inv) (simp_all add: sys_inv_def drop_waiter_def)
  with pool_timeout(1) show ?thesis by simp
qed (use assms(1) in \<open>simp_all add: serve_inv\<close>)

text \<open>The limits are fixed.\<close>

definition limits :: "pool_sys \<Rightarrow> int \<times> int" where
  "limits s = (pl_max (ps_pool s), pl_max_env (ps_pool s))"

lemma attempt_limits [simp]:
  "pl_max (snd (attempt rq now p)) = pl_max p" "pl_max_env (snd (attempt rq now p)) = pl_max_env p"
  unfolding attempt_def by (auto split: option.splits)

lemma ps_pool_simps [simp]:
  "ps_pool (notify_pool s) = ps_pool s" "ps_pool (drop_waiter rq s) = ps_pool s"
  "ps_pool (drop_starter rc s) = ps_pool s" "ps_pool (map_pool f s) = f (ps_pool s)"
  "ps_starters (notify_pool s) = ps_starters s" "ps_starters (map_pool f s) = ps_starters s"
  by (auto simp: notify_pool_def drop_waiter_def drop_starter_def map_pool_def split: list.splits)

lemma limits_map [simp]:
  "pl_max (f (ps_pool s)) = pl_max (ps_pool s) \<Longrightarrow> pl_max_env (f (ps_pool s)) = pl_max_env (ps_pool s) \<Longrightarrow>
   limits (map_pool f s) = limits s"
  by (simp add: limits_def)

lemma limits_simps [simp]:
  "limits (serve rq now s) = limits s" "limits (notify_pool s) = limits s"
  "limits (drop_waiter rq s) = limits s" "limits (drop_starter rc s) = limits s"
  "limits (s\<lparr>ps_waiting := w\<rparr>) = limits s" "limits (s\<lparr>ps_woken := w\<rparr>) = limits s"
  by (auto simp: limits_def serve_def notify_pool_def drop_waiter_def drop_starter_def map_pool_def
      Let_def case_prod_beta split: lease_decision.splits list.splits)

lemma pool_step_limits: "pool_step s s' \<Longrightarrow> limits s' = limits s"
  by (cases rule: pool_step.cases)
    (auto simp: start_done_def start_failed_def cleanup_pool_def)

interpretation leases: step_system pool_step sys_inv limits
  by unfold_locales (auto intro: pool_step_inv dest: pool_step_limits)

lemma reaches_pool_inv:
  assumes "new_pool m u c b = Inr p0" "reaches pool_step (empty_sys p0) s"
  shows "sys_inv s \<and> limits s = (m, c)"
proof -
  have "sys_inv (empty_sys p0) \<and> limits (empty_sys p0) = (m, c)"
    using assms(1) by (auto simp: new_pool_def empty_sys_def sys_inv_def pool_inv_def starting_ok_def caps_ok_def
        ids_ok_def lease_ids_def total_workers_def active_env_def dget_or_def limits_def split: if_splits)
  then show ?thesis using leases.reached [OF assms(2)] by simp
qed

text \<open>Starting slots that no task will give back.\<close>

definition leaked :: "pool_sys \<Rightarrow> int" where
  "leaked s = pl_starting (ps_pool s) - int (length (ps_starters s))"

lemma leaked_simps [simp]:
  "leaked (notify_pool s) = leaked s" "leaked (drop_waiter rq s) = leaked s"
  "leaked (s\<lparr>ps_waiting := w\<rparr>) = leaked s" "leaked (s\<lparr>ps_woken := w\<rparr>) = leaked s"
  "leaked (map_pool f s) = leaked s + pl_starting (f (ps_pool s)) - pl_starting (ps_pool s)"
  "rc \<in> set (ps_starters s) \<Longrightarrow> leaked (drop_starter rc s) = leaked s + 1"
  by (auto simp: leaked_def notify_pool_def drop_waiter_def drop_starter_def map_pool_def remove1_facts
      split: list.splits)

lemma serve_leaked [simp]: "leaked (serve rq now s) = leaked s"
  unfolding serve_def attempt_def leaked_def
  by (auto simp: Let_def split: option.splits)

lemma pool_step_leaked: "pool_step s s' \<Longrightarrow> leaked s \<le> leaked s'"
  by (cases rule: pool_step.cases)
    (auto simp: start_done_def start_failed_def cleanup_pool_def)

section \<open>Properties\<close>

text \<open>
  C16. Under every interleaving of requests, starts that succeed, fail or are aborted, releases,
  destructions and cleanups, the pool never holds more than \<open>max_workers\<close> workers (free, busy and
  starting) nor more than \<open>max_workers_per_env_profile\<close> of one environment, no lease is both free and
  busy or listed twice, and the reported number of workers is the real one.
\<close>

theorem pool_respects_caps:
  assumes "new_pool m u c b = Inr p0" "reaches pool_step (empty_sys p0) s"
  shows "total_workers (ps_pool s) \<le> m \<and> (0 \<le> c \<longrightarrow> active_env e (ps_pool s) \<le> c) \<and>
    distinct (map ls_id (pl_free (ps_pool s) @ pl_busy (ps_pool s))) \<and>
    pst_total (pool_stats_of (ps_pool s)) = total_workers (ps_pool s)"
proof -
  have inv: "pool_inv (ps_pool s)" and lim: "pl_max (ps_pool s) = m" "pl_max_env (ps_pool s) = c"
    using reaches_pool_inv [OF assms] by (simp_all add: sys_inv_def limits_def)
  then have "total_workers (ps_pool s) \<le> m" "0 \<le> c \<longrightarrow> active_env e (ps_pool s) \<le> c"
    by (auto simp: pool_inv_def caps_ok_def)
  moreover have "pst_total (pool_stats_of (ps_pool s)) = total_workers (ps_pool s)"
    using inv by (simp add: pool_inv_def starting_ok_def pool_stats_of_def total_workers_def)
  moreover have "distinct (map ls_id (pl_free (ps_pool s) @ pl_busy (ps_pool s)))"
    using inv by (simp only: pool_inv_def ids_ok_def lease_ids_def)
  ultimately show ?thesis by blast
qed

text \<open>
  A pool of two workers, one per environment; two requests for each of two environments.
\<close>

definition demo_pool :: pool where
  "demo_pool = (case new_pool 2 (- 1) 1 600 of Inr p \<Rightarrow> p)"

definition demo_rq :: "nat \<Rightarrow> string \<Rightarrow> request" where
  "demo_rq i env = new_request (\<lambda>h. h) i (lit env) [] 0 1000"

definition demo_ask :: "nat \<Rightarrow> string \<Rightarrow> pool_sys \<Rightarrow> pool_sys" where
  "demo_ask i env s = serve (demo_rq i env) 0 (map_pool (\<lambda>p. p\<lparr>pl_requests := pl_requests p + 1\<rparr>) s)"

definition demo_start :: "nat \<Rightarrow> string \<Rightarrow> pool_sys \<Rightarrow> pool_sys" where
  "demo_start i env s = notify_pool (map_pool (start_done (demo_rq i env) (new_lease (demo_rq i env) i 1) 1)
     (drop_starter (demo_rq i env, None) s))"

definition demo_busy :: pool_sys where
  "demo_busy = demo_start 2 ''Q'' (demo_ask 2 ''Q'' (demo_start 1 ''P'' (demo_ask 1 ''P''
     (empty_sys demo_pool))))"

definition demo_full :: pool_sys where
  "demo_full = demo_ask 4 ''Q'' (demo_ask 3 ''P'' demo_busy)"

definition demo_woken :: pool_sys where
  "demo_woken = notify_pool (map_pool (\<lambda>p. fst (release_worker 2 2 p)) demo_full)"

definition demo_stuck :: pool_sys where
  "demo_stuck = serve (demo_rq 3 ''P'') 2
     (demo_woken\<lparr>ps_woken := remove1 (demo_rq 3 ''P'') (ps_woken demo_woken)\<rparr>)"

lemma demo_pool_new: "new_pool 2 (- 1) 1 600 = Inr demo_pool"
  by (simp add: demo_pool_def new_pool_def)

lemma demo_ask_step: "reaches pool_step s0 s \<Longrightarrow> reaches pool_step s0 (demo_ask i env s)"
  unfolding demo_ask_def by (erule reaches_step) (rule pool_request)

lemma demo_start_step:
  "reaches pool_step s0 s \<Longrightarrow> (demo_rq i env, None) \<in> set (ps_starters s) \<Longrightarrow>
   i \<notin> set (lease_ids (ps_pool s)) \<Longrightarrow> reaches pool_step s0 (demo_start i env s)"
  unfolding demo_start_def by (erule reaches_step) (rule pool_started)

lemma demo_busy_reached: "reaches pool_step (empty_sys demo_pool) demo_busy"
  unfolding demo_busy_def
  by (intro demo_start_step demo_ask_step reaches_refl; code_simp)

lemma demo_stuck_reached: "reaches pool_step (empty_sys demo_pool) demo_stuck"
proof -
  have "reaches pool_step (empty_sys demo_pool) demo_full"
    unfolding demo_full_def by (intro demo_ask_step demo_busy_reached)
  then have "reaches pool_step (empty_sys demo_pool) demo_woken"
    unfolding demo_woken_def by (rule reaches_step) (rule pool_release, code_simp)
  then show ?thesis
    unfolding demo_stuck_def by (rule reaches_step) (rule pool_resume, code_simp)
qed

theorem pool_respects_caps_witness:
  "total_workers (ps_pool demo_stuck) \<le> 2 \<and> active_env (lit ''P'') (ps_pool demo_stuck) \<le> 1"
  using pool_respects_caps [OF demo_pool_new demo_stuck_reached, of "lit ''P''"] by simp

text \<open>
  A per-environment cap can lose a wake-up: a release notifies only the longest-waiting request,
  and when its environment is at its cap it goes back to waiting without passing the notification
  on.  With a cap of one worker per environment and two environments \<open>P\<close> and \<open>Q\<close>, a request for \<open>Q\<close>
  can wait although a free worker of its own environment and header is in the pool and no task is
  left that would be notified or is on its way.
\<close>

theorem cap_loses_wakeup:
  "\<exists>s. reaches pool_step (empty_sys demo_pool) s \<and> ps_woken s = [] \<and> ps_starters s = [] \<and>
     (\<exists>rq\<in>set (ps_waiting s). \<exists>l\<in>set (pl_free (ps_pool s)).
        ls_env l = rq_env rq \<and> ls_hash l = rq_hash rq)"
proof -
  have "ps_woken demo_stuck = []" "ps_starters demo_stuck = []" by code_simp+
  moreover have "demo_rq 4 ''Q'' \<in> set (ps_waiting demo_stuck)" by code_simp
  moreover have "\<exists>l\<in>set (pl_free (ps_pool demo_stuck)).
      ls_env l = rq_env (demo_rq 4 ''Q'') \<and> ls_hash l = rq_hash (demo_rq 4 ''Q'')" by code_simp
  ultimately show ?thesis using demo_stuck_reached by blast
qed

text \<open>
  A request aborted while it starts a worker (the closing of the evicted worker raises, or the
  task is cancelled) loses one slot of the pool for good: whatever happens afterwards, the workers
  and pending starts never again use the lost slots.
\<close>

theorem aborted_start_loses_slot:
  assumes "sys_inv s" "(rq, c) \<in> set (ps_starters s)"
    and "reaches pool_step (drop_starter (rq, c) s) s'"
  shows "pool_step s (drop_starter (rq, c) s) \<and>
    int (length (pl_free (ps_pool s'))) + int (length (pl_busy (ps_pool s'))) +
      int (length (ps_starters s')) \<le> pl_max (ps_pool s) - (leaked s + 1)"
proof -
  let ?s = "drop_starter (rq, c) s"
  have step: "pool_step s ?s" using assms(2) by (rule pool_aborted)
  have "sys_inv ?s" by (rule pool_step_inv [OF assms(1) step])
  then have "sys_inv s' \<and> limits s' = limits ?s" "leaked ?s \<le> leaked s'"
    using leases.reached [OF assms(3)] leases.grows [OF pool_step_leaked assms(3)] by simp_all
  then have "sys_inv s' \<and> limits s' = limits s \<and> leaked s + 1 \<le> leaked s'" using assms(2) by simp
  then have "total_workers (ps_pool s') \<le> pl_max (ps_pool s)" "leaked s + 1 \<le> leaked s'"
    by (simp_all add: sys_inv_def pool_inv_def caps_ok_def limits_def)
  with step show ?thesis by (simp add: total_workers_def leaked_def)
qed

theorem aborted_start_loses_slot_witness:
  "leaked (demo_ask 1 ''P'' (empty_sys demo_pool)) = 0 \<and>
   int (length (pl_free (ps_pool (drop_starter (demo_rq 1 ''P'', None)
     (demo_ask 1 ''P'' (empty_sys demo_pool)))))) \<le> 1"
proof -
  have "reaches pool_step (empty_sys demo_pool) (demo_ask 1 ''P'' (empty_sys demo_pool))"
    by (intro demo_ask_step reaches_refl)
  then have "sys_inv (demo_ask 1 ''P'' (empty_sys demo_pool))"
    using reaches_pool_inv [OF demo_pool_new] by blast
  moreover have "(demo_rq 1 ''P'', None) \<in> set (ps_starters (demo_ask 1 ''P'' (empty_sys demo_pool)))"
    by code_simp
  moreover have "leaked (demo_ask 1 ''P'' (empty_sys demo_pool)) = 0" by code_simp
  moreover have "pl_max (ps_pool (demo_ask 1 ''P'' (empty_sys demo_pool))) = 2" by code_simp
  ultimately show ?thesis
    using aborted_start_loses_slot [of "demo_ask 1 ''P'' (empty_sys demo_pool)" "demo_rq 1 ''P''" None,
        OF _ _ reaches_refl] by simp
qed

text \<open>
  What one pass of \<open>get_worker\<close> decides.  A leased worker was free, has the environment and header
  asked for, and moves to the busy set; a new worker is started only when no free one matches, either
  within both caps or after evicting the least recently used free worker (of the same environment when
  that environment is at its cap); a request gives up only past its deadline.
\<close>

theorem attempt_decides:
  "case attempt rq now p of (d, p') \<Rightarrow> (case d of
      Leased l \<Rightarrow> ls_env l = rq_env rq \<and> ls_hash l = rq_hash rq \<and>
        mset (pl_free p) = add_mset l (mset (pl_free p')) \<and> pl_busy p' = l # pl_busy p
    | StartNew None \<Rightarrow> list_all (\<lambda>l. \<not> (ls_env l = rq_env rq \<and> ls_hash l = rq_hash rq)) (pl_free p) \<and>
        total_workers p < pl_max p \<and> can_start (rq_env rq) p \<and> pl_free p' = pl_free p
    | StartNew (Some l) \<Rightarrow> list_all (\<lambda>l. \<not> (ls_env l = rq_env rq \<and> ls_hash l = rq_hash rq)) (pl_free p) \<and>
        pl_free p' = remove1 l (pl_free p) \<and> l \<in> set (pl_free p) \<and>
        (can_start (rq_env rq) p \<or> ls_env l = rq_env rq) \<and>
        list_all (\<lambda>k. \<not> can_start (rq_env rq) p \<and> ls_env k \<noteq> rq_env rq \<or> ls_used l \<le> ls_used k) (pl_free p)
    | KeepWaiting \<Rightarrow> p' = p \<and> now < rq_deadline rq
    | NoWorker \<Rightarrow> rq_deadline rq \<le> now \<and> pl_free p' = pl_free p \<and> pl_busy p' = pl_busy p \<and>
        pl_timeouts p' = pl_timeouts p + 1)"
proof (cases "pop_matching (rq_env rq) (rq_hash rq) (pl_free p)")
  case (Some lr)
  obtain l rest where lr: "lr = (l, rest)" by force
  with Some show ?thesis using pop_matching_Some [of _ _ _ l rest] by (simp add: attempt_def)
next
  case None
  then have none: "list_all (\<lambda>l. \<not> (ls_env l = rq_env rq \<and> ls_hash l = rq_hash rq)) (pl_free p)"
    by (simp add: pop_matching_None list_all_iff)
  show ?thesis
  proof (cases "worker_to_close (rq_env rq) (can_start (rq_env rq) p) p")
    case None
    with none \<open>pop_matching _ _ _ = None\<close> show ?thesis
      by (auto simp: attempt_def record_wait_def Let_def)
  next
    case (Some l)
    with none \<open>pop_matching _ _ _ = None\<close> worker_to_close_Some [OF Some] show ?thesis
      by (auto simp: attempt_def list_all_iff)
  qed
qed

end
