(* ===== verification/Normalize.thy ===== *)
theory Normalize
  imports PyText
begin

text \<open>
  \<open>server/pantograph_normalize.py\<close> and \<open>server/pantograph_goal.py\<close>: what a Pantograph worker reports
  (goals, messages, exceptions with arbitrary payloads) turned into the messages and goals of the
  wire schema.  Payloads come from outside, so every Python value the code distinguishes is a
  constructor; values whose text the code takes with \<open>str(...)\<close> carry that text.
\<close>

section \<open>Messages and payloads\<close>

datatype severity = SevTrace | SevInfo | SevWarning | SevError

record exec_pos =
  ep_line :: int
  ep_col :: int

record exec_message =
  em_severity :: severity
  em_data :: pystr
  em_pos :: "exec_pos option"
  em_end :: "exec_pos option"

text \<open>A Pantograph message object; a position may lack its line or column.\<close>

record pg_message =
  pm_severity :: "pystr option"
  pm_data :: pystr
  pm_text :: pystr
  pm_pos :: "(int option \<times> int option) option"
  pm_pos_end :: "(int option \<times> int option) option"
  pm_has_sorry :: bool

datatype payload =
    PNone
  | PStr pystr
  | PDict "(pystr \<times> payload) list" pystr
  | PIter "payload list" pystr
  | PMessage pg_message
  | POther pystr

record py_exn =
  ex_class :: pystr
  ex_args :: "payload list"
  ex_args_text :: pystr

text \<open>Pydantic's \<open>ValidationError\<close> of \<open>ExecPos\<close>, which has \<open>line >= 1\<close> and \<open>col >= 0\<close>.\<close>

datatype norm_error = PosInvalid int int

definition mk_exec_pos :: "int \<Rightarrow> int \<Rightarrow> norm_error + exec_pos" where
  "mk_exec_pos line col = (if 1 \<le> line \<and> 0 \<le> col then Inr \<lparr>ep_line = line, ep_col = col\<rparr>
     else Inl (PosInvalid line col))"

text \<open>\<open>str(payload)\<close>\<close>

fun py_str :: "payload \<Rightarrow> pystr" where
  "py_str PNone = lit ''None''"
| "py_str (PStr s) = s"
| "py_str (PDict d t) = t"
| "py_str (PIter xs t) = t"
| "py_str (PMessage m) = pm_text m"
| "py_str (POther t) = t"

definition normalize_severity :: "pystr option \<Rightarrow> pystr \<Rightarrow> severity" where
  "normalize_severity value dflt =
     (let text = lower (case value of None \<Rightarrow> dflt | Some v \<Rightarrow> v)
      in if text \<in> {lit ''information'', lit ''info'', lit ''severity.information''} then SevInfo
         else if text \<in> {lit ''warning'', lit ''severity.warning''} then SevWarning
         else if text \<in> {lit ''error'', lit ''severity.error''} then SevError
         else if text \<in> {lit ''trace'', lit ''severity.trace''} then SevTrace
         else SevInfo)"

section \<open>Positioned text\<close>

text \<open>
  The regular expression of \<open>_positioned_text\<close>.  No alternative of the pattern can match in two ways,
  so it is read as a deterministic scanner: a file name \<open><...>\<close> or one without colon and newline,
  then \<open>:line:col:\<close>, white space, an optional severity with its colon, and the rest.
\<close>

definition scan_number :: "pystr \<Rightarrow> (int \<times> pystr) option" where
  "scan_number s =
     (let d = takeWhile is_digit s; rest = dropWhile is_digit s
      in if d \<noteq> [] \<and> starts_with (lit '':'') rest then Some (digits_val d, drop 1 rest) else None)"

definition scan_angle_name :: "pystr \<Rightarrow> pystr option" where
  "scan_angle_name s =
     (if starts_with (lit ''<'') s
      then (let body = takeWhile (\<lambda>c. c \<noteq> 62) (drop 1 s); rest = dropWhile (\<lambda>c. c \<noteq> 62) (drop 1 s)
            in if body \<noteq> [] \<and> starts_with (lit ''>:'') rest then Some (drop 2 rest) else None)
      else None)"

definition scan_plain_name :: "pystr \<Rightarrow> pystr option" where
  "scan_plain_name s =
     (let body = takeWhile (\<lambda>c. c \<noteq> 58 \<and> c \<noteq> 10) s; rest = dropWhile (\<lambda>c. c \<noteq> 58 \<and> c \<noteq> 10) s
      in if body \<noteq> [] \<and> starts_with (lit '':'') rest then Some (drop 1 rest) else None)"

definition scan_severity :: "pystr \<Rightarrow> pystr option \<times> pystr" where
  "scan_severity s =
     (case find (\<lambda>w. starts_with (w @ lit '':'') s)
        [lit ''error'', lit ''warning'', lit ''info'', lit ''information'', lit ''trace''] of
        None \<Rightarrow> (None, s)
      | Some w \<Rightarrow> (Some w, lstrip (drop (length w + 1) s)))"

definition scan_position :: "pystr \<Rightarrow> (int \<times> int \<times> pystr option \<times> pystr) option" where
  "scan_position s =
     (case scan_number s of
        None \<Rightarrow> None
      | Some (line, s1) \<Rightarrow>
          (case scan_number s1 of
             None \<Rightarrow> None
           | Some (col, s2) \<Rightarrow>
               (let (sev, rest) = scan_severity (lstrip s2) in Some (line, col, sev, rest))))"

definition match_positioned :: "pystr \<Rightarrow> (int \<times> int \<times> pystr option \<times> pystr) option" where
  "match_positioned s =
     (case Option.bind (scan_angle_name s) scan_position of
        Some m \<Rightarrow> Some m
      | None \<Rightarrow> Option.bind (scan_plain_name s) scan_position)"

definition positioned_text :: "pystr \<Rightarrow> norm_error + (pystr \<times> exec_pos \<times> pystr option) option" where
  "positioned_text s =
     (case match_positioned s of
        None \<Rightarrow> Inr None
      | Some (line, col, sev, data) \<Rightarrow>
          ebind (mk_exec_pos line col) (\<lambda>pos. Inr (Some (rstrip data, pos, sev))))"

definition text_message :: "pystr \<Rightarrow> pystr \<Rightarrow> norm_error + exec_message" where
  "text_message text sev =
     ebind (positioned_text text) (\<lambda>parsed. case parsed of
         None \<Rightarrow> Inr \<lparr>em_severity = normalize_severity (Some sev) (lit ''info''), em_data = text,
                   em_pos = None, em_end = None\<rparr>
       | Some (data, pos, parsed_sev) \<Rightarrow>
           Inr \<lparr>em_severity = normalize_severity
                  (Some (case parsed_sev of None \<Rightarrow> sev | Some w \<Rightarrow> w)) (lit ''info''),
                em_data = data, em_pos = Some pos, em_end = None\<rparr>)"

text \<open>\<open>_position_to_exec_pos\<close> clamps, so it never raises.\<close>

definition position_to_exec_pos :: "(int option \<times> int option) option \<Rightarrow> exec_pos option" where
  "position_to_exec_pos p =
     (case p of Some (Some line, Some col) \<Rightarrow> Some \<lparr>ep_line = max line 1, ep_col = max col 0\<rparr>
      | _ \<Rightarrow> None)"

definition pg_message_to_exec :: "pg_message \<Rightarrow> exec_message" where
  "pg_message_to_exec m = \<lparr>em_severity = normalize_severity (pm_severity m) (lit ''info''),
     em_data = pm_data m, em_pos = position_to_exec_pos (pm_pos m),
     em_end = position_to_exec_pos (pm_pos_end m)\<rparr>"

section \<open>Payloads to texts and messages\<close>

definition or_else :: "'a list \<Rightarrow> 'a list \<Rightarrow> 'a list" where
  "or_else xs ys = (if xs = [] then ys else xs)"

text \<open>The values of the listed keys that are present, in the order of the list.\<close>

definition pick :: "pystr list \<Rightarrow> (pystr \<times> 'v list) list \<Rightarrow> 'v list" where
  "pick ks d = concat (map (\<lambda>k. case dget d k of None \<Rightarrow> [] | Some v \<Rightarrow> v) ks)"

fun payload_texts :: "payload \<Rightarrow> pystr list" where
  "payload_texts PNone = []"
| "payload_texts (PStr s) = [s]"
| "payload_texts (PDict d t) =
     or_else (pick [lit ''desc'', lit ''error'', lit ''parseError'', lit ''message'', lit ''data'',
                lit ''messages''] (map (\<lambda>(k, v). (k, payload_texts v)) d)) [t]"
| "payload_texts (PIter xs t) = or_else (concat (map payload_texts xs)) [t]"
| "payload_texts (PMessage m) = [pm_text m]"
| "payload_texts (POther t) = [t]"

definition payload_severity :: "(pystr \<times> payload) list \<Rightarrow> pystr \<Rightarrow> pystr" where
  "payload_severity d dflt =
     (case dget d (lit ''severity'') of
        Some v \<Rightarrow> py_str v
      | None \<Rightarrow> if dget d (lit ''parseError'') \<noteq> None \<or> dget d (lit ''error'') \<noteq> None
                then lit ''error'' else dflt)"

definition payload_dict_texts :: "(pystr \<times> payload) list \<Rightarrow> pystr list" where
  "payload_dict_texts d =
     (let field = (\<lambda>k. case dget d k of None \<Rightarrow> [] | Some v \<Rightarrow> payload_texts v);
          texts = concat (map field [lit ''desc'', lit ''parseError'', lit ''message'', lit ''data''])
      in or_else texts (field (lit ''error'')))"

definition econcat :: "('e + 'a list) list \<Rightarrow> 'e + 'a list" where
  "econcat ms = ebind (emap (\<lambda>m. m) ms) (\<lambda>xss. Inr (concat xss))"

fun payload_messages :: "pystr \<Rightarrow> payload \<Rightarrow> norm_error + exec_message list" where
  "payload_messages sev PNone = Inr []"
| "payload_messages sev (PStr s) = ebind (text_message s sev) (\<lambda>m. Inr [m])"
| "payload_messages sev (PDict d t) =
     (let sev' = payload_severity d sev
      in ebind (case dget (map (\<lambda>(k, v). (k, payload_messages sev' v)) d) (lit ''messages'') of
                  None \<Rightarrow> Inr [] | Some r \<Rightarrow> r)
           (\<lambda>nested. if nested \<noteq> [] then Inr nested
              else emap (\<lambda>text. text_message text sev') (or_else (payload_dict_texts d) [t])))"
| "payload_messages sev (PIter xs t) =
     ebind (econcat (map (payload_messages sev) xs))
       (\<lambda>ms. if ms \<noteq> [] then Inr ms else ebind (text_message t sev) (\<lambda>m. Inr [m]))"
| "payload_messages sev (PMessage m) = Inr [pg_message_to_exec m]"
| "payload_messages sev (POther t) = ebind (text_message t sev) (\<lambda>m. Inr [m])"

definition messages_to_texts :: "payload list \<Rightarrow> pystr list" where
  "messages_to_texts ps = concat (map payload_texts ps)"

definition messages_to_exec_messages :: "payload list \<Rightarrow> norm_error + exec_message list" where
  "messages_to_exec_messages ps = econcat (map (payload_messages (lit ''info'')) ps)"

definition exception_to_messages :: "py_exn \<Rightarrow> pystr list" where
  "exception_to_messages e = (case ex_args e of
       [] \<Rightarrow> [ex_class e] | [a] \<Rightarrow> payload_texts a
     | as \<Rightarrow> payload_texts (PIter as (ex_args_text e)))"

definition exception_to_exec_messages :: "py_exn \<Rightarrow> norm_error + exec_message list" where
  "exception_to_exec_messages e = (case ex_args e of
       [] \<Rightarrow> ebind (text_message (ex_class e) (lit ''error'')) (\<lambda>m. Inr [m])
     | [a] \<Rightarrow> payload_messages (lit ''error'') a
     | as \<Rightarrow> payload_messages (lit ''error'') (PIter as (ex_args_text e)))"

section \<open>Goals\<close>

record hypothesis =
  hy_type :: pystr
  hy_name :: "pystr option"
  hy_value :: "pystr option"

record goal =
  go_target :: pystr
  go_pretty :: pystr
  go_hyps :: "hypothesis list"
  go_name :: "pystr option"
  go_sibling_dep :: "int list"

record pg_variable =
  pv_type :: pystr
  pv_name :: "pystr option"
  pv_value :: "pystr option"
  pv_text :: pystr

record pg_goal =
  pg_id :: pystr
  pg_name :: "pystr option"
  pg_variables :: "pg_variable list"
  pg_target :: pystr
  pg_siblings :: "int list option"
  pg_conv :: bool

text \<open>\<open>x or None\<close> for strings\<close>

definition or_none :: "pystr option \<Rightarrow> pystr option" where
  "or_none x = (if x = Some [] then None else x)"

definition variable_to_hypothesis :: "pg_variable \<Rightarrow> hypothesis" where
  "variable_to_hypothesis v = \<lparr>hy_type = pv_type v, hy_name = or_none (pv_name v), hy_value = pv_value v\<rparr>"

definition goal_to_text :: "pg_goal \<Rightarrow> pystr" where
  "goal_to_text g =
     (let case_line = (case or_none (pg_name g) of None \<Rightarrow> [] | Some n \<Rightarrow> [lit ''case '' @ n]);
          front = (if pg_conv g then lit ''|'' else [8866])
      in join [10] (case_line @ map pv_text (pg_variables g) @ [front @ lit '' '' @ pg_target g]))"

definition goal_to_goal :: "pg_goal \<Rightarrow> goal" where
  "goal_to_goal g = \<lparr>go_target = pg_target g, go_pretty = goal_to_text g,
     go_hyps = map variable_to_hypothesis (pg_variables g), go_name = or_none (pg_name g),
     go_sibling_dep = (case pg_siblings g of None \<Rightarrow> [] | Some xs \<Rightarrow> sort xs)\<rparr>"

definition goals_of_state :: "pg_goal list \<Rightarrow> goal list" where
  "goals_of_state gs = map goal_to_goal gs"

definition goal_texts_of_state :: "pg_goal list \<Rightarrow> pystr list" where
  "goal_texts_of_state gs = map goal_to_text gs"

section \<open>Scanning what Lean prints\<close>

lemma takeWhile_prefix:
  "list_all P xs \<Longrightarrow> \<not> P y \<Longrightarrow> takeWhile P (xs @ y # ys) = xs"
  "list_all P xs \<Longrightarrow> \<not> P y \<Longrightarrow> dropWhile P (xs @ y # ys) = y # ys"
  by (induction xs) auto

lemma lit_chars: "lit '':'' = [58]" "lit ''<'' = [60]" "lit ''>:'' = [62, 58]" "lit '' '' = [32]"
  by (simp_all add: lit_def)

lemma scan_number_str_int:
  "0 \<le> i \<Longrightarrow> scan_number (str_int i @ 58 # rest) = Some (i, rest)"
  unfolding scan_number_def str_int_def
  by (simp add: takeWhile_prefix nat_digits_digits is_digit_def lit_chars Let_def)

lemma scan_plain_name_prefix:
  "name \<noteq> [] \<Longrightarrow> list_all (\<lambda>c. c \<noteq> 58 \<and> c \<noteq> 10) name \<Longrightarrow>
   scan_plain_name (name @ 58 # rest) = Some rest"
  by (simp add: scan_plain_name_def takeWhile_prefix lit_chars Let_def)

text \<open>The text of a Lean diagnostic as the compiler prints it.\<close>

definition severity_word :: "severity \<Rightarrow> pystr" where
  "severity_word s = (case s of SevTrace \<Rightarrow> lit ''trace'' | SevInfo \<Rightarrow> lit ''info''
     | SevWarning \<Rightarrow> lit ''warning'' | SevError \<Rightarrow> lit ''error'')"

definition render_diagnostic :: "pystr \<Rightarrow> int \<Rightarrow> int \<Rightarrow> severity \<Rightarrow> pystr \<Rightarrow> pystr" where
  "render_diagnostic name line col sev data =
     name @ lit '':'' @ str_int line @ lit '':'' @ str_int col @ lit '': '' @ severity_word sev @
     lit '': '' @ data"

lemma scan_severity_word:
  "lstrip data = data \<Longrightarrow> scan_severity (severity_word sev @ 58 # 32 # data) = (Some (severity_word sev), data)"
proof -
  assume d: "lstrip data = data"
  have "lstrip (32 # data) = data" using d by (simp add: lstrip_def lstrip_by_def is_space_def)
  then show ?thesis
    by (cases sev) (simp_all add: scan_severity_def severity_word_def lit_def)
qed

lemma normalize_severity_word: "normalize_severity (Some (severity_word sev)) d = sev"
proof -
  have "normalize_severity (Some (severity_word SevTrace)) d = SevTrace"
    "normalize_severity (Some (severity_word SevInfo)) d = SevInfo"
    "normalize_severity (Some (severity_word SevWarning)) d = SevWarning"
    "normalize_severity (Some (severity_word SevError)) d = SevError"
    by (simp_all add: normalize_severity_def severity_word_def lit_def lower_def lower_char_def)
  then show ?thesis by (cases sev) simp_all
qed

lemma severity_word_start: "lstrip (32 # severity_word sev @ rest) = severity_word sev @ rest"
  by (cases sev) (simp_all add: severity_word_def lit_def lstrip_def lstrip_by_def is_space_def)

lemma match_diagnostic:
  assumes "name \<noteq> []" "list_all (\<lambda>c. c \<noteq> 58 \<and> c \<noteq> 10) name" "hd name \<noteq> 60"
    and "0 \<le> line" "0 \<le> col" "lstrip data = data"
  shows "match_positioned (render_diagnostic name line col sev data) =
    Some (line, col, Some (severity_word sev), data)"
proof -
  let ?s = "render_diagnostic name line col sev data"
  have colon: "lit '': '' = [58, 32]" by (simp add: lit_def)
  have s: "?s = name @ 58 # str_int line @ 58 # str_int col @ 58 # 32 # severity_word sev @ 58 # 32 # data"
    by (simp add: render_diagnostic_def lit_chars colon)
  have "scan_angle_name ?s = None"
    unfolding s using assms(1,3) by (cases name) (simp_all add: scan_angle_name_def lit_chars)
  moreover have "scan_plain_name ?s =
      Some (str_int line @ 58 # str_int col @ 58 # 32 # severity_word sev @ 58 # 32 # data)"
    unfolding s using assms(1,2) by (rule scan_plain_name_prefix)
  moreover have "scan_position (str_int line @ 58 # str_int col @ 58 # 32 # severity_word sev @ 58 # 32 # data) =
      Some (line, col, Some (severity_word sev), data)"
    using assms(4-6)
    by (simp add: scan_position_def scan_number_str_int severity_word_start scan_severity_word)
  ultimately show ?thesis by (simp add: match_positioned_def)
qed

section \<open>Every payload is reported\<close>

definition message_ok :: "exec_message \<Rightarrow> bool" where
  "message_ok m \<longleftrightarrow> (\<forall>p. em_pos m = Some p \<or> em_end m = Some p \<longrightarrow> 1 \<le> ep_line p \<and> 0 \<le> ep_col p)"

lemma text_message_ok:
  assumes "text_message text sev = Inr m"
  shows "message_ok m"
proof (cases "match_positioned text")
  case None
  with assms show ?thesis by (auto simp: text_message_def positioned_text_def message_ok_def)
next
  case (Some q)
  obtain line col w data where q: "q = (line, col, w, data)" by (cases q)
  with Some assms show ?thesis
    by (cases "1 \<le> line \<and> 0 \<le> col")
      (auto simp: text_message_def positioned_text_def mk_exec_pos_def message_ok_def)
qed

lemma pg_message_ok: "message_ok (pg_message_to_exec m)"
  by (auto simp: message_ok_def pg_message_to_exec_def position_to_exec_pos_def
      split: option.splits prod.splits)

lemma emap_all: "emap f xs = Inr ys \<Longrightarrow> (\<And>x y. x \<in> set xs \<Longrightarrow> f x = Inr y \<Longrightarrow> P y) \<Longrightarrow> list_all P ys"
proof (induction xs arbitrary: ys)
  case (Cons x xs)
  then obtain y zs where yz: "f x = Inr y" "emap f xs = Inr zs" "ys = y # zs" by auto
  have "list_all P zs" using yz(2) by (rule Cons.IH) (rule Cons.prems(2), simp_all)
  moreover have "P y" using Cons.prems(2) yz(1) by (metis list.set_intros(1))
  ultimately show ?case using yz(3) by simp
qed simp

lemma econcat_all:
  "econcat ms = Inr ys \<Longrightarrow> (\<And>xs. Inr xs \<in> set ms \<Longrightarrow> list_all P xs) \<Longrightarrow> list_all P ys"
proof -
  assume e: "econcat ms = Inr ys" and a: "\<And>xs. Inr xs \<in> set ms \<Longrightarrow> list_all P xs"
  obtain xss where "emap (\<lambda>m. m) ms = Inr xss" "ys = concat xss"
    using e by (auto simp: econcat_def)
  moreover from this(1) have "list_all (list_all P) xss"
    by (rule emap_all) (use a in auto)
  ultimately show ?thesis by (auto simp: list_all_iff)
qed

lemma emap_nonempty: "emap f xs = Inr ys \<Longrightarrow> xs \<noteq> [] \<Longrightarrow> ys \<noteq> []"
  by (cases xs) auto

lemma or_else_nonempty [simp]: "or_else xs [t] \<noteq> []"
  by (simp add: or_else_def)

lemma payload_messages_ok:
  "payload_messages sev p = Inr ms \<Longrightarrow> list_all message_ok ms \<and> (p \<noteq> PNone \<longrightarrow> ms \<noteq> [])"
proof (induction sev p arbitrary: ms rule: payload_messages.induct)
  case (3 sev d t)
  let ?sev = "payload_severity d sev"
  let ?r = "case dget (map (\<lambda>(k, v). (k, payload_messages ?sev v)) d) (lit ''messages'') of
      None \<Rightarrow> Inr [] | Some r \<Rightarrow> r"
  from "3.prems" obtain nested where nested: "?r = Inr nested"
    and ms: "(if nested \<noteq> [] then Inr nested
       else emap (\<lambda>text. text_message text ?sev) (or_else (payload_dict_texts d) [t])) = Inr ms"
    by (auto simp: Let_def)
  have "list_all message_ok nested"
  proof (cases "dget (map (\<lambda>(k, v). (k, payload_messages ?sev v)) d) (lit ''messages'')")
    case None
    with nested show ?thesis by simp
  next
    case (Some r)
    then have "(lit ''messages'', r) \<in> set (map (\<lambda>(k, v). (k, payload_messages ?sev v)) d)"
      by (rule map_of_SomeD)
    then obtain v where v: "(lit ''messages'', v) \<in> set d" "r = payload_messages ?sev v" by auto
    with nested Some have "payload_messages ?sev v = Inr nested" by simp
    with "3.IH" [OF refl v(1)] show ?thesis by auto
  qed
  then show ?case
    using ms by (auto split: if_splits intro: emap_all text_message_ok dest: emap_nonempty)
next
  case (4 sev xs t)
  then obtain ms' where ms': "econcat (map (payload_messages sev) xs) = Inr ms'"
    and ms: "(if ms' \<noteq> [] then Inr ms' else ebind (text_message t sev) (\<lambda>m. Inr [m])) = Inr ms"
    by auto
  have "list_all message_ok ms'"
    using ms' by (rule econcat_all) (use "4.IH" in auto)
  with ms show ?case by (auto split: if_splits intro: text_message_ok)
qed (auto intro: text_message_ok pg_message_ok)

section \<open>Properties\<close>



text \<open>
  Whatever a worker reports is reported on: normalising any payload but \<open>None\<close> gives at least one
  message, and every position in the result is valid for the wire schema.
\<close>

theorem payload_always_reported:
  assumes "payload_messages sev p = Inr ms" "p \<noteq> PNone"
  shows "ms \<noteq> [] \<and> list_all message_ok ms"
  using payload_messages_ok [OF assms(1)] assms(2) by blast

definition demo_payload :: payload where
  "demo_payload = PIter [PNone, PDict [(lit ''error'', PStr (lit ''io''))] (lit ''{'error': 'io'}'')]
     (lit ''[None, {'error': 'io'}]'')"

lemma demo_payload_messages: "payload_messages (lit ''info'') demo_payload =
    Inr [\<lparr>em_severity = SevError, em_data = lit ''io'', em_pos = None, em_end = None\<rparr>]"
  by code_simp

theorem payload_always_reported_witness:
  "payload_messages (lit ''info'') demo_payload \<noteq> Inr [] \<and> demo_payload \<noteq> PNone"
proof -
  have "demo_payload \<noteq> PNone" by (simp add: demo_payload_def)
  with payload_always_reported [OF demo_payload_messages] demo_payload_messages
  show ?thesis by auto
qed

text \<open>
  The text scanner does not clamp: a message text with line 0, which Pantograph uses for tactic
  strings (the positions of message objects are clamped for that reason), makes the normalisation
  itself raise.  The workers call it inside their exception handlers.
\<close>

theorem line_zero_raises:
  "exception_to_exec_messages \<lparr>ex_class = lit ''TacticFailure'',
     ex_args = [PStr (lit ''<anonymous>:0:3: error: unknown identifier'')], ex_args_text = []\<rparr> =
     Inl (PosInvalid 0 3) \<and>
   position_to_exec_pos (Some (Some 0, Some 3)) = Some \<lparr>ep_line = 1, ep_col = 3\<rparr>"
  by code_simp

end
