(* ===== verification/Worker.thy ===== *)
theory Worker
  imports Normalize StoreRuns "HOL-Library.List_Lexorder"
begin

text \<open>
  \<open>PantographWorker\<close> of \<open>server/pantograph_worker.py\<close>.  The Pantograph process is outside the
  repository: \<open>lean_server\<close> is what the worker asks of it, as functions of the number of calls made so
  far (so that equal calls may answer differently); each may fail with an exception.  The worker's own
  effects are the scratch files it creates in the state directory.  A result \<open>Inl e\<close> of an operation is
  an exception that leaves the worker: the handlers themselves normalise messages, which can raise.
\<close>

section \<open>The interface of Pantograph\<close>

record site =
  site_goal :: "int option"
  site_resume :: "bool option"

datatype continue_reply = ContinueFailed pystr | ContinueOk

record 'g lean_server =
  lean_load_sorry :: "nat \<Rightarrow> pystr \<Rightarrow> py_exn + 'g list"
  lean_save :: "nat \<Rightarrow> 'g \<Rightarrow> py_exn + int"
  lean_load :: "nat \<Rightarrow> pystr \<Rightarrow> py_exn + 'g"
  lean_tactic :: "nat \<Rightarrow> 'g \<Rightarrow> pystr \<Rightarrow> site \<Rightarrow> py_exn + 'g"
  lean_continue :: "nat \<Rightarrow> 'g \<Rightarrow> pystr list \<Rightarrow> py_exn + (continue_reply \<times> 'g)"
  lean_compile :: "nat \<Rightarrow> pystr \<Rightarrow> py_exn + payload list list"
  lean_goals :: "'g \<Rightarrow> pg_goal list"
  lean_messages :: "'g \<Rightarrow> payload list"
  lean_solved :: "'g \<Rightarrow> bool"
  lean_temp :: "nat \<Rightarrow> pystr"
  lean_validation_exn :: "norm_error \<Rightarrow> py_exn"

record wstate =
  ws_files :: directory
  ws_calls :: nat

definition tick :: "wstate \<Rightarrow> wstate" where
  "tick ws = ws\<lparr>ws_calls := Suc (ws_calls ws)\<rparr>"

section \<open>Results\<close>

datatype exec_status = StOpen | StComplete | StError | StInvalidToken | StOverloaded | StCancelled

datatype verify_status = VAccepted | VRejected | VError | VOverloaded | VCancelled

record saved_state =
  sv_path :: pystr
  sv_goals :: "goal list"

record create_result =
  cr_status :: exec_status
  cr_states :: "saved_state list"
  cr_messages :: "exec_message list"

record step_result =
  sr_tactic :: pystr
  sr_status :: exec_status
  sr_path :: "pystr option"
  sr_goals :: "goal list"
  sr_messages :: "exec_message list"

record verify_result =
  vr_status :: verify_status
  vr_axioms :: "pystr list"
  vr_messages :: "exec_message list"

section \<open>Goal groups\<close>

datatype group_error = GroupEmpty | GroupDuplicate | GroupOutOfRange int int

fun first_out_of_range :: "int list \<Rightarrow> int \<Rightarrow> int option" where
  "first_out_of_range [] n = None"
| "first_out_of_range (i # is) n = (if i < 0 \<or> n \<le> i then Some i else first_out_of_range is n)"

definition validate_goal_group :: "int list \<Rightarrow> int \<Rightarrow> group_error + unit" where
  "validate_goal_group grp goal_count =
     (if grp = [] then Inl GroupEmpty
      else if card (set grp) \<noteq> length grp then Inl GroupDuplicate
      else case first_out_of_range grp goal_count of
             Some i \<Rightarrow> Inl (GroupOutOfRange i goal_count)
           | None \<Rightarrow> Inr ())"

fun group_error_text :: "group_error \<Rightarrow> pystr" where
  "group_error_text GroupEmpty = lit ''goal_group must be non-empty''"
| "group_error_text GroupDuplicate = lit ''goal_group indices must be unique''"
| "group_error_text (GroupOutOfRange i n) =
     lit ''goal_group index '' @ str_int i @ lit '' out of range for '' @ str_int n @ lit '' goals''"

definition value_error :: "pystr \<Rightarrow> py_exn" where
  "value_error text = \<lparr>ex_class = lit ''ValueError'', ex_args = [PStr text], ex_args_text = text\<rparr>"

definition runtime_error :: "pystr \<Rightarrow> py_exn" where
  "runtime_error text = \<lparr>ex_class = lit ''RuntimeError'', ex_args = [PStr text], ex_args_text = text\<rparr>"

section \<open>Scratch files\<close>

text \<open>
  \<open>NamedTemporaryFile(prefix="pg_", suffix=".bin", delete=False)\<close>: random names until one is free, at
  most \<open>tries\<close> times (\<open>tempfile.TMP_MAX\<close>), then \<open>FileExistsError\<close>.
\<close>

fun allocate_path :: "nat \<Rightarrow> 'g lean_server \<Rightarrow> int \<Rightarrow> wstate \<Rightarrow> (py_exn + pystr) \<times> wstate" where
  "allocate_path 0 srv now ws = (Inl \<lparr>ex_class = lit ''FileExistsError'', ex_args = [], ex_args_text = []\<rparr>, ws)"
| "allocate_path (Suc tries) srv now ws =
     (let name = lit ''pg_'' @ lean_temp srv (ws_calls ws) @ lit ''.bin''
      in if dget (ws_files ws) name = None
         then (Inr name, tick (ws\<lparr>ws_files := dset name \<lparr>fl_content = Blob 0, fl_mtime = now\<rparr> (ws_files ws)\<rparr>))
         else allocate_path tries srv now (tick ws))"

definition unlink :: "pystr \<Rightarrow> wstate \<Rightarrow> wstate" where
  "unlink path ws = ws\<lparr>ws_files := dpop path (ws_files ws)\<rparr>"

definition unlink_paths :: "pystr list \<Rightarrow> wstate \<Rightarrow> wstate" where
  "unlink_paths paths ws = foldl (\<lambda>ws p. unlink p ws) ws paths"

text \<open>\<open>goal_save_async\<close> writes the state into the allocated file.\<close>

definition save_goal :: "'g lean_server \<Rightarrow> int \<Rightarrow> 'g \<Rightarrow> pystr \<Rightarrow> wstate \<Rightarrow> (py_exn + unit) \<times> wstate" where
  "save_goal srv now g path ws =
     (case lean_save srv (ws_calls ws) g of
        Inl e \<Rightarrow> (Inl e, tick ws)
      | Inr bytes \<Rightarrow> (Inr (), tick (ws\<lparr>ws_files :=
           dset path \<lparr>fl_content = Blob bytes, fl_mtime = now\<rparr> (ws_files ws)\<rparr>)))"

definition tmp_max :: nat where
  "tmp_max = 10000"

section \<open>Creating states\<close>

text \<open>The loop over the targets; the paths written so far are unlinked when something raises.\<close>

fun save_targets :: "'g lean_server \<Rightarrow> int \<Rightarrow> 'g list \<Rightarrow> pystr list \<Rightarrow> saved_state list \<Rightarrow> wstate
    \<Rightarrow> (py_exn + saved_state list) \<times> pystr list \<times> wstate" where
  "save_targets srv now [] written states ws = (Inr states, written, ws)"
| "save_targets srv now (g # gs) written states ws =
     (case allocate_path tmp_max srv now ws of
        (Inl e, ws1) \<Rightarrow> (Inl e, written, ws1)
      | (Inr path, ws1) \<Rightarrow>
          (case save_goal srv now g path ws1 of
             (Inl e, ws2) \<Rightarrow> (Inl e, written @ [path], ws2)
           | (Inr u, ws2) \<Rightarrow> save_targets srv now gs (written @ [path])
                (states @ [\<lparr>sv_path = path, sv_goals = goals_of_state (lean_goals srv g)\<rparr>]) ws2))"

definition create_failed :: "py_exn \<Rightarrow> norm_error + create_result" where
  "create_failed e = ebind (exception_to_exec_messages e)
     (\<lambda>ms. Inr \<lparr>cr_status = StError, cr_states = [], cr_messages = ms\<rparr>)"

definition create_states :: "'g lean_server \<Rightarrow> int \<Rightarrow> pystr \<Rightarrow> wstate
    \<Rightarrow> (norm_error + create_result) \<times> wstate" where
  "create_states srv now code ws =
     (case lean_load_sorry srv (ws_calls ws) code of
        Inl e \<Rightarrow> (create_failed e, tick ws)
      | Inr targets \<Rightarrow>
          if targets = [] then (Inr \<lparr>cr_status = StComplete, cr_states = [], cr_messages = []\<rparr>, tick ws)
          else (case save_targets srv now targets [] [] (tick ws) of
                  (Inl e, written, ws') \<Rightarrow> (create_failed e, unlink_paths written ws')
                | (Inr states, written, ws') \<Rightarrow>
                    (Inr \<lparr>cr_status = StOpen, cr_states = states, cr_messages = []\<rparr>, ws')))"

section \<open>Stepping\<close>

definition step_failed :: "pystr \<Rightarrow> py_exn \<Rightarrow> norm_error + step_result" where
  "step_failed tactic e = ebind (exception_to_exec_messages e)
     (\<lambda>ms. Inr \<lparr>sr_tactic = tactic, sr_status = StError, sr_path = None, sr_goals = [], sr_messages = ms\<rparr>)"

definition step_one_tactic :: "'g lean_server \<Rightarrow> int \<Rightarrow> 'g \<Rightarrow> site \<Rightarrow> pystr \<Rightarrow> wstate
    \<Rightarrow> (norm_error + step_result) \<times> wstate" where
  "step_one_tactic srv now g site tactic ws =
     (case lean_tactic srv (ws_calls ws) g tactic site of
        Inl e \<Rightarrow> (step_failed tactic e, tick ws)
      | Inr child \<Rightarrow>
          (case messages_to_exec_messages (lean_messages srv child) of
             Inl err \<Rightarrow> (step_failed tactic (lean_validation_exn srv err), tick ws)
           | Inr ms \<Rightarrow>
               if lean_solved srv child
               then (Inr \<lparr>sr_tactic = tactic, sr_status = StComplete, sr_path = None, sr_goals = [],
                          sr_messages = ms\<rparr>, tick ws)
               else (case allocate_path tmp_max srv now (tick ws) of
                   (Inl e, ws1) \<Rightarrow> (step_failed tactic e, ws1)
                 | (Inr path, ws1) \<Rightarrow>
                     (case save_goal srv now child path ws1 of
                        (Inl e, ws2) \<Rightarrow> (step_failed tactic e, unlink path ws2)
                      | (Inr u, ws2) \<Rightarrow>
                          (Inr \<lparr>sr_tactic = tactic, sr_status = StOpen, sr_path = Some path,
                                sr_goals = goals_of_state (lean_goals srv child), sr_messages = ms\<rparr>,
                           ws2)))))"

fun step_tactics :: "'g lean_server \<Rightarrow> int \<Rightarrow> 'g \<Rightarrow> site \<Rightarrow> pystr list \<Rightarrow> wstate
    \<Rightarrow> (norm_error + step_result list) \<times> wstate" where
  "step_tactics srv now g site [] ws = (Inr [], ws)"
| "step_tactics srv now g site (t # ts) ws =
     (case step_one_tactic srv now g site t ws of
        (Inl e, ws1) \<Rightarrow> (Inl e, ws1)
      | (Inr r, ws1) \<Rightarrow>
          (case step_tactics srv now g site ts ws1 of
             (Inl e, ws2) \<Rightarrow> (Inl e, ws2)
           | (Inr rs, ws2) \<Rightarrow> (Inr (r # rs), ws2)))"

text \<open>\<open>_resume_goal_group\<close>: the goal identifiers of the group, continued as one state.\<close>

definition resume_goal_group :: "'g lean_server \<Rightarrow> 'g \<Rightarrow> int list \<Rightarrow> wstate \<Rightarrow> (py_exn + 'g) \<times> wstate" where
  "resume_goal_group srv g grp ws =
     (case lean_continue srv (ws_calls ws) g (map (\<lambda>i. pg_id (lean_goals srv g ! nat i)) grp) of
        Inl e \<Rightarrow> (Inl e, tick ws)
      | Inr (ContinueFailed why, g') \<Rightarrow> (Inl (runtime_error (lit ''goal.continue failed: '' @ why)), tick ws)
      | Inr (ContinueOk, g') \<Rightarrow> (Inr g', tick ws))"

definition focus_state :: "'g lean_server \<Rightarrow> pystr \<Rightarrow> int option \<Rightarrow> bool option \<Rightarrow> int list option \<Rightarrow> wstate
    \<Rightarrow> (py_exn + 'g \<times> site) \<times> wstate" where
  "focus_state srv parent_path goal_id auto_resume goal_group ws =
     (case lean_load srv (ws_calls ws) parent_path of
        Inl e \<Rightarrow> (Inl e, tick ws)
      | Inr g \<Rightarrow>
          (case goal_group of
             None \<Rightarrow> (Inr (g, \<lparr>site_goal = goal_id, site_resume = auto_resume\<rparr>), tick ws)
           | Some grp \<Rightarrow>
               (case validate_goal_group grp (int (length (lean_goals srv g))) of
                  Inl err \<Rightarrow> (Inl (value_error (group_error_text err)), tick ws)
                | Inr u \<Rightarrow>
                    (case resume_goal_group srv g grp (tick ws) of
                       (Inl e, ws1) \<Rightarrow> (Inl e, ws1)
                     | (Inr g', ws1) \<Rightarrow> (Inr (g', \<lparr>site_goal = None, site_resume = None\<rparr>), ws1)))))"

definition step_state :: "'g lean_server \<Rightarrow> int \<Rightarrow> pystr \<Rightarrow> pystr list \<Rightarrow> int option \<Rightarrow> bool option
    \<Rightarrow> int list option \<Rightarrow> wstate \<Rightarrow> (norm_error + step_result list) \<times> wstate" where
  "step_state srv now parent_path tactics goal_id auto_resume goal_group ws =
     (case focus_state srv parent_path goal_id auto_resume goal_group ws of
        (Inl e, ws1) \<Rightarrow> (ebind (exception_to_exec_messages e) (\<lambda>ms. Inr (map (\<lambda>t. \<lparr>sr_tactic = t,
          sr_status = StError, sr_path = None, sr_goals = [], sr_messages = ms\<rparr>) tactics)), ws1)
      | (Inr (g, site), ws1) \<Rightarrow> step_tactics srv now g site tactics ws1)"

section \<open>Verifying\<close>

text \<open>\<open>re.search(r"depends on axioms: \[(.*)\]", data)\<close>: a dot does not match a newline.\<close>

fun search_axioms :: "pystr \<Rightarrow> pystr option" where
  "search_axioms [] = None"
| "search_axioms (c # s) =
     (let prefix = lit ''depends on axioms: ['';
          line = takeWhile (\<lambda>d. d \<noteq> 10) (drop (length prefix) (c # s))
      in if starts_with prefix (c # s) \<and> 93 \<in> set line
         then Some (rev (drop 1 (dropWhile (\<lambda>d. d \<noteq> 93) (rev line))))
         else search_axioms s)"

definition split_axioms :: "pystr \<Rightarrow> pystr list" where
  "split_axioms raw = filter (\<lambda>a. a \<noteq> []) (map strip (split_on 44 (strip raw)))"

fun extract_axioms :: "exec_message list \<Rightarrow> pystr list" where
  "extract_axioms [] = []"
| "extract_axioms (m # ms) =
     (case search_axioms (em_data m) of
        Some raw \<Rightarrow> split_axioms raw
      | None \<Rightarrow> if contains (lit ''does not depend on any axioms'') (em_data m) then []
                else extract_axioms ms)"

definition mentions_sorry :: "exec_message \<Rightarrow> bool" where
  "mentions_sorry m = contains (lit ''sorry'') (lower (em_data m))"

definition payload_has_sorry :: "payload \<Rightarrow> bool" where
  "payload_has_sorry p = (case p of PMessage m \<Rightarrow> pm_has_sorry m | _ \<Rightarrow> False)"

definition verify_source :: "pystr \<Rightarrow> pystr \<Rightarrow> pystr" where
  "verify_source code theorem_name = rstrip code @ [10] @ lit ''#print axioms '' @ theorem_name"

definition judge_units :: "payload list list \<Rightarrow> pystr list \<Rightarrow> norm_error + verify_result" where
  "judge_units units allowed =
     ebind (econcat (map messages_to_exec_messages units)) (\<lambda>messages.
     ebind (messages_to_exec_messages (concat units)) (\<lambda>again.
       let axioms = extract_axioms messages;
           disallowed = sort (remdups (filter (\<lambda>a. a \<notin> set allowed) axioms));
           has_errors = list_ex (\<lambda>m. em_severity m = SevError) messages;
           has_sorry = list_ex (\<lambda>(raw, m). mentions_sorry m \<or> payload_has_sorry raw)
             (zip (concat units) again);
           messages' = (if disallowed = [] then messages
             else messages @ [\<lparr>em_severity = SevError,
                em_data = lit ''disallowed axioms: '' @ join (lit '', '') disallowed,
                em_pos = None, em_end = None\<rparr>])
       in Inr \<lparr>vr_status = (if has_errors \<or> has_sorry \<or> disallowed \<noteq> [] then VRejected else VAccepted),
               vr_axioms = axioms, vr_messages = messages'\<rparr>))"

definition verify_proof :: "'g lean_server \<Rightarrow> pystr \<Rightarrow> pystr \<Rightarrow> pystr list \<Rightarrow> wstate
    \<Rightarrow> (norm_error + verify_result) \<times> wstate" where
  "verify_proof srv code theorem_name allowed ws =
     (case lean_compile srv (ws_calls ws) (verify_source code theorem_name) of
        Inl e \<Rightarrow> (ebind (exception_to_exec_messages e)
            (\<lambda>ms. Inr \<lparr>vr_status = VError, vr_axioms = [], vr_messages = ms\<rparr>), tick ws)
      | Inr units \<Rightarrow> (judge_units units allowed, tick ws))"

section \<open>Scratch files left behind\<close>

text \<open>The directory gained exactly these new scratch files.\<close>

definition files_grew :: "directory \<Rightarrow> directory \<Rightarrow> pystr list \<Rightarrow> bool" where
  "files_grew old new paths \<longleftrightarrow> distinct paths \<and>
     (\<forall>p\<in>set paths. dget old p = None \<and> dget new p \<noteq> None \<and> scratch_name p) \<and>
     (\<forall>n. n \<notin> set paths \<longrightarrow> dget new n = dget old n)"

lemma files_grew_refl [simp]: "dget new = dget old \<Longrightarrow> files_grew old new []"
  by (simp add: files_grew_def)

lemma files_grew_trans:
  assumes "files_grew a b ps" "files_grew b c qs"
  shows "files_grew a c (ps @ qs)"
proof -
  have disj: "p \<notin> set qs" if "p \<in> set ps" for p
    using assms that unfolding files_grew_def by metis
  have "dget a p = None" if "p \<in> set qs" for p
    using assms that unfolding files_grew_def by metis
  moreover have "dget c p \<noteq> None" if "p \<in> set ps" for p
    using assms that disj [OF that] unfolding files_grew_def by metis
  ultimately show ?thesis
    using assms disj unfolding files_grew_def by auto
qed

lemma files_grew_single:
  "dget old p = None \<Longrightarrow> scratch_name p \<Longrightarrow> dget new = (dget old)(p \<mapsto> f) \<Longrightarrow> files_grew old new [p]"
  by (simp add: files_grew_def)

lemma tick_files [simp]: "ws_files (tick ws) = ws_files ws"
  by (simp add: tick_def)

lemma temp_scratch: "scratch_name (lit ''pg_'' @ x @ lit ''.bin'')"
  by (simp add: scratch_name_def ends_with_iff)

lemma allocate_path_files:
  "allocate_path k srv now ws = (r, ws') \<Longrightarrow> (case r of
      Inl e \<Rightarrow> dget (ws_files ws') = dget (ws_files ws)
    | Inr p \<Rightarrow> dget (ws_files ws) p = None \<and> scratch_name p \<and>
        (\<exists>f. dget (ws_files ws') = (dget (ws_files ws))(p \<mapsto> f)))"
proof (induction k srv now ws rule: allocate_path.induct)
  case (2 k srv now ws)
  show ?case
  proof (cases "dget (ws_files ws) (lit ''pg_'' @ lean_temp srv (ws_calls ws) @ lit ''.bin'') = None")
    case True
    with "2.prems" show ?thesis by (auto simp: Let_def temp_scratch)
  next
    case False
    with 2 show ?thesis by (cases r) (auto simp: Let_def)
  qed
qed auto

lemma save_goal_files:
  "save_goal srv now g p ws = (r, ws') \<Longrightarrow> (case r of
      Inl e \<Rightarrow> dget (ws_files ws') = dget (ws_files ws)
    | Inr u \<Rightarrow> \<exists>f. dget (ws_files ws') = (dget (ws_files ws))(p \<mapsto> f))"
  by (auto simp: save_goal_def split: sum.splits)

definition result_paths :: "step_result list \<Rightarrow> pystr list" where
  "result_paths rs = concat (map (\<lambda>r. case sr_path r of None \<Rightarrow> [] | Some p \<Rightarrow> [p]) rs)"

definition step_result_ok :: "pystr \<Rightarrow> step_result \<Rightarrow> bool" where
  "step_result_ok tactic r \<longleftrightarrow> sr_tactic r = tactic \<and> (sr_status r = StOpen \<longleftrightarrow> sr_path r \<noteq> None) \<and>
     sr_status r \<in> {StOpen, StComplete, StError} \<and> (sr_path r = None \<longrightarrow> sr_goals r = [])"

lemma step_failed_ok:
  "step_failed tactic e = Inr r \<Longrightarrow> step_result_ok tactic r \<and> sr_path r = None"
  by (auto simp: step_failed_def step_result_ok_def)

text \<open>Allocating and saving a file: either it is there afterwards, or the directory is as before.\<close>

lemma step_one_files:
  assumes "step_one_tactic srv now g site tactic ws = (Inr r, ws')"
  shows "step_result_ok tactic r \<and> files_grew (ws_files ws) (ws_files ws') (result_paths [r])"
proof (cases "lean_tactic srv (ws_calls ws) g tactic site")
  case (Inl e)
  with assms show ?thesis by (auto simp: step_one_tactic_def result_paths_def dest: step_failed_ok)
next
  case (Inr child)
  note tac = Inr
  show ?thesis
  proof (cases "messages_to_exec_messages (lean_messages srv child)")
    case (Inl err)
    with assms tac show ?thesis
      by (auto simp: step_one_tactic_def result_paths_def dest: step_failed_ok)
  next
    case (Inr ms)
    note msgs = Inr
    show ?thesis
    proof (cases "lean_solved srv child")
      case True
      with assms tac msgs show ?thesis
        by (auto simp: step_one_tactic_def result_paths_def step_result_ok_def)
    next
      case False
      obtain a ws1 where a: "allocate_path tmp_max srv now (tick ws) = (a, ws1)" by force
      note alloc = allocate_path_files [OF a]
      show ?thesis
      proof (cases a)
        case (Inl e)
        with assms tac msgs False a alloc show ?thesis
          by (auto simp: step_one_tactic_def result_paths_def dest: step_failed_ok)
      next
        case (Inr p)
        then obtain f where f: "dget (ws_files ws) p = None" "scratch_name p"
          "dget (ws_files ws1) = (dget (ws_files ws))(p \<mapsto> f)" using alloc by auto
        obtain s ws2 where s: "save_goal srv now child p ws1 = (s, ws2)" by force
        note saved = save_goal_files [OF s]
        show ?thesis
        proof (cases s)
          case (Inl e)
          have "dget (ws_files (unlink p ws2)) = dget (ws_files ws)"
            using saved Inl f by (auto simp: unlink_def fun_eq_iff)
          with assms tac msgs False a Inr s Inl show ?thesis
            by (auto simp: step_one_tactic_def result_paths_def dest: step_failed_ok)
        next
          case (Inr u)
          then obtain f' where "dget (ws_files ws2) = (dget (ws_files ws))(p \<mapsto> f')"
            using saved f by auto
          with f have "files_grew (ws_files ws) (ws_files ws2) [p]" by (rule_tac files_grew_single)
          with assms tac msgs False a \<open>a = Inr p\<close> s Inr show ?thesis
            by (auto simp: step_one_tactic_def result_paths_def step_result_ok_def)
        qed
      qed
    qed
  qed
qed

lemma step_tactics_files:
  "step_tactics srv now g site ts ws = (Inr rs, ws') \<Longrightarrow>
     list_all2 step_result_ok ts rs \<and> files_grew (ws_files ws) (ws_files ws') (result_paths rs)"
proof (induction ts arbitrary: ws rs)
  case Nil
  then show ?case by (simp add: result_paths_def)
next
  case (Cons t ts)
  obtain q ws1 where q: "step_one_tactic srv now g site t ws = (q, ws1)" by force
  with Cons.prems obtain r where r: "q = Inr r" by (cases q) auto
  obtain q2 ws2 where q2: "step_tactics srv now g site ts ws1 = (q2, ws2)" by force
  with Cons.prems q r obtain rs' where rs': "q2 = Inr rs'" "rs = r # rs'" "ws' = ws2"
    by (cases q2) auto
  have one: "step_result_ok t r \<and> files_grew (ws_files ws) (ws_files ws1) (result_paths [r])"
    using q unfolding r by (rule step_one_files)
  have rest: "list_all2 step_result_ok ts rs' \<and> files_grew (ws_files ws1) (ws_files ws') (result_paths rs')"
    by (rule Cons.IH) (simp add: q2 rs')
  have "result_paths rs = result_paths [r] @ result_paths rs'"
    by (simp add: rs'(2) result_paths_def)
  moreover have "files_grew (ws_files ws) (ws_files ws') (result_paths [r] @ result_paths rs')"
    using one rest by (blast intro: files_grew_trans)
  ultimately show ?case using one rest rs'(2) by simp
qed

lemma focus_files: "focus_state srv p gi ar gg ws = (r, ws') \<Longrightarrow> ws_files ws' = ws_files ws"
  by (auto simp: focus_state_def resume_goal_group_def
      split: sum.splits option.splits prod.splits continue_reply.splits)

lemma save_targets_files:
  "save_targets srv now gs written states ws = (r, written', ws') \<Longrightarrow>
   \<exists>new. written' = written @ new \<and> files_grew (ws_files ws) (ws_files ws') new \<and>
     (\<forall>ss. r = Inr ss \<longrightarrow> map sv_path ss = map sv_path states @ new)"
proof (induction gs arbitrary: written states ws)
  case Nil
  then show ?case by auto
next
  case (Cons g gs)
  obtain a ws1 where a: "allocate_path tmp_max srv now ws = (a, ws1)" by force
  note alloc = allocate_path_files [OF a]
  show ?case
  proof (cases a)
    case (Inl e)
    with Cons.prems a alloc show ?thesis by auto
  next
    case (Inr p)
    then obtain f where f: "dget (ws_files ws) p = None" "scratch_name p"
      "dget (ws_files ws1) = (dget (ws_files ws))(p \<mapsto> f)" using alloc by auto
    obtain s ws2 where s: "save_goal srv now g p ws1 = (s, ws2)" by force
    note saved = save_goal_files [OF s]
    have "dget (ws_files ws2) p \<noteq> None \<and> (\<forall>n. n \<noteq> p \<longrightarrow> dget (ws_files ws2) n = dget (ws_files ws) n)"
      using saved f by (cases s) auto
    then have grew: "files_grew (ws_files ws) (ws_files ws2) [p]"
      using f by (simp add: files_grew_def)
    show ?thesis
    proof (cases s)
      case (Inl e)
      with Cons.prems a Inr s grew show ?thesis by auto
    next
      case (Inr u)
      have "save_targets srv now gs (written @ [p])
          (states @ [\<lparr>sv_path = p, sv_goals = goals_of_state (lean_goals srv g)\<rparr>]) ws2 = (r, written', ws')"
        using Cons.prems a \<open>a = Inr p\<close> s Inr by simp
      from Cons.IH [OF this] obtain new where new: "written' = (written @ [p]) @ new"
        "files_grew (ws_files ws2) (ws_files ws') new"
        "\<forall>ss. r = Inr ss \<longrightarrow> map sv_path ss = map sv_path states @ [p] @ new" by auto
      have "files_grew (ws_files ws) (ws_files ws') ([p] @ new)"
        using grew new(2) by (rule files_grew_trans)
      with new(1,3) show ?thesis by auto
    qed
  qed
qed

lemma unlink_paths_files:
  "dget (ws_files (unlink_paths ps ws)) n = (if n \<in> set ps then None else dget (ws_files ws) n)"
proof (induction ps arbitrary: ws)
  case (Cons p ps)
  have "unlink_paths (p # ps) ws = unlink_paths ps (unlink p ws)" by (simp add: unlink_paths_def)
  with Cons show ?case by (simp add: unlink_def)
qed (simp add: unlink_paths_def)

section \<open>Reading the axioms Lean prints\<close>

lemma search_axioms_skip:
  assumes "91 \<notin> set pre"
  shows "search_axioms (pre @ lit ''depends on axioms: ['' @ rest) = search_axioms (lit ''depends on axioms: ['' @ rest)"
  using assms
proof (induction pre)
  case (Cons c pre)
  let ?p = "lit ''depends on axioms: [''"
  have nth: "?p ! 19 = 91" "length ?p = 20" by (simp_all add: lit_def)
  have "\<not> starts_with ?p (c # pre @ ?p @ rest)"
  proof
    assume "starts_with ?p (c # pre @ ?p @ rest)"
    then obtain w where w: "c # pre @ ?p @ rest = ?p @ w" by (auto simp: starts_with_iff)
    have at: "((c # pre) @ ?p @ rest) ! 19 = 91" using w nth by (simp add: nth_append)
    show False
    proof (cases "19 < length (c # pre)")
      case True
      then have "((c # pre) @ ?p @ rest) ! 19 \<in> set (c # pre)" by (metis nth_append nth_mem)
      with at Cons.prems show False by simp
    next
      case False
      define j where "j = 19 - length (c # pre)"
      have j: "j < 19" using False by (simp add: j_def)
      have "((c # pre) @ ?p @ rest) ! 19 = ?p ! j"
        using False j nth(2) by (simp add: nth_append j_def del: append_Cons)
      moreover have "?p ! j \<noteq> 91"
      proof -
        have "list_all (\<lambda>d. d \<noteq> 91) (take 19 ?p)" by (simp add: lit_def)
        then have "take 19 ?p ! j \<noteq> 91" using j nth(2) by (simp add: list_all_length)
        then show ?thesis using j by simp
      qed
      ultimately show False using at by simp
    qed
  qed
  then show ?case using Cons by (simp add: Let_def)
qed simp

lemma search_axioms_list:
  assumes "10 \<notin> set body"
  shows "search_axioms (lit ''depends on axioms: ['' @ body @ [93]) = Some body"
proof -
  let ?p = "lit ''depends on axioms: [''"
  obtain c s where cs: "?p @ body @ [93] = c # s" by (cases "?p @ body @ [93]") (auto simp: lit_def)
  have "takeWhile (\<lambda>d. d \<noteq> 10) (body @ [93]) = body @ [93]"
    using assms by (auto simp: takeWhile_eq_all_conv)
  then show ?thesis
    unfolding cs by (subst search_axioms.simps(2)) (simp add: cs [symmetric] Let_def)
qed

lemma split_on_join:
  "list_all (\<lambda>x. c \<notin> set x) xs \<Longrightarrow> xs \<noteq> [] \<Longrightarrow> split_on c (join [c] xs) = xs"
proof (induction xs rule: induct_list012)
  case (3 x y zs)
  have "split_on c (x @ c # s) = x # split_on c s" if "c \<notin> set x" for x s
    using that by (induction x) (auto split: list.splits)
  with 3 show ?case by simp
next
  case (2 x)
  have "split_on c x = [x]" if "c \<notin> set x" for x
    using that by (induction x) (auto split: list.splits)
  with 2 show ?case by simp
qed simp

definition axiom_name :: "pystr \<Rightarrow> bool" where
  "axiom_name a \<longleftrightarrow> a \<noteq> [] \<and> strip a = a \<and> 44 \<notin> set a \<and> 10 \<notin> set a"

section \<open>Properties\<close>

lemma step_state_leaves:
  assumes "step_state srv now parent_path tactics goal_id auto_resume goal_group ws = (Inr rs, ws')"
  shows "list_all2 step_result_ok tactics rs \<and> files_grew (ws_files ws) (ws_files ws') (result_paths rs)"
proof -
  obtain r ws1 where f: "focus_state srv parent_path goal_id auto_resume goal_group ws = (r, ws1)" by force
  have files: "ws_files ws1 = ws_files ws" using f by (rule focus_files)
  show ?thesis
  proof (cases r)
    case (Inl e)
    with assms f obtain ms where "rs = map (\<lambda>t. \<lparr>sr_tactic = t, sr_status = StError, sr_path = None,
        sr_goals = [], sr_messages = ms\<rparr>) tactics" "ws' = ws1"
      by (auto simp: step_state_def)
    moreover from this have "result_paths rs = []" by (simp add: result_paths_def)
    ultimately show ?thesis
      by (simp add: files list_all2_conv_all_nth step_result_ok_def)
  next
    case (Inr gs)
    obtain g site where "gs = (g, site)" by force
    with assms f Inr have "step_tactics srv now g site tactics ws1 = (Inr rs, ws')"
      by (simp add: step_state_def)
    then show ?thesis using step_tactics_files files by metis
  qed
qed


text \<open>A Pantograph that fails on \<open>bad\<close>, solves with \<open>exact\<close> and otherwise leaves a goal open.\<close>

definition demo_server :: "pystr lean_server" where
  "demo_server = \<lparr>lean_load_sorry = \<lambda>n code. Inr [code], lean_save = \<lambda>n g. Inr 10,
     lean_load = \<lambda>n path. Inr [], lean_tactic = \<lambda>n g t s. if t = lit ''bad''
       then Inl \<lparr>ex_class = lit ''TacticFailure'', ex_args = [], ex_args_text = []\<rparr> else Inr t,
     lean_continue = \<lambda>n g ids. Inr (ContinueOk, g), lean_compile = \<lambda>n code. Inr [],
     lean_goals = \<lambda>g. [], lean_messages = \<lambda>g. [], lean_solved = \<lambda>g. g = lit ''exact'',
     lean_temp = \<lambda>n. str_int (int n), lean_validation_exn = \<lambda>e.
       \<lparr>ex_class = lit ''ValidationError'', ex_args = [], ex_args_text = []\<rparr>\<rparr>"

definition demo_ws :: wstate where
  "demo_ws = \<lparr>ws_files = [], ws_calls = 0\<rparr>"

definition demo_step :: "(norm_error + step_result list) \<times> wstate" where
  "demo_step = step_state demo_server 5 (lit ''st_a.bin'') [lit ''intro'', lit ''bad'', lit ''exact'']
     None None None demo_ws"


text \<open>
  A proof is accepted only if Lean reported no error, no message mentions \<open>sorry\<close> and every axiom
  read from the messages is allowed; and every proof with these properties is accepted.
\<close>

theorem accepted_iff:
  assumes "judge_units units allowed = Inr r"
    and "econcat (map messages_to_exec_messages units) = Inr ms"
    and "messages_to_exec_messages (concat units) = Inr again"
  shows "vr_status r = VAccepted \<longleftrightarrow>
    list_all (\<lambda>m. em_severity m \<noteq> SevError) ms \<and> set (extract_axioms ms) \<subseteq> set allowed \<and>
    list_all (\<lambda>(raw, m). \<not> mentions_sorry m \<and> \<not> payload_has_sorry raw) (zip (concat units) again)"
proof -
  have dis: "sort (remdups (filter (\<lambda>a. a \<notin> set allowed) (extract_axioms ms))) = [] \<longleftrightarrow>
      set (extract_axioms ms) \<subseteq> set allowed"
  proof -
    have "sort xs = [] \<longleftrightarrow> xs = []" for xs :: "pystr list" by (metis length_0_conv length_sort)
    then show ?thesis by (auto simp: filter_empty_conv)
  qed
  have "vr_status r = (if list_ex (\<lambda>m. em_severity m = SevError) ms \<or>
      list_ex (\<lambda>(raw, m). mentions_sorry m \<or> payload_has_sorry raw) (zip (concat units) again) \<or>
      \<not> set (extract_axioms ms) \<subseteq> set allowed then VRejected else VAccepted)"
    using arg_cong [OF assms(1) [unfolded judge_units_def assms(2,3) ebind.simps Let_def dis],
        of "\<lambda>x. vr_status (projr x)", symmetric]
    by (simp only: sum.sel verify_result.select_convs)
  then show ?thesis by (auto simp: list_all_iff list_ex_iff split: if_splits)
qed

definition demo_message :: "string \<Rightarrow> payload" where
  "demo_message s = PMessage \<lparr>pm_severity = Some (lit ''info''), pm_data = lit s, pm_text = lit s,
     pm_pos = None, pm_pos_end = None, pm_has_sorry = False\<rparr>"

definition demo_exec :: "string \<Rightarrow> exec_message" where
  "demo_exec s = \<lparr>em_severity = SevInfo, em_data = lit s, em_pos = None, em_end = None\<rparr>"

theorem accepted_iff_witness:
  "\<exists>r. judge_units [[demo_message ''t depends on axioms: [propext, bad]'']] [lit ''propext''] = Inr r \<and>
     vr_status r \<noteq> VAccepted"
proof -
  let ?u = "[[demo_message ''t depends on axioms: [propext, bad]'']]"
  have ms: "econcat (map messages_to_exec_messages ?u) =
      Inr [demo_exec ''t depends on axioms: [propext, bad]'']"
    "messages_to_exec_messages (concat ?u) = Inr [demo_exec ''t depends on axioms: [propext, bad]'']"
    by code_simp+
  obtain r where r: "judge_units ?u [lit ''propext''] = Inr r"
    using ms by (auto simp: judge_units_def Let_def)
  have "\<not> set (extract_axioms [demo_exec ''t depends on axioms: [propext, bad]'']) \<subseteq> set [lit ''propext'']"
    by code_simp
  then have "vr_status r \<noteq> VAccepted" using accepted_iff [OF r ms] by blast
  with r show ?thesis by blast
qed

text \<open>
  The axioms are read back from the line Lean prints, \<open>'name' depends on axioms: [a, b, c]\<close>:
  exactly the listed names in their order, when the line is the first to speak of axioms.
\<close>

theorem axioms_roundtrip:
  assumes "names \<noteq> []" "list_all axiom_name names" "91 \<notin> set pre"
    and "em_data m = pre @ lit ''depends on axioms: ['' @ join (lit '', '') names @ [93]"
  shows "extract_axioms (m # ms) = names"
proof -
  let ?body = "join (lit '', '') names"
  have comma: "lit '', '' = [44, 32]" by (simp add: lit_def)
  have body: "?body = join [44] (hd names # map (\<lambda>a. 32 # a) (tl names))"
  proof (cases names)
    case (Cons x xs)
    have "join [44, 32] (x # xs) = join [44] (x # map (\<lambda>a. 32 # a) xs)" for x
    proof (induction xs arbitrary: x)
      case (Cons y ys)
      have "join [44] ((32 # y) # map (\<lambda>a. 32 # a) ys) = 32 # join [44] (y # map (\<lambda>a. 32 # a) ys)"
        by (cases ys) simp_all
      then show ?case using Cons [of y] by simp
    qed simp
    then show ?thesis by (simp add: comma Cons)
  qed (use assms(1) in simp)
  have nl: "10 \<notin> set ?body"
    using assms(2) by (induction names rule: induct_list012) (auto simp: comma axiom_name_def)
  have hd: "axiom_name (hd names)" "axiom_name (last names)"
    using assms(1,2) by (simp_all add: list_all_iff)
  have "last ?body = last (last names)" "hd ?body = hd (hd names)" "?body \<noteq> []"
    using assms(1,2) by (induction names rule: induct_list012) (auto simp: comma axiom_name_def)
  moreover have "\<not> is_space (last a)" "\<not> is_space (hd a)" if "axiom_name a" for a
    using strip_ends [of a] that by (auto simp: axiom_name_def)
  ultimately have strip: "strip ?body = ?body" using hd by (simp add: strip_id)
  have "split_on 44 ?body = hd names # map (\<lambda>a. 32 # a) (tl names)"
    unfolding body using assms(1,2)
    by (intro split_on_join) (auto simp: list_all_iff axiom_name_def dest: list.set_sel)
  moreover have "strip (32 # a) = a" if "axiom_name a" for a
    using that by (simp add: axiom_name_def strip_def lstrip_def lstrip_by_def is_space_def)
  ultimately have "map strip (split_on 44 ?body) = names"
    using assms(1,2) by (cases names) (auto simp: axiom_name_def list_all_iff intro!: map_idI)
  then have "split_axioms ?body = names"
    using assms(2) by (simp add: split_axioms_def strip list_all_iff axiom_name_def)
  moreover have "search_axioms (em_data m) = Some ?body"
    unfolding assms(4) using search_axioms_skip [OF assms(3)] search_axioms_list [OF nl] by simp
  ultimately show ?thesis by simp
qed

theorem axioms_roundtrip_witness:
  "extract_axioms [demo_exec ''thm depends on axioms: [propext, Quot.sound]''] =
     [lit ''propext'', lit ''Quot.sound'']"
proof -
  have "list_all axiom_name [lit ''propext'', lit ''Quot.sound'']" by code_simp
  moreover have "91 \<notin> set (lit ''thm '')" by code_simp
  moreover have "em_data (demo_exec ''thm depends on axioms: [propext, Quot.sound]'') =
      lit ''thm '' @ lit ''depends on axioms: ['' @ join (lit '', '') [lit ''propext'', lit ''Quot.sound''] @ [93]"
    by code_simp
  ultimately show ?thesis by (intro axioms_roundtrip) simp_all
qed

text \<open>
  The reading of the axioms can be fooled, and then any axiom is accepted: a list that Lean wraps
  over two lines is not seen at all (the dot of the pattern stops at the newline), and an earlier
  message of the checked code itself that says \<open>does not depend on any axioms\<close> ends the search.
\<close>

theorem axiom_check_bypassed:
  "map_sum id vr_status (judge_units [[demo_message (''t depends on axioms: [evil.axiom,'' @ [CHR 10] @ '' propext]'')]] []) =
     Inr VAccepted \<and>
   map_sum id vr_status (judge_units [[demo_message ''x does not depend on any axioms'',
     demo_message ''t depends on axioms: [evil.axiom]'']] []) = Inr VAccepted \<and>
   map_sum id vr_status (judge_units [[demo_message ''t depends on axioms: [evil.axiom]'']] []) = Inr VRejected"
  by code_simp

end
