(* ===== verification/ExecRoutes.thy ===== *)
theory ExecRoutes
  imports Split Lifecycle StoreProps WorkerPool Worker Sched Limiter
begin

text \<open>
  The handlers of \<open>server/routers/exec.py\<close> (but for step batches, which have their own theory), with
  \<open>server/exec_metrics.py\<close>, \<open>server/exec_stats.py\<close> and \<open>server/auth.py\<close>.  A handler that awaits is split
  at its awaits into the sections that run without interruption; between two sections anything may
  happen to the shared state.  Diagnostics (elapsed times and resource use) are left out of the
  results.
\<close>

section \<open>Metrics\<close>

type_synonym counter = "(pystr, int) pydict"

record metrics =
  mx_endpoints :: counter
  mx_rejected :: counter
  mx_exec :: counter
  mx_cleanup :: counter
  mx_cancel :: counter

definition new_metrics :: metrics where
  "new_metrics = \<lparr>mx_endpoints = [], mx_rejected = [], mx_exec = [], mx_cleanup = [], mx_cancel = []\<rparr>"

definition counter_add :: "pystr \<Rightarrow> counter \<Rightarrow> counter" where
  "counter_add k c = dset k (dget_or c k 0 + 1) c"

definition counter_update :: "pystr list \<Rightarrow> counter \<Rightarrow> counter" where
  "counter_update ks c = foldl (\<lambda>c k. counter_add k c) c ks"

definition record_endpoint :: "pystr \<Rightarrow> metrics \<Rightarrow> metrics" where
  "record_endpoint e m = m\<lparr>mx_endpoints := counter_add e (mx_endpoints m)\<rparr>"

definition record_rejection :: "pystr \<Rightarrow> metrics \<Rightarrow> metrics" where
  "record_rejection r m = m\<lparr>mx_rejected := counter_add r (mx_rejected m)\<rparr>"

definition record_exec_statuses :: "pystr list \<Rightarrow> metrics \<Rightarrow> metrics" where
  "record_exec_statuses ss m = m\<lparr>mx_exec := counter_update ss (mx_exec m)\<rparr>"

definition record_cleanup_statuses :: "pystr list \<Rightarrow> metrics \<Rightarrow> metrics" where
  "record_cleanup_statuses ss m = m\<lparr>mx_cleanup := counter_update ss (mx_cleanup m)\<rparr>"

definition record_cancel_statuses :: "pystr list \<Rightarrow> metrics \<Rightarrow> metrics" where
  "record_cancel_statuses ss m = m\<lparr>mx_cancel := counter_update ss (mx_cancel m)\<rparr>"

section \<open>API keys\<close>

datatype auth_error = MissingKey | InvalidKey

definition require_key :: "pystr option \<Rightarrow> pystr option \<Rightarrow> auth_error + pystr option" where
  "require_key configured auth =
     (case configured of
        None \<Rightarrow> Inr None
      | Some key \<Rightarrow>
          (case auth of
             None \<Rightarrow> Inl MissingKey
           | Some a \<Rightarrow>
               if a = [] then Inl MissingKey
               else (let token = strip (removeprefix (lit ''Bearer '') a)
                     in if token = key then Inr (Some token) else Inl InvalidKey)))"

section \<open>Request caps\<close>

datatype route_error = CreateTooManyItems | AcquireCapExceeded | StepCapExceeded

record route_caps =
  rc_items :: int
  rc_acquire_ms :: int
  rc_step_ms :: int

fun check_timeouts :: "route_caps \<Rightarrow> (int \<times> int) list \<Rightarrow> route_error + unit" where
  "check_timeouts caps [] = Inr ()"
| "check_timeouts caps ((am, sm) # xs) =
     (if rc_acquire_ms caps < am then Inl AcquireCapExceeded
      else if rc_step_ms caps < sm then Inl StepCapExceeded
      else check_timeouts caps xs)"

text \<open>\<open>_validate_create_request\<close> and \<open>_validate_verify_request\<close> on the items' two timeouts.\<close>

definition validate_create_request :: "route_caps \<Rightarrow> (int \<times> int) list \<Rightarrow> route_error + unit" where
  "validate_create_request caps items =
     (if rc_items caps < int (length items) then Inl CreateTooManyItems else check_timeouts caps items)"

definition validate_verify_request :: "route_caps \<Rightarrow> (int \<times> int) list \<Rightarrow> route_error + unit" where
  "validate_verify_request caps items =
     (if rc_items caps < int (length items) then Inl CreateTooManyItems else check_timeouts caps items)"

section \<open>Cleanup and cancel\<close>

datatype cleanup_outcome = CleanupInFlight int | CleanupPinned int | CleanupDeleted delete_stats

text \<open>One pass of the loop of \<open>cleanup\<close>.\<close>

definition cleanup_one :: "pystr \<Rightarrow> int \<Rightarrow> store \<times> registry \<Rightarrow> (store \<times> registry) \<times> cleanup_outcome" where
  "cleanup_one item now = (\<lambda>(st, reg).
     case cleanup_decision_of item now reg of
       (reg1, Defer sn) \<Rightarrow> ((st, reg1), CleanupInFlight (sn_in_flight sn))
     | (reg1, Delete sn) \<Rightarrow>
         (case delete_by_item_id_all_or_none item st of
            (st1, DeletePinned n) \<Rightarrow> ((st1, reg1), CleanupPinned n)
          | (st1, DeleteDone ds) \<Rightarrow> ((st1, fst (mark_cleaned item now reg1)), CleanupDeleted ds)))"

fun cleanup_items :: "pystr list \<Rightarrow> int \<Rightarrow> store \<times> registry \<Rightarrow> (store \<times> registry) \<times> cleanup_outcome list" where
  "cleanup_items [] now s = (s, [])"
| "cleanup_items (i # is) now s =
     (let (s1, r) = cleanup_one i now s; (s2, rs) = cleanup_items is now s1 in (s2, r # rs))"

fun cancel_items :: "pystr list \<Rightarrow> int \<Rightarrow> registry \<Rightarrow> registry \<times> (lifecycle_status \<times> int) list" where
  "cancel_items [] now reg = (reg, [])"
| "cancel_items (i # is) now reg =
     (let (reg1, sn) = cancel_item i now reg; (reg2, rs) = cancel_items is now reg1
      in (reg2, (sn_status sn, sn_in_flight sn) # rs))"

section \<open>Creating states\<close>

definition error_message :: "pystr \<Rightarrow> exec_message" where
  "error_message text = \<lparr>em_severity = SevError, em_data = text, em_pos = None, em_end = None\<rparr>"

definition offset_pos :: "exec_pos option \<Rightarrow> int \<Rightarrow> exec_pos option" where
  "offset_pos p n = map_option (\<lambda>p. p\<lparr>ep_line := ep_line p + n\<rparr>) p"

definition offset_messages :: "exec_message list \<Rightarrow> int \<Rightarrow> exec_message list" where
  "offset_messages ms n =
     (if n \<le> 0 then ms
      else map (\<lambda>m. m\<lparr>em_pos := offset_pos (em_pos m) n, em_end := offset_pos (em_end m) n\<rparr>) ms)"

definition timeout_seconds :: "int \<Rightarrow> int" where
  "timeout_seconds ms = max ((ms + 999) div 1000) 1"

text \<open>The text of the cancellation messages; \<open>repr\<close> is Python's \<open>repr\<close> of the item id.\<close>

definition cancelled_text :: "(pystr \<Rightarrow> pystr) \<Rightarrow> pystr \<Rightarrow> pystr" where
  "cancelled_text repr item = lit ''item '' @ repr item @ lit '' is cancelled''"

record created_state =
  cs_token :: pystr
  cs_goals :: "goal list"

record created_item =
  ci_item :: pystr
  ci_status :: exec_status
  ci_states :: "created_state list"
  ci_messages :: "exec_message list"

definition plain_created :: "pystr \<Rightarrow> exec_status \<Rightarrow> pystr \<Rightarrow> created_item" where
  "plain_created item s text = \<lparr>ci_item = item, ci_status = s, ci_states = [],
     ci_messages = [error_message text]\<rparr>"

definition create_begin :: "(pystr \<Rightarrow> pystr) \<Rightarrow> pystr \<Rightarrow> int \<Rightarrow> registry \<Rightarrow> registry \<times> created_item option" where
  "create_begin repr item now reg =
     (case begin_item item now reg of
        (reg1, Started sn) \<Rightarrow> (reg1, None)
      | (reg1, BeginCancelled sn) \<Rightarrow> (reg1, Some (plain_created item StCancelled (cancelled_text repr item))))"

definition create_leased :: "(pystr \<Rightarrow> pystr) \<Rightarrow> pystr \<Rightarrow> registry \<Rightarrow> created_item option" where
  "create_leased repr item reg =
     (if should_cancel item reg
      then Some (plain_created item StCancelled (cancelled_text repr item)) else None)"

text \<open>The comprehension of \<open>put\<close> calls: \<open>None\<close> when the token factory never draws a free token.\<close>

fun put_states :: "(nat \<Rightarrow> nat \<Rightarrow> pystr) \<Rightarrow> nat \<Rightarrow> pystr \<Rightarrow> pystr \<Rightarrow> pystr \<Rightarrow> pystr \<Rightarrow> int \<Rightarrow> saved_state list
    \<Rightarrow> store \<Rightarrow> ((store_error + created_state list) \<times> store) option" where
  "put_states draws k item env header hash now [] st = Some (Inr [], st)"
| "put_states draws k item env header hash now (s # ss) st =
     (case put (draws k) 0 (sv_path s) item env header hash now st of
        None \<Rightarrow> None
      | Some (Inl e) \<Rightarrow> Some (Inl e, st)
      | Some (Inr (token, st1)) \<Rightarrow>
          (case put_states draws (Suc k) item env header hash now ss st1 of
             None \<Rightarrow> None
           | Some (Inl e, st2) \<Rightarrow> Some (Inl e, st2)
           | Some (Inr cs, st2) \<Rightarrow> Some (Inr (\<lparr>cs_token = token, cs_goals = sv_goals s\<rparr> # cs), st2)))"

text \<open>From the worker's result to the end of the handler; \<open>etext\<close> is \<open>str(exc)\<close>.\<close>

definition create_finished :: "(pystr \<Rightarrow> pystr) \<Rightarrow> (store_error \<Rightarrow> pystr) \<Rightarrow> (pystr \<Rightarrow> pystr)
    \<Rightarrow> (nat \<Rightarrow> nat \<Rightarrow> pystr) \<Rightarrow> pystr \<Rightarrow> pystr \<Rightarrow> split_result \<Rightarrow> int \<Rightarrow> create_result
    \<Rightarrow> store \<times> registry \<Rightarrow> (created_item \<times> store \<times> registry) option" where
  "create_finished repr etext hash draws item env sp now res = (\<lambda>(st, reg).
     if should_cancel item reg
     then Some (plain_created item StCancelled (cancelled_text repr item),
                fst (discard_paths (map (\<lambda>s. Some (sv_path s)) (cr_states res)) st),
                fst (finish_item item now reg))
     else (case put_states draws 0 item env (sr_header sp) (hash (sr_header sp)) now (cr_states res) st of
             None \<Rightarrow> None
           | Some (Inl e, st1) \<Rightarrow>
               Some (plain_created item StError (etext e), st1, fst (finish_item item now reg))
           | Some (Inr cs, st1) \<Rightarrow>
               Some (\<lparr>ci_item = item, ci_status = cr_status res, ci_states = cs,
                      ci_messages = offset_messages (cr_messages res) (int (sr_header_line_count sp))\<rparr>,
                     st1, fst (finish_item item now reg))))"

text \<open>
  The whole of \<open>create_one\<close>: what \<open>get_worker\<close> does and what the worker answers come as values, what
  the rest of the server does during the two awaits as the functions \<open>env1\<close> and \<open>env2\<close>; \<open>now\<close> is the
  time of the first section and \<open>later\<close> of the last.
\<close>

datatype lease_outcome = Leased | NoWorker pystr | LeaseFailed pystr

definition create_one :: "(pystr \<Rightarrow> pystr) \<Rightarrow> (store_error \<Rightarrow> pystr) \<Rightarrow> (pystr \<Rightarrow> pystr)
    \<Rightarrow> (nat \<Rightarrow> nat \<Rightarrow> pystr) \<Rightarrow> pystr \<Rightarrow> pystr \<Rightarrow> pystr \<Rightarrow> int \<Rightarrow> int \<Rightarrow> lease_outcome \<Rightarrow> pystr + create_result
    \<Rightarrow> (store \<times> registry \<Rightarrow> store \<times> registry) \<Rightarrow> (store \<times> registry \<Rightarrow> store \<times> registry)
    \<Rightarrow> store \<times> registry \<Rightarrow> (created_item \<times> store \<times> registry) option" where
  "create_one repr etext hash draws item env code now later lease outcome env1 env2 = (\<lambda>(st, reg).
     case create_begin repr item now reg of
       (reg1, Some r) \<Rightarrow> Some (r, st, reg1)
     | (reg1, None) \<Rightarrow>
         (let (st2, reg2) = env1 (st, reg1)
          in case lease of
               NoWorker text \<Rightarrow>
                 Some (plain_created item StOverloaded text, st2, fst (finish_item item later reg2))
             | LeaseFailed text \<Rightarrow>
                 Some (plain_created item StError text, st2, fst (finish_item item later reg2))
             | Leased \<Rightarrow>
                 (case create_leased repr item reg2 of
                    Some r \<Rightarrow> Some (r, st2, fst (finish_item item later reg2))
                  | None \<Rightarrow>
                      (let (st3, reg3) = env2 (st2, reg2)
                       in case outcome of
                            Inl text \<Rightarrow>
                              Some (plain_created item StError text, st3, fst (finish_item item later reg3))
                          | Inr res \<Rightarrow>
                              create_finished repr etext hash draws item env (split_snippet code) later res
                                (st3, reg3)))))"

section \<open>Verifying\<close>

record verified_item =
  vi_item :: pystr
  vi_theorem :: pystr
  vi_status :: verify_status
  vi_axioms :: "pystr list"
  vi_messages :: "exec_message list"

definition plain_verified :: "pystr \<Rightarrow> pystr \<Rightarrow> verify_status \<Rightarrow> pystr \<Rightarrow> verified_item" where
  "plain_verified item thm s text = \<lparr>vi_item = item, vi_theorem = thm, vi_status = s, vi_axioms = [],
     vi_messages = [error_message text]\<rparr>"

definition verify_begin :: "(pystr \<Rightarrow> pystr) \<Rightarrow> pystr \<Rightarrow> pystr \<Rightarrow> int \<Rightarrow> registry \<Rightarrow> registry \<times> verified_item option" where
  "verify_begin repr item thm now reg =
     (case begin_item item now reg of
        (reg1, Started sn) \<Rightarrow> (reg1, None)
      | (reg1, BeginCancelled sn) \<Rightarrow>
          (reg1, Some (plain_verified item thm VCancelled (cancelled_text repr item))))"

definition verify_leased :: "(pystr \<Rightarrow> pystr) \<Rightarrow> pystr \<Rightarrow> pystr \<Rightarrow> registry \<Rightarrow> verified_item option" where
  "verify_leased repr item thm reg =
     (if should_cancel item reg
      then Some (plain_verified item thm VCancelled (cancelled_text repr item)) else None)"

definition choose_axioms :: "pystr list option \<Rightarrow> pystr list \<Rightarrow> pystr list" where
  "choose_axioms requested configured = (case requested of None \<Rightarrow> configured | Some a \<Rightarrow> a)"

definition verify_finished :: "pystr \<Rightarrow> pystr \<Rightarrow> split_result \<Rightarrow> int \<Rightarrow> verify_result \<Rightarrow> registry
    \<Rightarrow> verified_item \<times> registry" where
  "verify_finished item thm sp now res reg =
     (\<lparr>vi_item = item, vi_theorem = thm, vi_status = vr_status res, vi_axioms = vr_axioms res,
       vi_messages = offset_messages (vr_messages res) (int (sr_header_line_count sp))\<rparr>,
      fst (finish_item item now reg))"

definition verify_one :: "(pystr \<Rightarrow> pystr) \<Rightarrow> pystr \<Rightarrow> pystr \<Rightarrow> pystr \<Rightarrow> int \<Rightarrow> int \<Rightarrow> lease_outcome
    \<Rightarrow> pystr + verify_result \<Rightarrow> (registry \<Rightarrow> registry) \<Rightarrow> (registry \<Rightarrow> registry)
    \<Rightarrow> registry \<Rightarrow> verified_item \<times> registry" where
  "verify_one repr item thm code now later lease outcome env1 env2 reg =
     (case verify_begin repr item thm now reg of
        (reg1, Some r) \<Rightarrow> (r, reg1)
      | (reg1, None) \<Rightarrow>
          (let reg2 = env1 reg1
           in case lease of
                NoWorker text \<Rightarrow>
                  (plain_verified item thm VOverloaded text, fst (finish_item item later reg2))
              | LeaseFailed text \<Rightarrow>
                  (plain_verified item thm VError text, fst (finish_item item later reg2))
              | Leased \<Rightarrow>
                  (case verify_leased repr item thm reg2 of
                     Some r \<Rightarrow> (r, fst (finish_item item later reg2))
                   | None \<Rightarrow>
                       (let reg3 = env2 reg2
                        in case outcome of
                             Inl text \<Rightarrow>
                               (plain_verified item thm VError text, fst (finish_item item later reg3))
                           | Inr res \<Rightarrow>
                               verify_finished item thm (split_snippet code) later res reg3))))"

section \<open>Statistics\<close>

record exec_stats =
  xs_store :: store_stats
  xs_pool :: pool_stats
  xs_lifecycle :: lifecycle_stats
  xs_limiter :: limiter_stats
  xs_metrics :: metrics

definition collect_exec_stats :: "store \<Rightarrow> pool \<Rightarrow> int \<Rightarrow> registry \<Rightarrow> limiter \<Rightarrow> metrics \<Rightarrow> registry \<times> exec_stats" where
  "collect_exec_stats st p now reg l m =
     (let (reg1, lc) = lifecycle_stats_of now reg
      in (reg1, \<lparr>xs_store = store_stats_of st, xs_pool = pool_stats_of p, xs_lifecycle = lc,
                 xs_limiter = limiter_stats_of l, xs_metrics = m\<rparr>))"

end
