(* ===== verification/ExecProps.thy ===== *)
theory ExecProps
  imports ExecRoutes
begin

text \<open>
  Properties of the handlers: source positions of the reported messages, the balance of work in
  flight over a handler, what a cleanup deletes and what it closes, and API keys.
\<close>

section \<open>Source positions\<close>

definition line_at :: "pystr \<Rightarrow> int \<Rightarrow> pystr" where
  "line_at code n = splitlines code ! nat (n - 1)"

lemma offset_messages_nth:
  assumes "i < length ms"
  shows "offset_messages ms n ! i = (ms ! i)\<lparr>em_pos := offset_pos (em_pos (ms ! i)) (max n 0),
    em_end := offset_pos (em_end (ms ! i)) (max n 0)\<rparr>"
  using assms by (auto simp: offset_messages_def offset_pos_def option.map_ident)

lemma offset_messages_length [simp]: "length (offset_messages ms n) = length ms"
  by (simp add: offset_messages_def)

section \<open>Work in flight over a handler\<close>

text \<open>What other requests may do meanwhile: keep the invariant, and release only their own work.\<close>

definition fair_env :: "pystr \<Rightarrow> (registry \<Rightarrow> registry) \<Rightarrow> bool" where
  "fair_env i env \<longleftrightarrow> (\<forall>reg. reg_inv reg \<longrightarrow> reg_inv (env reg) \<and> in_flight_of i (env reg) = in_flight_of i reg)"

lemma fair_envD:
  "fair_env i env \<Longrightarrow> reg_inv reg \<Longrightarrow> reg_inv (env reg)"
  "fair_env i env \<Longrightarrow> reg_inv reg \<Longrightarrow> in_flight_of i (env reg) = in_flight_of i reg"
  by (simp_all add: fair_env_def)

lemma begin_finish:
  assumes "reg_inv reg" "begin_item i now reg = (reg1, Started sn)"
    and "reg_inv reg2" "in_flight_of i reg2 = in_flight_of i reg1"
  shows "reg_inv (fst (finish_item i later reg2)) \<and>
    in_flight_of i (fst (finish_item i later reg2)) = in_flight_of i reg"
  using in_flight_begin [OF assms(1), of i i now] in_flight_of_nonneg [OF assms(1), of i] assms
  by (simp add: finish_inv in_flight_finish)

lemma begin_refused:
  assumes "reg_inv reg" "begin_item i now reg = (reg1, BeginCancelled sn)"
  shows "reg_inv reg1 \<and> in_flight_of i reg1 = in_flight_of i reg"
  using in_flight_begin [OF assms(1), of i i now] begin_inv [OF assms(1), of i now] assms(2) by simp

lemma verify_one_balance:
  assumes "reg_inv reg" "fair_env i env1" "fair_env i env2"
  shows "reg_inv (snd (verify_one repr i thm code now later lease out env1 env2 reg)) \<and>
    in_flight_of i (snd (verify_one repr i thm code now later lease out env1 env2 reg)) = in_flight_of i reg"
proof -
  obtain reg1 b where b: "begin_item i now reg = (reg1, b)" by force
  show ?thesis
  proof (cases b)
    case (Started sn)
    note bf = begin_finish [OF assms(1) b [unfolded Started]]
    have inv: "reg_inv reg1" using begin_inv [OF assms(1), of i now] b by simp
    note e1 = fair_envD [OF assms(2) inv] and e2 = fair_envD [OF assms(3)]
    show ?thesis
      using bf e1 e2 b Started
      by (auto simp: verify_one_def verify_begin_def verify_finished_def Let_def
          split: lease_outcome.split option.split sum.split)
  next
    case (BeginCancelled sn)
    with b begin_refused [OF assms(1)] show ?thesis by (simp add: verify_one_def verify_begin_def)
  qed
qed

text \<open>\<open>put_states\<close> stores one state per saved state, and touches no state that was there.\<close>

definition stored_as :: "pystr \<Rightarrow> pystr \<Rightarrow> pystr \<Rightarrow> pystr \<Rightarrow> int \<Rightarrow> store \<Rightarrow> pystr \<Rightarrow> bool" where
  "stored_as item env header hash now st t \<longleftrightarrow>
     (\<exists>size. state_view st t = Some (item, env, header, hash, now, size))"

lemma put_stored:
  assumes "put draw n path item env header hash now st = Some (Inr (u, st'))"
  shows "stored_as item env header hash now st' u"
  using assms by (auto simp: put_def put_with_token_def Let_def stored_as_def state_view_def
      write_metadata_def index_record_def split: if_splits option.splits)

lemma put_states_frame:
  "put_states draws k item env header hash now ss st = Some (Inr cs, st') \<Longrightarrow>
   (\<forall>t. has_state st t \<longrightarrow> state_view st' t = state_view st t) \<and>
   map cs_goals cs = map sv_goals ss \<and>
   list_all (\<lambda>c. dget (st_records st) (cs_token c) = None \<and>
     stored_as item env header hash now st' (cs_token c)) cs"
proof (induction ss arbitrary: k st cs)
  case Nil
  then show ?case by simp
next
  case (Cons s ss)
  obtain u st1 where put: "put (draws k) 0 (sv_path s) item env header hash now st = Some (Inr (u, st1))"
    using Cons.prems by (auto split: option.splits sum.splits)
  obtain cs1 where rest: "put_states draws (Suc k) item env header hash now ss st1 = Some (Inr cs1, st')"
    and cs: "cs = \<lparr>cs_token = u, cs_goals = sv_goals s\<rparr> # cs1"
    using Cons.prems put by (auto split: option.splits sum.splits)
  note f = put_frame [OF put] and st = put_stored [OF put] and ih = Cons.IH [OF rest]
  have has1: "has_state st1 t" "state_view st1 t = state_view st t" if "has_state st t" for t
    using f(2) [OF that] that by (auto simp: has_state_def state_view_def)
  have "stored_as item env header hash now st' u"
    using st ih f(4) by (auto simp: stored_as_def)
  moreover have "dget (st_records st) t = None" if "dget (st_records st1) t = None" for t
    using has1(1) [of t] that by (cases "dget (st_records st) t") (simp_all add: has_state_def)
  moreover have "state_view st' t = state_view st t" if "has_state st t" for t
    using has1 [OF that] ih by simp
  ultimately show ?case
    using ih f(3) cs by (auto simp: list_all_iff)
qed

lemma create_finished_balance:
  "create_finished repr etext hash draws item env sp later res (st, reg) = Some (ci, st', reg') \<Longrightarrow>
   reg' = fst (finish_item item later reg)"
  by (auto simp: create_finished_def split: if_splits option.splits sum.splits)

lemma cleanup_decision_facts:
  assumes "reg_inv reg" "cleanup_decision_of item now reg = (reg1, d)"
  shows "reg_inv reg1" "reg_retention reg1 = reg_retention reg"
    "d = Defer sn \<Longrightarrow> sn_in_flight sn = in_flight_of item reg"
proof -
  have r: "reg1 = fst (sweep_terminal now reg)"
    using assms(2) by (simp add: cleanup_decision_of_def Let_def)
  then show "reg_inv reg1" "reg_retention reg1 = reg_retention reg" using assms(1) by (simp_all add: sweep_inv)
  show "sn_in_flight sn = in_flight_of item reg" if "d = Defer sn"
    using that assms in_flight_of_sweep [OF assms(1), of item now]
    by (auto simp: cleanup_decision_of_def Let_def snapshot_of_def dget_or_in_flight split: if_splits)
qed

section \<open>Concrete requests\<close>

definition exec_reg :: registry where
  "exec_reg = \<lparr>reg_retention = 660, reg_records = []\<rparr>"

definition exec_code :: pystr where
  "exec_code = lit ''import Lean'' @ 10 # lit ''example''"

definition exec_store :: store where
  "exec_store = demo_store\<lparr>st_files := [(lit ''pg_1.bin'', \<lparr>fl_content = Blob 90, fl_mtime = 1\<rparr>)]\<rparr>"

definition exec_result :: create_result where
  "exec_result = \<lparr>cr_status = StOpen, cr_states = [\<lparr>sv_path = lit ''pg_1.bin'', sv_goals = []\<rparr>],
     cr_messages = [\<lparr>em_severity = SevWarning, em_data = lit ''hole'',
       em_pos = Some \<lparr>ep_line = 1, ep_col = 0\<rparr>, em_end = None\<rparr>]\<rparr>"

definition exec_created :: "(created_item \<times> store \<times> registry) option" where
  "exec_created = create_finished (\<lambda>s. s) (\<lambda>e. []) (\<lambda>s. s) (\<lambda>k n. lit ''a'') (lit ''i'') (lit ''e'')
     (split_snippet exec_code) 2 exec_result (exec_store, exec_reg)"

section \<open>Properties\<close>

text \<open>
  C19. Whatever way a create handler ends (refused, cancelled before or after the worker ran, no
  worker, a worker that failed to start, a worker that raised, or success), its item has as much work
  in flight afterwards as before, so a finished request never keeps an item from being cleaned up.
\<close>

theorem create_balances_in_flight:
  assumes "reg_inv reg"
    and e1: "\<And>st reg. reg_inv reg \<Longrightarrow> reg_inv (snd (env1 (st, reg))) \<and>
      in_flight_of i (snd (env1 (st, reg))) = in_flight_of i reg"
    and e2: "\<And>st reg. reg_inv reg \<Longrightarrow> reg_inv (snd (env2 (st, reg))) \<and>
      in_flight_of i (snd (env2 (st, reg))) = in_flight_of i reg"
    and run: "create_one repr etext hash draws i env code now later lease out env1 env2 (st, reg) =
      Some (ci, st', reg')"
  shows "reg_inv reg' \<and> in_flight_of i reg' = in_flight_of i reg"
proof -
  obtain reg1 b where b: "begin_item i now reg = (reg1, b)" by force
  show ?thesis
  proof (cases b)
    case (BeginCancelled sn)
    with b begin_refused [OF assms(1)] run show ?thesis
      by (auto simp: create_one_def create_begin_def)
  next
    case (Started sn)
    note bf = begin_finish [OF assms(1) b [unfolded Started], of _ later]
    have inv: "reg_inv reg1" using begin_inv [OF assms(1), of i now] b by simp
    obtain st2 reg2 where s2: "env1 (st, reg1) = (st2, reg2)" by force
    obtain st3 reg3 where s3: "env2 (st2, reg2) = (st3, reg3)" by force
    have r2: "reg_inv reg2 \<and> in_flight_of i reg2 = in_flight_of i reg1" using e1 [OF inv, of st] s2 by simp
    have r3: "reg_inv reg3 \<and> in_flight_of i reg3 = in_flight_of i reg1"
      using e2 [of reg2 st2] r2 s3 by simp
    have "reg' = fst (finish_item i later reg2) \<or> reg' = fst (finish_item i later reg3)"
      using run b Started s2 s3
      by (auto simp: create_one_def create_begin_def dest: create_finished_balance
          split: lease_outcome.splits option.splits sum.splits)
    with bf r2 r3 show ?thesis by blast
  qed
qed

theorem create_balances_in_flight_witness:
  "in_flight_of (lit ''i'') (snd (snd (the (create_one (\<lambda>s. s) (\<lambda>e. []) (\<lambda>s. s) (\<lambda>k n. lit ''a'') (lit ''i'')
     (lit ''e'') (lit ''example'') 1 2 (NoWorker (lit ''full'')) (Inl []) id id (demo_store, exec_reg))))) = 0"
proof -
  let ?run = "create_one (\<lambda>s. s) (\<lambda>e. []) (\<lambda>s. s) (\<lambda>k n. lit ''a'') (lit ''i'')
     (lit ''e'') (lit ''example'') 1 2 (NoWorker (lit ''full'')) (Inl []) id id (demo_store, exec_reg)"
  have "?run \<noteq> None" by code_simp
  then obtain ci st' reg' where run: "?run = Some (ci, st', reg')" by auto
  have inv: "reg_inv exec_reg" by (simp add: exec_reg_def reg_inv_def)
  have "in_flight_of (lit ''i'') reg' = in_flight_of (lit ''i'') exec_reg"
    using create_balances_in_flight [OF inv _ _ run] by simp
  moreover have "in_flight_of (lit ''i'') exec_reg = 0" by code_simp
  ultimately show ?thesis by (simp add: run)
qed



text \<open>
  C21. A cleanup answers \<open>in_flight\<close> exactly when work is in flight and then changes no state; it
  answers \<open>pinned\<close> with nothing changed; it answers \<open>deleted\<close> only when every state of the item is
  gone, and from then until the retention time is over no request can begin work for the item, so the
  deleted item stays empty.
\<close>

theorem cleanup_closes_item:
  assumes "run_inv st" "reg_inv reg" "cleanup_one item now (st, reg) = ((st', reg'), out)"
  shows "case out of
      CleanupInFlight n \<Rightarrow> st' = st \<and> n = in_flight_of item reg \<and> 0 < n
    | CleanupPinned n \<Rightarrow> st' = st \<and> 0 < n \<and> in_flight_of item reg = 0
    | CleanupDeleted ds \<Rightarrow> in_flight_of item reg = 0 \<and> tokens_of_item item st' = [] \<and>
        (\<forall>later. later < now + reg_retention reg \<longrightarrow>
          (\<exists>s. snd (begin_item item later reg') = BeginCancelled s))"
proof -
  obtain reg1 d where d: "cleanup_decision_of item now reg = (reg1, d)" by force
  obtain st1 dr where dr: "delete_by_item_id_all_or_none item st = (st1, dr)" by force
  have si: "store_inv st" using assms(1) by (simp add: run_inv_def)
  note iff = cleanup_decision_iff [OF assms(2), of item now, unfolded d snd_conv]
    and dec = cleanup_decision_facts [OF assms(2) d]
  show ?thesis
  proof (cases d)
    case (Defer sn)
    then show ?thesis
      using assms(3) d iff dec in_flight_of_nonneg [OF assms(2), of item] by (auto simp: cleanup_one_def)
  next
    case (Delete sn)
    show ?thesis
    proof (cases dr)
      case (DeletePinned n)
      with assms(3) d dr Delete iff cleanup_pinned [OF si dr [unfolded DeletePinned]] show ?thesis
        by (auto simp: cleanup_one_def)
    next
      case (DeleteDone ds)
      with assms(3) d dr Delete have out: "out = CleanupDeleted ds" "st' = st1"
        "reg' = fst (mark_cleaned item now reg1)" by (auto simp: cleanup_one_def)
      have "closed_until (now + reg_retention reg) item reg'"
        using dec(2) by (auto simp: out mark_cleaned_def Let_def closed_until_put set_terminal_def)
      moreover have "reg_inv reg'" unfolding out by (rule mark_cleaned_inv [OF dec(1)])
      ultimately show ?thesis
        using closed_until_begin(2) Delete iff out cleanup_done(1) [OF si dr [unfolded DeleteDone]] by auto
    qed
  qed
qed

theorem cleanup_closes_item_witness:
  "\<exists>s. snd (begin_item (lit ''i'') 100 (snd (fst (cleanup_one (lit ''i'') 9 (demo_store, exec_reg))))) =
     BeginCancelled s"
proof -
  let ?c = "cleanup_one (lit ''i'') 9 (demo_store, exec_reg)"
  have c: "cleanup_one (lit ''i'') 9 (demo_store, exec_reg) = ((fst (fst ?c), snd (fst ?c)), snd ?c)" by simp
  have inv: "reg_inv exec_reg" "run_inv demo_store"
    using empty_run_inv [OF demo_ops_ok(2)] by (simp_all add: exec_reg_def reg_inv_def)
  have "snd ?c = CleanupDeleted \<lparr>ds_states = 0, ds_bytes = 0\<rparr>" by code_simp
  then show ?thesis
    using cleanup_closes_item [OF inv(2,1) c] by (simp add: exec_reg_def)
qed

text \<open>
  With an API key configured, a request passes exactly when its \<open>Authorization\<close> header, without
  an optional \<open>Bearer\<close> prefix and surrounding white space, is the key and the header is not empty;
  without a configured key every request passes.
\<close>

theorem key_accepted_iff:
  "(\<exists>t. require_key configured auth = Inr t) \<longleftrightarrow>
     (configured = None \<or>
      (\<exists>key a. configured = Some key \<and> auth = Some a \<and> a \<noteq> [] \<and>
         strip (removeprefix (lit ''Bearer '') a) = key))"
  by (auto simp: require_key_def Let_def split: option.split)

end
