(* ===== verification/StepBatch.thy ===== *)
theory StepBatch
  imports ExecRoutes
begin

text \<open>
  \<open>execute_step_batch_process_pool\<close> of \<open>server/exec_backends.py\<close>: a batch pins the states it steps,
  registers work in flight for their items, runs the items in lanes that each own one leased worker,
  and releases pins and work at the end.  Lanes run concurrently with each other and with every other
  request, so the batch is a state machine: an event is one uninterrupted section of a lane (between
  two awaits) or an action of the rest of the server.  What other requests hold is part of the state,
  because they release only what they took.  Worker results arrive with the events; the sections the
  worker's theory describes are \<open>EvStore\<close> writes.
\<close>

section \<open>Requests and results\<close>

record batch_item =
  bi_node :: pystr
  bi_token :: pystr
  bi_tactics :: "pystr list"
  bi_acquire_ms :: int
  bi_step_ms :: int
  bi_goal_id :: "int option"
  bi_resume :: "bool option"
  bi_group :: "int list option"

record resolved =
  rv_index :: nat
  rv_item :: batch_item
  rv_record :: state_record

record tactic_result =
  tr_tactic :: pystr
  tr_status :: exec_status
  tr_token :: "pystr option"
  tr_goals :: "goal list"
  tr_messages :: "exec_message list"

record batch_result =
  br_node :: pystr
  br_results :: "tactic_result list"

definition item_status_result :: "batch_item \<Rightarrow> exec_status \<Rightarrow> pystr \<Rightarrow> batch_result" where
  "item_status_result it s text = \<lparr>br_node = bi_node it, br_results = map (\<lambda>t. \<lparr>tr_tactic = t,
     tr_status = s, tr_token = None, tr_goals = [], tr_messages = [error_message text]\<rparr>) (bi_tactics it)\<rparr>"

definition invalid_token_result :: "batch_item \<Rightarrow> batch_result" where
  "invalid_token_result it =
     item_status_result it StInvalidToken (lit ''state token not found: '' @ bi_token it)"

definition item_error_result :: "batch_item \<Rightarrow> pystr \<Rightarrow> batch_result" where
  "item_error_result it text = item_status_result it StError text"

section \<open>Resolving and pinning\<close>

text \<open>The first loop: slots, resolved items, and the store and registry afterwards.\<close>

fun begin_batch_items :: "(pystr \<Rightarrow> pystr) \<Rightarrow> int \<Rightarrow> nat \<Rightarrow> batch_item list \<Rightarrow> store \<Rightarrow> registry
    \<Rightarrow> batch_result option list \<times> resolved list \<times> store \<times> registry" where
  "begin_batch_items repr now k [] st reg = ([], [], st, reg)"
| "begin_batch_items repr now k (it # its) st reg =
     (case resolve_and_pin (bi_token it) now st of
        Inl e \<Rightarrow>
          (let (slots, rs, st', reg') = begin_batch_items repr now (Suc k) its st reg
           in (Some (invalid_token_result it) # slots, rs, st', reg'))
      | Inr (r, st1) \<Rightarrow>
          (case begin_item (rec_item r) now reg of
             (reg1, BeginCancelled sn) \<Rightarrow>
               (let (slots, rs, st', reg') = begin_batch_items repr now (Suc k) its (unpin (bi_token it) st1) reg1
                in (Some (item_status_result it StCancelled (cancelled_text repr (rec_item r))) # slots,
                    rs, st', reg'))
           | (reg1, Started sn) \<Rightarrow>
               (let (slots, rs, st', reg') = begin_batch_items repr now (Suc k) its st1 reg1
                in (None # slots, \<lparr>rv_index = k, rv_item = it, rv_record = r\<rparr> # rs, st', reg'))))"

section \<open>Lanes\<close>

datatype lane_phase = LaneReady | LaneAcquiring | LaneStepping | LaneDone

record lane =
  ln_items :: "resolved list"
  ln_leased :: bool
  ln_phase :: lane_phase

record bstate =
  bs_store :: store
  bs_reg :: registry
  bs_env_pins :: "pystr list"
  bs_env_items :: "pystr list"
  bs_slots :: "batch_result option list"
  bs_lanes :: "lane list"

definition resolved_key :: "resolved \<Rightarrow> compat_key" where
  "resolved_key rv = compatibility_key (rec_env (rv_record rv)) (rec_hash (rv_record rv))"

definition make_lanes :: "int \<Rightarrow> resolved list \<Rightarrow> lane list" where
  "make_lanes max_lanes rs =
     map (\<lambda>items. \<lparr>ln_items = items, ln_leased = False, ln_phase = LaneReady\<rparr>)
       (concat (map (\<lambda>(k, grp). distribute_items grp max_lanes) (group_items resolved_key rs)))"

text \<open>\<open>_step_batch_result_from_worker_results\<close>: children of the item's state for the open results.\<close>

fun promote_results :: "(nat \<Rightarrow> nat \<Rightarrow> pystr) \<Rightarrow> nat \<Rightarrow> int \<Rightarrow> pystr \<Rightarrow> step_result list \<Rightarrow> store
    \<Rightarrow> ((store_error + tactic_result list) \<times> store) option" where
  "promote_results draws k now parent [] st = Some (Inr [], st)"
| "promote_results draws k now parent (r # rs) st =
     (case (case (sr_status r, sr_path r) of
              (StOpen, Some path) \<Rightarrow>
                map_option (\<lambda>(t, st1). (map_sum id Some t, st1)) (create_child (draws k) 0 parent path now st)
            | _ \<Rightarrow> Some (Inr None, st)) of
        None \<Rightarrow> None
      | Some (Inl e, st1) \<Rightarrow> Some (Inl e, st1)
      | Some (Inr token, st1) \<Rightarrow>
          (case promote_results draws (Suc k) now parent rs st1 of
             None \<Rightarrow> None
           | Some (Inl e, st2) \<Rightarrow> Some (Inl e, st2)
           | Some (Inr trs, st2) \<Rightarrow>
               Some (Inr (\<lparr>tr_tactic = sr_tactic r, tr_status = sr_status r, tr_token = token,
                           tr_goals = sr_goals r, tr_messages = sr_messages r\<rparr> # trs), st2)))"

datatype batch_event =
    EvNext nat
  | EvLeased nat
  | EvNoWorker nat pystr
  | EvStepped nat "step_result list" "nat \<Rightarrow> nat \<Rightarrow> pystr" int bool
  | EvRaised nat pystr bool
  | EvStore int store_op
  | EvPin int pystr
  | EvUnpin pystr
  | EvBegin int pystr
  | EvFinish int pystr
  | EvCancel int pystr
  | EvCleanup int pystr
  | EvSweep int

definition set_lane :: "nat \<Rightarrow> lane \<Rightarrow> bstate \<Rightarrow> bstate" where
  "set_lane l ln b = b\<lparr>bs_lanes := (bs_lanes b)[l := ln]\<rparr>"

definition set_slot :: "nat \<Rightarrow> batch_result \<Rightarrow> bstate \<Rightarrow> bstate" where
  "set_slot i r b = b\<lparr>bs_slots := (bs_slots b)[i := Some r]\<rparr>"

text \<open>A lane answers its current item and goes on to the next one.\<close>

definition answer :: "nat \<Rightarrow> batch_result \<Rightarrow> bool \<Rightarrow> bstate \<Rightarrow> bstate" where
  "answer l r leased b =
     (let ln = bs_lanes b ! l
      in set_lane l (ln\<lparr>ln_items := tl (ln_items ln), ln_leased := leased, ln_phase := LaneReady\<rparr>)
           (set_slot (rv_index (hd (ln_items ln))) r b))"

definition rv_cancelled :: "bstate \<Rightarrow> resolved \<Rightarrow> bool" where
  "rv_cancelled b rv = should_cancel (rec_item (rv_record rv)) (bs_reg b)"

definition cancelled_result :: "(pystr \<Rightarrow> pystr) \<Rightarrow> resolved \<Rightarrow> batch_result" where
  "cancelled_result repr rv =
     item_status_result (rv_item rv) StCancelled (cancelled_text repr (rec_item (rv_record rv)))"

definition is_pin_op :: "store_op \<Rightarrow> bool" where
  "is_pin_op op = (case op of OpPin t \<Rightarrow> True | OpUnpin ts \<Rightarrow> True | _ \<Rightarrow> False)"

text \<open>
  The lane's sections: the head of the loop; the return of \<open>get_worker\<close>; its timeout; the return of
  the step, with the children promoted or the scratch files discarded; an exception of the step.  The
  flag says whether the worker is still alive, otherwise the lease is given up.
\<close>

definition lane_next :: "(pystr \<Rightarrow> pystr) \<Rightarrow> nat \<Rightarrow> bstate \<Rightarrow> bstate" where
  "lane_next repr l b =
     (let ln = bs_lanes b ! l
      in case ln_items ln of
           [] \<Rightarrow> set_lane l (ln\<lparr>ln_leased := False, ln_phase := LaneDone\<rparr>) b
         | rv # rvs \<Rightarrow>
             if rv_cancelled b rv then answer l (cancelled_result repr rv) (ln_leased ln) b
             else if ln_leased ln then set_lane l (ln\<lparr>ln_phase := LaneStepping\<rparr>) b
             else set_lane l (ln\<lparr>ln_phase := LaneAcquiring\<rparr>) b)"

definition lane_leased :: "(pystr \<Rightarrow> pystr) \<Rightarrow> nat \<Rightarrow> bstate \<Rightarrow> bstate" where
  "lane_leased repr l b =
     (let ln = bs_lanes b ! l; rv = hd (ln_items ln)
      in if rv_cancelled b rv then answer l (cancelled_result repr rv) True b
         else set_lane l (ln\<lparr>ln_leased := True, ln_phase := LaneStepping\<rparr>) b)"

definition lane_no_worker :: "nat \<Rightarrow> pystr \<Rightarrow> bstate \<Rightarrow> bstate" where
  "lane_no_worker l text b =
     answer l (item_status_result (rv_item (hd (ln_items (bs_lanes b ! l)))) StOverloaded text) False b"

definition lane_stepped :: "(pystr \<Rightarrow> pystr) \<Rightarrow> (store_error \<Rightarrow> pystr) \<Rightarrow> nat \<Rightarrow> step_result list
    \<Rightarrow> (nat \<Rightarrow> nat \<Rightarrow> pystr) \<Rightarrow> int \<Rightarrow> bool \<Rightarrow> bstate \<Rightarrow> bstate" where
  "lane_stepped repr etext l results draws now alive b =
     (let rv = hd (ln_items (bs_lanes b ! l)); it = rv_item rv
      in if rv_cancelled b rv
         then answer l (cancelled_result repr rv) alive
                (b\<lparr>bs_store := fst (discard_paths (map sr_path results) (bs_store b))\<rparr>)
         else (case promote_results draws 0 now (bi_token it) results (bs_store b) of
                 None \<Rightarrow> b
               | Some (Inr trs, st) \<Rightarrow>
                   answer l \<lparr>br_node = bi_node it, br_results = trs\<rparr> alive (b\<lparr>bs_store := st\<rparr>)
               | Some (Inl e, st) \<Rightarrow>
                   answer l (item_error_result it (etext e)) alive (b\<lparr>bs_store := st\<rparr>)))"

definition lane_raised :: "nat \<Rightarrow> pystr \<Rightarrow> bool \<Rightarrow> bstate \<Rightarrow> bstate" where
  "lane_raised l text alive b =
     answer l (item_error_result (rv_item (hd (ln_items (bs_lanes b ! l)))) text) alive b"

definition in_phase :: "nat \<Rightarrow> lane_phase \<Rightarrow> bstate \<Rightarrow> bool" where
  "in_phase l p b \<longleftrightarrow> l < length (bs_lanes b) \<and> ln_phase (bs_lanes b ! l) = p"

text \<open>The actions of the rest of the server; releases are of what other requests hold.\<close>

fun env_event :: "batch_event \<Rightarrow> bstate \<Rightarrow> bstate" where
  "env_event (EvStore now op) b =
     (if is_pin_op op then b else b\<lparr>bs_store := store_step (now, op) (bs_store b)\<rparr>)"
| "env_event (EvPin now t) b =
     (case resolve_and_pin t now (bs_store b) of
        Inl e \<Rightarrow> b
      | Inr (r, st) \<Rightarrow> b\<lparr>bs_store := st, bs_env_pins := t # bs_env_pins b\<rparr>)"
| "env_event (EvUnpin t) b =
     (if t \<in> set (bs_env_pins b)
      then b\<lparr>bs_store := unpin t (bs_store b), bs_env_pins := remove1 t (bs_env_pins b)\<rparr> else b)"
| "env_event (EvBegin now i) b =
     (case begin_item i now (bs_reg b) of
        (reg, Started sn) \<Rightarrow> b\<lparr>bs_reg := reg, bs_env_items := i # bs_env_items b\<rparr>
      | (reg, BeginCancelled sn) \<Rightarrow> b\<lparr>bs_reg := reg\<rparr>)"
| "env_event (EvFinish now i) b =
     (if i \<in> set (bs_env_items b)
      then b\<lparr>bs_reg := fst (finish_item i now (bs_reg b)), bs_env_items := remove1 i (bs_env_items b)\<rparr>
      else b)"
| "env_event (EvCancel now i) b = b\<lparr>bs_reg := fst (cancel_item i now (bs_reg b))\<rparr>"
| "env_event (EvCleanup now i) b =
     (let ((st, reg), r) = cleanup_one i now (bs_store b, bs_reg b) in b\<lparr>bs_store := st, bs_reg := reg\<rparr>)"
| "env_event (EvSweep now) b = b\<lparr>bs_reg := fst (sweep_terminal now (bs_reg b))\<rparr>"
| "env_event _ b = b"

fun batch_step :: "(pystr \<Rightarrow> pystr) \<Rightarrow> (store_error \<Rightarrow> pystr) \<Rightarrow> batch_event \<Rightarrow> bstate \<Rightarrow> bstate" where
  "batch_step repr etext (EvNext l) b = (if in_phase l LaneReady b then lane_next repr l b else b)"
| "batch_step repr etext (EvLeased l) b = (if in_phase l LaneAcquiring b then lane_leased repr l b else b)"
| "batch_step repr etext (EvNoWorker l text) b =
     (if in_phase l LaneAcquiring b then lane_no_worker l text b else b)"
| "batch_step repr etext (EvStepped l results draws now alive) b =
     (if in_phase l LaneStepping b then lane_stepped repr etext l results draws now alive b else b)"
| "batch_step repr etext (EvRaised l text alive) b =
     (if in_phase l LaneStepping b then lane_raised l text alive b else b)"
| "batch_step repr etext ev b = env_event ev b"

section \<open>The whole batch\<close>

definition start_batch :: "(pystr \<Rightarrow> pystr) \<Rightarrow> int \<Rightarrow> int \<Rightarrow> batch_item list \<Rightarrow> store \<Rightarrow> registry
    \<Rightarrow> pystr list \<Rightarrow> pystr list \<Rightarrow> bstate \<times> resolved list" where
  "start_batch repr max_lanes now items st reg env_pins env_items =
     (let (slots, rs, st', reg') = begin_batch_items repr now 0 items st reg
      in (\<lparr>bs_store = st', bs_reg = reg', bs_env_pins = env_pins, bs_env_items = env_items,
           bs_slots = slots, bs_lanes = make_lanes max_lanes rs\<rparr>, rs))"

definition run_events :: "(pystr \<Rightarrow> pystr) \<Rightarrow> (store_error \<Rightarrow> pystr) \<Rightarrow> batch_event list \<Rightarrow> bstate \<Rightarrow> bstate" where
  "run_events repr etext evs b = foldl (\<lambda>b ev. batch_step repr etext ev b) b evs"

definition all_done :: "bstate \<Rightarrow> bool" where
  "all_done b = list_all (\<lambda>ln. ln_phase ln = LaneDone) (bs_lanes b)"

text \<open>The \<open>finally\<close> block and the response.\<close>

definition end_batch :: "int \<Rightarrow> resolved list \<Rightarrow> bstate \<Rightarrow> bstate" where
  "end_batch now rs b = b\<lparr>bs_store := unpin_many (map (\<lambda>rv. bi_token (rv_item rv)) rs) (bs_store b),
     bs_reg := foldl (\<lambda>reg i. fst (finish_item i now reg)) (bs_reg b) (map (\<lambda>rv. rec_item (rv_record rv)) rs)\<rparr>"

definition batch_response :: "batch_item list \<Rightarrow> bstate \<Rightarrow> batch_result list" where
  "batch_response items b =
     map (\<lambda>(it, slot). case slot of Some r \<Rightarrow> r
            | None \<Rightarrow> item_error_result it (lit ''step_batch item was not executed''))
       (zip items (bs_slots b))"

end
