(* ===== verification/StepBatchProps.thy ===== *)
theory StepBatchProps
  imports StepBatch
begin

text \<open>
  Safety of step batches: what a batch pins and registers stays while it runs, is given back exactly
  at the end, and the response answers every tactic of every item in request order, whatever the
  other requests, the sweeper and the workers do meanwhile.
\<close>

section \<open>Store changes that respect pins\<close>

definition view_of :: "state_record \<Rightarrow> pystr \<times> pystr \<times> pystr \<times> pystr \<times> int \<times> int" where
  "view_of r = (rec_item r, rec_env r, rec_header r, rec_hash r, rec_created r, rec_size r)"

definition keeps :: "store \<Rightarrow> store \<Rightarrow> bool" where
  "keeps st st' \<longleftrightarrow> run_inv st' \<and> (\<forall>t. pin_count st' t = pin_count st t) \<and>
     (\<forall>t v. 0 < pin_count st t \<longrightarrow> state_view st t = Some v \<longrightarrow> state_view st' t = Some v)"

lemma keeps_refl: "run_inv st \<Longrightarrow> keeps st st"
  by (simp add: keeps_def)

lemma keepsD:
  "keeps st st' \<Longrightarrow> run_inv st'"
  "keeps st st' \<Longrightarrow> pin_count st' t = pin_count st t"
  "keeps st st' \<Longrightarrow> 0 < pin_count st t \<Longrightarrow> state_view st t = Some v \<Longrightarrow> state_view st' t = Some v"
  unfolding keeps_def by blast+

lemma keeps_trans: "keeps a b \<Longrightarrow> keeps b c \<Longrightarrow> keeps a c"
  by (simp add: keeps_def)

lemma store_step_pins:
  "\<not> is_pin_op op \<Longrightarrow> st_pins (store_step (now, op) st) = st_pins st"
proof (cases op)
  case (OpPut draw n path item env header hash)
  then show ?thesis by (auto split: option.splits sum.splits dest: put_frame(1))
next
  case (OpChild draw n parent path)
  then show ?thesis by (auto split: option.splits dest: create_child_frame)
next
  case (OpResolve u)
  then show ?thesis by (auto split: sum.splits dest: resolve_records(2))
next
  case (OpCleanup i)
  then show ?thesis by (simp add: delete_by_item_id_all_or_none_def Let_def case_prod_beta)
qed (simp_all add: is_pin_op_def delete_by_item_id_def)

lemma store_step_keeps:
  assumes "run_inv st" "\<not> is_pin_op op" "list_all scratch_name (op_paths op)"
  shows "keeps st (store_step (now, op) st)"
proof -
  have "st_pins (store_step (now, op) st) = st_pins st" using assms(2) by (rule store_step_pins)
  then show ?thesis
    using assms store_step_run_inv store_step_view by (auto simp: keeps_def pin_count_def)
qed

lemma discard_keeps:
  assumes "run_inv st" "list_all scratch_name [p. Some p \<leftarrow> ps]"
  shows "keeps st (fst (discard_paths ps st))"
  using store_step_keeps [of st "OpDiscard ps" 0] assms by (simp add: is_pin_op_def)

lemma cleanup_keeps:
  "run_inv st \<Longrightarrow> keeps st (fst (delete_by_item_id_all_or_none i st))"
  using store_step_keeps [of st "OpCleanup i" 0] by (simp add: is_pin_op_def)

lemma create_child_keeps:
  "run_inv st \<Longrightarrow> scratch_name path \<Longrightarrow> create_child draw n parent path now st = Some (r, st') \<Longrightarrow> keeps st st'"
  using store_step_keeps [of st "OpChild draw n parent path" now] by (simp add: is_pin_op_def)

definition paths_ok :: "step_result list \<Rightarrow> bool" where
  "paths_ok rs = list_all scratch_name [p. Some p \<leftarrow> map sr_path rs]"

lemma paths_ok_Cons:
  "paths_ok (r # rs) \<longleftrightarrow> (\<forall>p. sr_path r = Some p \<longrightarrow> scratch_name p) \<and> paths_ok rs"
  by (auto simp: paths_ok_def split: option.splits)

lemma create_child_not_missing:
  assumes "create_child draw n parent path now st = Some (Inl e, st')" "has_state st parent"
  shows "e \<noteq> StateTokenNotFound t"
proof -
  obtain rec st1 where "resolve parent now st = Inr (rec, st1)"
    using assms(2) resolve_total by blast
  with assms(1) show ?thesis
    by (auto simp: create_child_def put_def put_with_token_def Let_def
        split: option.splits sum.splits prod.splits if_splits)
qed

lemma promote_keeps:
  assumes "run_inv st" "paths_ok rs" "0 < pin_count st parent" "state_view st parent = Some v"
    and "promote_results draws k now parent rs st = Some (res, st')"
  shows "keeps st st' \<and> res \<noteq> Inl (StateTokenNotFound t) \<and>
    (\<forall>trs. res = Inr trs \<longrightarrow> map tr_tactic trs = map sr_tactic rs)"
  using assms
proof (induction rs arbitrary: st st' k res)
  case Nil
  then show ?case by (auto simp: keeps_refl)
next
  case (Cons r rs)
  have ok: "paths_ok rs" using Cons.prems(2) by (simp add: paths_ok_Cons)
  show ?case
  proof (cases "\<exists>path. sr_status r = StOpen \<and> sr_path r = Some path")
    case True
    then obtain path where path: "sr_status r = StOpen" "sr_path r = Some path" by blast
    obtain c st1 where c: "create_child (draws k) 0 parent path now st = Some (c, st1)"
      using Cons.prems(5) path by (auto split: option.splits)
    have k1: "keeps st st1"
      using Cons.prems(1,2) path c by (intro create_child_keeps) (auto simp: paths_ok_Cons)
    show ?thesis
    proof (cases c)
      case (Inl e)
      with Cons.prems(5) path c have "res = Inl e" "st' = st1" by auto
      with k1 create_child_not_missing [OF c [unfolded Inl]] view_has_state [OF Cons.prems(4)]
      show ?thesis by auto
    next
      case (Inr token)
      obtain res2 st2 where p2: "promote_results draws (Suc k) now parent rs st1 = Some (res2, st2)"
        using Cons.prems(5) path c Inr by (auto split: option.splits)
      have "run_inv st1" "0 < pin_count st1 parent" "state_view st1 parent = Some v"
        using keepsD [OF k1] Cons.prems(3,4) by simp_all
      from Cons.IH [OF this(1) ok this(2,3) p2]
      have ih: "keeps st1 st2" "res2 \<noteq> Inl (StateTokenNotFound t)"
        "\<And>trs. res2 = Inr trs \<Longrightarrow> map tr_tactic trs = map sr_tactic rs" by auto
      with Cons.prems(5) path c Inr p2 keeps_trans [OF k1 ih(1)] show ?thesis
        by (cases res2) auto
    qed
  next
    case False
    have skip: "(case (sr_status r, sr_path r) of
        (StOpen, Some path) \<Rightarrow>
          map_option (\<lambda>(t, st1). (map_sum id Some t, st1)) (create_child (draws k) 0 parent path now st)
      | _ \<Rightarrow> Some (Inr None, st)) = Some (Inr None, st)"
      using False by (cases "sr_status r"; cases "sr_path r") auto
    obtain res2 st2 where p2: "promote_results draws (Suc k) now parent rs st = Some (res2, st2)"
      using Cons.prems(5) unfolding promote_results.simps skip by (auto split: option.splits)
    from Cons.IH [OF Cons.prems(1) ok Cons.prems(3,4) p2]
    have ih: "keeps st st2" "res2 \<noteq> Inl (StateTokenNotFound t)"
      "\<And>trs. res2 = Inr trs \<Longrightarrow> map tr_tactic trs = map sr_tactic rs" by auto
    with Cons.prems(5) show ?thesis
      unfolding promote_results.simps skip by (cases res2) (auto simp: p2)
  qed
qed

section \<open>The invariant of a running batch\<close>

definition held_tokens :: "resolved list \<Rightarrow> pystr list" where
  "held_tokens rs = map (\<lambda>rv. bi_token (rv_item rv)) rs"

definition held_items :: "resolved list \<Rightarrow> pystr list" where
  "held_items rs = map (\<lambda>rv. rec_item (rv_record rv)) rs"

definition views_ok :: "resolved list \<Rightarrow> store \<Rightarrow> bool" where
  "views_ok rs st = list_all (\<lambda>rv. state_view st (bi_token (rv_item rv)) = Some (view_of (rv_record rv))) rs"

definition pins_exact :: "pystr list \<Rightarrow> pystr list \<Rightarrow> store \<Rightarrow> bool" where
  "pins_exact own env st \<longleftrightarrow>
     (\<forall>t. pin_count st t = int (count_list own t) + int (count_list env t))"

definition flights_exact :: "pystr list \<Rightarrow> pystr list \<Rightarrow> registry \<Rightarrow> bool" where
  "flights_exact own env reg \<longleftrightarrow>
     (\<forall>i. in_flight_of i reg = int (count_list own i) + int (count_list env i))"

definition held_ok :: "resolved list \<Rightarrow> bstate \<Rightarrow> bool" where
  "held_ok rs b \<longleftrightarrow> run_inv (bs_store b) \<and> reg_inv (bs_reg b) \<and> views_ok rs (bs_store b) \<and>
     pins_exact (held_tokens rs) (bs_env_pins b) (bs_store b) \<and>
     flights_exact (held_items rs) (bs_env_items b) (bs_reg b)"

lemma held_pinned: "pins_exact (held_tokens rs) env st \<Longrightarrow> rv \<in> set rs \<Longrightarrow> 0 < pin_count st (bi_token (rv_item rv))"
proof -
  assume "pins_exact (held_tokens rs) env st" "rv \<in> set rs"
  moreover from this(2) have "bi_token (rv_item rv) \<in> set (held_tokens rs)" by (simp add: held_tokens_def)
  then have "count_list (held_tokens rs) (bi_token (rv_item rv)) \<noteq> 0" by (simp add: count_list_0_iff)
  ultimately show ?thesis by (simp add: pins_exact_def)
qed

lemma held_Cons:
  "views_ok (rv # rs) st \<longleftrightarrow>
     state_view st (bi_token (rv_item rv)) = Some (view_of (rv_record rv)) \<and> views_ok rs st"
  "held_tokens (rv # rs) = bi_token (rv_item rv) # held_tokens rs"
  "held_items (rv # rs) = rec_item (rv_record rv) # held_items rs"
  "views_ok [] st" "held_tokens [] = []" "held_items [] = []"
  by (simp_all add: views_ok_def held_tokens_def held_items_def)

text \<open>Replacing the store by one that respects pins keeps the invariant.\<close>

lemma held_ok_keeps:
  assumes "held_ok rs b" "keeps (bs_store b) st"
  shows "held_ok rs (b\<lparr>bs_store := st\<rparr>)"
proof -
  have "views_ok rs st"
    unfolding views_ok_def list_all_iff
  proof
    fix rv assume rv: "rv \<in> set rs"
    then have "0 < pin_count (bs_store b) (bi_token (rv_item rv))"
      using assms(1) by (auto simp: held_ok_def intro: held_pinned)
    moreover have "state_view (bs_store b) (bi_token (rv_item rv)) = Some (view_of (rv_record rv))"
      using assms(1) rv by (simp add: held_ok_def views_ok_def list_all_iff)
    ultimately show "state_view st (bi_token (rv_item rv)) = Some (view_of (rv_record rv))"
      by (rule keepsD(3) [OF assms(2)])
  qed
  then show ?thesis using assms keepsD(1,2) [OF assms(2)] by (simp add: held_ok_def pins_exact_def)
qed

lemma held_ok_lanes [simp]:
  "held_ok rs (set_lane l ln b) = held_ok rs b" "held_ok rs (set_slot i r b) = held_ok rs b"
  "held_ok rs (answer l r leased b) = held_ok rs b"
  by (simp_all add: held_ok_def set_lane_def set_slot_def answer_def Let_def)

lemma count_list_remove1:
  "x \<in> set xs \<Longrightarrow> int (count_list (remove1 x xs) y) = int (count_list xs y) - (if x = y then 1 else 0)"
  by (induction xs) (auto simp: count_list_0_iff)

text \<open>The results that reach a lane answer its current item.\<close>

definition event_ok :: "batch_event \<Rightarrow> bstate \<Rightarrow> bool" where
  "event_ok ev b = (case ev of
      EvStore now op \<Rightarrow> list_all scratch_name (op_paths op)
    | EvStepped l results draws now alive \<Rightarrow> paths_ok results \<and>
        (in_phase l LaneStepping b \<longrightarrow>
          map sr_tactic results = bi_tactics (rv_item (hd (ln_items (bs_lanes b ! l)))))
    | _ \<Rightarrow> True)"

fun events_ok :: "(pystr \<Rightarrow> pystr) \<Rightarrow> (store_error \<Rightarrow> pystr) \<Rightarrow> batch_event list \<Rightarrow> bstate \<Rightarrow> bool" where
  "events_ok repr etext [] b = True"
| "events_ok repr etext (ev # evs) b =
     (event_ok ev b \<and> events_ok repr etext evs (batch_step repr etext ev b))"

section \<open>What the lanes still have to do\<close>

definition pending :: "bstate \<Rightarrow> resolved list" where
  "pending b = concat (map ln_items (bs_lanes b))"

definition answers :: "batch_item \<Rightarrow> batch_result \<Rightarrow> bool" where
  "answers it r \<longleftrightarrow> br_node r = bi_node it \<and> map tr_tactic (br_results r) = bi_tactics it"

definition lane_ok :: "lane \<Rightarrow> bool" where
  "lane_ok ln \<longleftrightarrow> (ln_phase ln = LaneDone \<longrightarrow> ln_items ln = []) \<and>
     (ln_phase ln \<in> {LaneAcquiring, LaneStepping} \<longrightarrow> ln_items ln \<noteq> [])"

definition slots_ok :: "batch_item list \<Rightarrow> resolved list \<Rightarrow> bstate \<Rightarrow> bool" where
  "slots_ok items rs b \<longleftrightarrow> length (bs_slots b) = length items \<and> list_all lane_ok (bs_lanes b) \<and>
     list_all (\<lambda>rv. rv \<in> set rs \<and> rv_index rv < length items \<and> rv_item rv = items ! rv_index rv) (pending b) \<and>
     (\<forall>k < length items. case bs_slots b ! k of
        Some r \<Rightarrow> answers (items ! k) r | None \<Rightarrow> k \<in> rv_index ` set (pending b))"

definition batch_ok :: "batch_item list \<Rightarrow> resolved list \<Rightarrow> bstate \<Rightarrow> bool" where
  "batch_ok items rs b \<longleftrightarrow> held_ok rs b \<and> slots_ok items rs b"

lemma item_status_answers [simp]: "answers it (item_status_result it s text)"
  by (simp add: answers_def item_status_result_def comp_def)

lemma item_error_answers [simp]: "answers it (item_error_result it text)"
  by (simp add: item_error_result_def)

lemma invalid_token_answers [simp]: "answers it (invalid_token_result it)"
  by (simp add: invalid_token_result_def)

lemma set_concat_update:
  "l < length xss \<Longrightarrow> set (concat (xss[l := ys])) \<subseteq> set ys \<union> set (concat xss)"
  using set_update_subset_insert [of xss l ys] by auto

section \<open>Starting a batch\<close>

lemma resolve_own_view: "resolve t now st = Inr (r, st') \<Longrightarrow> state_view st' t = Some (view_of r)"
  by (auto simp: resolve_def Let_def write_metadata_def state_view_def view_of_def split: option.splits)

lemma pin_own_view: "resolve_and_pin t now st = Inr (r, st') \<Longrightarrow> state_view st' t = Some (view_of r)"
  using resolve_own_view by (auto simp: resolve_and_pin_def state_view_def)

lemma pin_run_inv: "run_inv st \<Longrightarrow> resolve_and_pin t now st = Inr (r, st') \<Longrightarrow> run_inv st'"
  using store_step_run_inv [of st "OpPin t" now] by simp

lemma unpin_run_inv: "run_inv st \<Longrightarrow> run_inv (unpin t st)"
  using store_step_run_inv [of st "OpUnpin [t]" 0] by (simp add: unpin_many_def)

lemma state_view_unpin [simp]: "state_view (unpin u st) t = state_view st t"
  by (simp add: unpin_def Let_def state_view_def split: option.split)

lemma pin_unpin:
  "run_inv st \<Longrightarrow> resolve_and_pin t now st = Inr (r, st1) \<Longrightarrow>
    pin_count (unpin t st1) u = pin_count st u"
  using pin_run_inv [of st t now r st1] resolve_and_pin_frame(1) [of t now st r st1]
  by (simp add: pin_count_unpin run_inv_def pin_count_nonneg)

lemma begin_shape:
  "begin_batch_items repr now k its st reg = (slots, rs, st', reg') \<Longrightarrow>
   length slots = length its \<and>
   list_all (\<lambda>rv. k \<le> rv_index rv \<and> rv_index rv < k + length its \<and> rv_item rv = its ! (rv_index rv - k)) rs \<and>
   (\<forall>j < length its. case slots ! j of
      Some r \<Rightarrow> answers (its ! j) r | None \<Rightarrow> k + j \<in> rv_index ` set rs)"
proof (induction its arbitrary: k st reg slots rs st' reg')
  case Nil
  then show ?case by simp
next
  case (Cons it its)
  obtain s new st1 reg1 slots1 rs1 where
    rest: "begin_batch_items repr now (Suc k) its st1 reg1 = (slots1, rs1, st', reg')"
    and eq: "slots = s # slots1" "rs = new @ rs1"
    and s: "s = None \<and> (\<exists>r. new = [\<lparr>rv_index = k, rv_item = it, rv_record = r\<rparr>]) \<or>
      (\<exists>r. s = Some r \<and> answers it r) \<and> new = []"
    using Cons.prems
    by (auto split: sum.splits prod.splits begin_result.splits)
  have "rv_item rv = (it # its) ! (rv_index rv - k) \<and> k \<le> rv_index rv \<and> rv_index rv < k + length (it # its)"
    if "rv \<in> set rs1" for rv
    using Cons.IH [OF rest] that by (auto simp: list_all_iff nth_Cons' Suc_diff_le Suc_le_eq)
  then have items: "list_all (\<lambda>rv. k \<le> rv_index rv \<and> rv_index rv < k + length (it # its) \<and>
      rv_item rv = (it # its) ! (rv_index rv - k)) rs"
    using s eq by (auto simp: list_all_iff)
  have slot: "case slots ! j of Some r \<Rightarrow> answers ((it # its) ! j) r
      | None \<Rightarrow> k + j \<in> rv_index ` set rs" if "j < length (it # its)" for j
  proof (cases j)
    case 0
    with s eq show ?thesis by auto
  next
    case (Suc i)
    with that Cons.IH [OF rest] have "case slots1 ! i of Some r \<Rightarrow> answers (its ! i) r
      | None \<Rightarrow> Suc k + i \<in> rv_index ` set rs1" by simp
    with Suc s eq show ?thesis by (auto split: option.splits)
  qed
  have "length slots = length (it # its)" using Cons.IH [OF rest] eq by simp
  then show ?case by (intro conjI allI impI items slot) assumption+
qed

lemma begin_regs:
  "reg_inv reg \<Longrightarrow> begin_batch_items repr now k its st reg = (slots, rs, st', reg') \<Longrightarrow>
   reg_inv reg' \<and> (\<forall>i. in_flight_of i reg' = in_flight_of i reg + int (count_list (held_items rs) i))"
proof (induction its arbitrary: k st reg slots rs st' reg')
  case Nil
  then show ?case by (simp add: held_Cons)
next
  case (Cons it its)
  show ?case
  proof (cases "resolve_and_pin (bi_token it) now st")
    case (Inl e)
    with Cons.prems(2) obtain slots1 where
      "begin_batch_items repr now (Suc k) its st reg = (slots1, rs, st', reg')"
      by (auto split: prod.splits)
    with Cons.IH Cons.prems(1) show ?thesis by blast
  next
    case (Inr p)
    obtain r st1 where p: "p = (r, st1)" by force
    obtain reg1 res where b: "begin_item (rec_item r) now reg = (reg1, res)" by force
    note inv = begin_inv [OF Cons.prems(1), of "rec_item r" now, unfolded b fst_conv]
    note fl = in_flight_begin [OF Cons.prems(1), of _ "rec_item r" now, unfolded b fst_conv snd_conv]
    show ?thesis
    proof (cases res)
      case (Started sn)
      with Cons.prems(2) Inr p b obtain slots1 rs1 where
        rest: "begin_batch_items repr now (Suc k) its st1 reg1 = (slots1, rs1, st', reg')"
        and rs: "rs = \<lparr>rv_index = k, rv_item = it, rv_record = r\<rparr> # rs1"
        by (auto split: prod.splits)
      from Cons.IH [OF inv rest] fl Started rs show ?thesis by (simp add: held_Cons)
    next
      case (BeginCancelled sn)
      with Cons.prems(2) Inr p b obtain slots1 where
        rest: "begin_batch_items repr now (Suc k) its (unpin (bi_token it) st1) reg1 = (slots1, rs, st', reg')"
        by (auto split: prod.splits)
      from Cons.IH [OF inv rest] fl BeginCancelled show ?thesis by simp
    qed
  qed
qed

lemma begin_store:
  "run_inv st \<Longrightarrow> begin_batch_items repr now k its st reg = (slots, rs, st', reg') \<Longrightarrow>
   run_inv st' \<and> (\<forall>t. pin_count st' t = pin_count st t + int (count_list (held_tokens rs) t)) \<and>
   (\<forall>t. state_view st' t = state_view st t) \<and> views_ok rs st'"
proof (induction its arbitrary: k st reg slots rs st' reg')
  case Nil
  then show ?case by (simp add: held_Cons)
next
  case (Cons it its)
  show ?case
  proof (cases "resolve_and_pin (bi_token it) now st")
    case (Inl e)
    with Cons.prems(2) obtain slots1 where
      "begin_batch_items repr now (Suc k) its st reg = (slots1, rs, st', reg')"
      by (auto split: prod.splits)
    with Cons.IH Cons.prems(1) show ?thesis by blast
  next
    case (Inr p)
    obtain r st1 where p: "p = (r, st1)" by force
    obtain reg1 res where b: "begin_item (rec_item r) now reg = (reg1, res)" by force
    note pin = Inr [unfolded p]
    note inv = pin_run_inv [OF Cons.prems(1) pin]
    note frame = resolve_and_pin_frame [OF pin] pin_own_view [OF pin]
    show ?thesis
    proof (cases res)
      case (Started sn)
      with Cons.prems(2) Inr p b obtain slots1 rs1 where
        rest: "begin_batch_items repr now (Suc k) its st1 reg1 = (slots1, rs1, st', reg')"
        and rs: "rs = \<lparr>rv_index = k, rv_item = it, rv_record = r\<rparr> # rs1"
        by (auto split: prod.splits)
      from Cons.IH [OF inv rest] frame rs show ?thesis by (simp add: held_Cons)
    next
      case (BeginCancelled sn)
      with Cons.prems(2) Inr p b obtain slots1 where
        rest: "begin_batch_items repr now (Suc k) its (unpin (bi_token it) st1) reg1 = (slots1, rs, st', reg')"
        by (auto split: prod.splits)
      from Cons.IH [OF unpin_run_inv [OF inv] rest] frame pin_unpin [OF Cons.prems(1) pin]
      show ?thesis by simp
    qed
  qed
qed

section \<open>Steps keep what the batch holds\<close>

lemma held_ok_reg:
  "held_ok rs b \<Longrightarrow> reg_inv reg \<Longrightarrow> (\<And>i. in_flight_of i reg = in_flight_of i (bs_reg b)) \<Longrightarrow>
   held_ok rs (b\<lparr>bs_reg := reg\<rparr>)"
  by (simp add: held_ok_def flights_exact_def)

lemma cleanup_one_frame:
  assumes "run_inv st" "reg_inv reg" "cleanup_one item now (st, reg) = ((st', reg'), r)"
  shows "keeps st st'" "reg_inv reg'" "in_flight_of i reg' = in_flight_of i reg"
proof -
  obtain reg1 d where d: "cleanup_decision_of item now reg = (reg1, d)" by force
  note reg1 = cleanup_decision_inv [OF assms(2), of item now, unfolded d fst_conv]
    in_flight_cleanup_decision [OF assms(2), of _ item now, unfolded d fst_conv]
    cleanup_decision_iff [OF assms(2), of item now, unfolded d snd_conv]
  obtain st1 dr where dr: "delete_by_item_id_all_or_none item st = (st1, dr)" by force
  have k: "keeps st st1" using cleanup_keeps [OF assms(1), of item] dr by simp
  have "keeps st st' \<and> reg_inv reg' \<and> in_flight_of i reg' = in_flight_of i reg"
  proof (cases d)
    case (Defer sn)
    with assms(3) d keeps_refl [OF assms(1)] reg1 show ?thesis by (simp add: cleanup_one_def)
  next
    case (Delete sn)
    with assms(3) d dr k reg1 mark_cleaned_inv [of reg1 item now] show ?thesis
      by (cases dr) (auto simp: cleanup_one_def in_flight_mark_cleaned)
  qed
  then show "keeps st st'" "reg_inv reg'" "in_flight_of i reg' = in_flight_of i reg" by blast+
qed

lemma held_okD:
  assumes "held_ok rs b"
  shows "run_inv (bs_store b)" "store_inv (bs_store b)" "reg_inv (bs_reg b)" "views_ok rs (bs_store b)"
    "pin_count (bs_store b) t = int (count_list (held_tokens rs) t) + int (count_list (bs_env_pins b) t)"
    "in_flight_of i (bs_reg b) = int (count_list (held_items rs) i) + int (count_list (bs_env_items b) i)"
  using assms by (simp_all add: held_ok_def run_inv_def pins_exact_def flights_exact_def)

lemma views_ok_same: "(\<And>t. state_view st' t = state_view st t) \<Longrightarrow> views_ok rs st' = views_ok rs st"
  by (simp add: views_ok_def)

lemma held_ok_pin:
  assumes "held_ok rs b" "resolve_and_pin t now (bs_store b) = Inr (r, st)"
  shows "held_ok rs (b\<lparr>bs_store := st, bs_env_pins := t # bs_env_pins b\<rparr>)"
  using held_okD [OF assms(1)] resolve_and_pin_frame [OF assms(2)] pin_run_inv [OF _ assms(2)]
  by (simp add: held_ok_def pins_exact_def flights_exact_def views_ok_same [of st "bs_store b"])

lemma held_ok_unpin:
  assumes "held_ok rs b" "t \<in> set (bs_env_pins b)"
  shows "held_ok rs (b\<lparr>bs_store := unpin t (bs_store b), bs_env_pins := remove1 t (bs_env_pins b)\<rparr>)"
proof -
  have "count_list (bs_env_pins b) t \<noteq> 0" using assms(2) by (simp add: count_list_0_iff)
  then show ?thesis
    using held_okD [OF assms(1)] assms(2) unpin_run_inv [of "bs_store b" t]
    by (simp add: held_ok_def pins_exact_def flights_exact_def count_list_remove1 pin_count_unpin
        views_ok_same [of "unpin t (bs_store b)" "bs_store b"])
qed

lemma held_ok_begin:
  assumes "held_ok rs b" "begin_item i now (bs_reg b) = (reg, res)"
  shows "held_ok rs (case res of Started sn \<Rightarrow> b\<lparr>bs_reg := reg, bs_env_items := i # bs_env_items b\<rparr>
    | BeginCancelled sn \<Rightarrow> b\<lparr>bs_reg := reg\<rparr>)"
  using held_okD [OF assms(1)] begin_inv [of "bs_reg b" i now] in_flight_begin [of "bs_reg b" _ i now] assms(2)
  by (cases res) (simp_all add: held_ok_def pins_exact_def flights_exact_def)

lemma held_ok_finish:
  assumes "held_ok rs b" "i \<in> set (bs_env_items b)"
  shows "held_ok rs (b\<lparr>bs_reg := fst (finish_item i now (bs_reg b)),
    bs_env_items := remove1 i (bs_env_items b)\<rparr>)"
proof -
  have "count_list (bs_env_items b) i \<noteq> 0" using assms(2) by (simp add: count_list_0_iff)
  then show ?thesis
    using held_okD [OF assms(1)] assms(2) finish_inv [of "bs_reg b" i now]
    by (simp add: held_ok_def pins_exact_def flights_exact_def count_list_remove1 in_flight_finish)
qed

lemma held_ok_env:
  assumes ok: "held_ok rs b" and ev: "event_ok ev b"
  shows "held_ok rs (env_event ev b)"
proof (cases ev)
  case (EvStore now op)
  show ?thesis
  proof (cases "is_pin_op op")
    case False
    with EvStore ev held_okD(1) [OF ok] have "keeps (bs_store b) (store_step (now, op) (bs_store b))"
      by (intro store_step_keeps) (simp_all add: event_ok_def)
    with EvStore False ok show ?thesis by (simp add: held_ok_keeps)
  qed (use EvStore ok in simp)
next
  case (EvPin now t)
  with ok show ?thesis by (auto split: sum.splits intro: held_ok_pin)
next
  case (EvUnpin t)
  with ok show ?thesis by (simp add: held_ok_unpin)
next
  case (EvBegin now i)
  obtain reg res where b: "begin_item i now (bs_reg b) = (reg, res)" by force
  from held_ok_begin [OF ok b] EvBegin b show ?thesis by simp
next
  case (EvFinish now i)
  with ok show ?thesis by (simp add: held_ok_finish)
next
  case (EvCancel now i)
  with ok held_okD(3) [OF ok] show ?thesis by (simp add: held_ok_reg cancel_inv in_flight_cancel)
next
  case (EvCleanup now i)
  obtain st reg r where c: "cleanup_one i now (bs_store b, bs_reg b) = ((st, reg), r)"
    by (metis surj_pair)
  note f = cleanup_one_frame [OF held_okD(1) [OF ok] held_okD(3) [OF ok] c]
  have "held_ok rs ((b\<lparr>bs_store := st\<rparr>)\<lparr>bs_reg := reg\<rparr>)"
    by (rule held_ok_reg) (use held_ok_keeps [OF ok f(1)] f(2,3) in simp_all)
  with EvCleanup c show ?thesis by simp
next
  case (EvSweep now)
  with ok held_okD(3) [OF ok] show ?thesis by (simp add: held_ok_reg sweep_inv)
qed (use ok in simp_all)

section \<open>Lane steps\<close>

lemma pending_member: "l < length (bs_lanes b) \<Longrightarrow> set (ln_items (bs_lanes b ! l)) \<subseteq> set (pending b)"
  by (fastforce simp: pending_def intro: nth_mem)

lemma phase_head:
  assumes "slots_ok items rs b" "in_phase l p b" "p = LaneAcquiring \<or> p = LaneStepping"
  shows "ln_items (bs_lanes b ! l) \<noteq> []"
proof -
  have "lane_ok (bs_lanes b ! l)" using assms(1,2) by (simp add: slots_ok_def in_phase_def list_all_length)
  then show ?thesis using assms(2,3) by (auto simp: lane_ok_def in_phase_def)
qed

lemma head_resolved:
  assumes "slots_ok items rs b" "l < length (bs_lanes b)" "ln_items (bs_lanes b ! l) \<noteq> []"
  defines "rv \<equiv> hd (ln_items (bs_lanes b ! l))"
  shows "rv \<in> set rs" "rv_index rv < length items" "rv_item rv = items ! rv_index rv"
proof -
  have "rv \<in> set (pending b)" unfolding rv_def using pending_member [OF assms(2)] assms(3) by auto
  then show "rv \<in> set rs" "rv_index rv < length items" "rv_item rv = items ! rv_index rv"
    using assms(1) by (auto simp: slots_ok_def list_all_iff)
qed

lemma pending_set_lane_sub:
  assumes "l < length (bs_lanes b)" "set (ln_items ln) \<subseteq> set (ln_items (bs_lanes b ! l))"
  shows "set (pending (set_lane l ln b)) \<subseteq> set (pending b)"
  using set_update_subset_insert [of "bs_lanes b" l ln] assms(2) nth_mem [OF assms(1)]
  by (fastforce simp: pending_def set_lane_def)

lemma pending_set_lane_sup:
  assumes "l < length (bs_lanes b)" "rv \<in> set (pending b)" "rv \<notin> set (ln_items (bs_lanes b ! l))"
  shows "rv \<in> set (pending (set_lane l ln b))"
proof -
  from assms(2) obtain m where m: "m < length (bs_lanes b)" "rv \<in> set (ln_items (bs_lanes b ! m))"
    by (auto simp: pending_def in_set_conv_nth [of _ "bs_lanes b"])
  with assms(3) have "m \<noteq> l" by auto
  with m(1) have "bs_lanes (set_lane l ln b) ! m = bs_lanes b ! m" "m < length (bs_lanes (set_lane l ln b))"
    by (simp_all add: set_lane_def)
  with m(2) show ?thesis by (auto simp: pending_def intro!: bexI [OF _ nth_mem [of m]])
qed

lemma pending_set_lane_own:
  "l < length (bs_lanes b) \<Longrightarrow> set (ln_items ln) \<subseteq> set (pending (set_lane l ln b))"
  using pending_member [of l "set_lane l ln b"] by (simp add: set_lane_def)

lemma slots_ok_D:
  assumes "slots_ok items rs b"
  shows "length (bs_slots b) = length items" "list_all lane_ok (bs_lanes b)"
    "rv \<in> set (pending b) \<Longrightarrow> rv \<in> set rs \<and> rv_index rv < length items \<and> rv_item rv = items ! rv_index rv"
    "k < length items \<Longrightarrow> bs_slots b ! k = Some r \<Longrightarrow> answers (items ! k) r"
    "k < length items \<Longrightarrow> bs_slots b ! k = None \<Longrightarrow> \<exists>rv \<in> set (pending b). rv_index rv = k"
proof -
  have s: "case bs_slots b ! k of Some r \<Rightarrow> answers (items ! k) r | None \<Rightarrow> k \<in> rv_index ` set (pending b)"
    if "k < length items" for k
    using assms that by (simp add: slots_ok_def)
  show "length (bs_slots b) = length items" "list_all lane_ok (bs_lanes b)"
    "rv \<in> set (pending b) \<Longrightarrow> rv \<in> set rs \<and> rv_index rv < length items \<and> rv_item rv = items ! rv_index rv"
    using assms by (simp_all add: slots_ok_def list_all_iff)
  show "k < length items \<Longrightarrow> bs_slots b ! k = Some r \<Longrightarrow> answers (items ! k) r" using s [of k] by simp
  show "k < length items \<Longrightarrow> bs_slots b ! k = None \<Longrightarrow> \<exists>rv \<in> set (pending b). rv_index rv = k"
    using s [of k] by (auto simp: image_iff)
qed

lemma slots_okI:
  assumes "length (bs_slots b) = length items" "list_all lane_ok (bs_lanes b)"
    "\<And>rv. rv \<in> set (pending b) \<Longrightarrow> rv \<in> set rs \<and> rv_index rv < length items \<and> rv_item rv = items ! rv_index rv"
    "\<And>k r. k < length items \<Longrightarrow> bs_slots b ! k = Some r \<Longrightarrow> answers (items ! k) r"
    "\<And>k. k < length items \<Longrightarrow> bs_slots b ! k = None \<Longrightarrow> \<exists>rv \<in> set (pending b). rv_index rv = k"
  shows "slots_ok items rs b"
  unfolding slots_ok_def
proof (intro conjI allI impI assms(1,2))
  show "list_all (\<lambda>rv. rv \<in> set rs \<and> rv_index rv < length items \<and> rv_item rv = items ! rv_index rv) (pending b)"
    using assms(3) by (simp add: list_all_iff)
  show "case bs_slots b ! k of Some r \<Rightarrow> answers (items ! k) r | None \<Rightarrow> k \<in> rv_index ` set (pending b)"
    if "k < length items" for k
    using assms(4,5) [OF that] by (cases "bs_slots b ! k") (auto simp: image_iff)
qed

lemma slots_ok_set_lane:
  assumes "slots_ok items rs b" "l < length (bs_lanes b)"
    "ln_items ln = ln_items (bs_lanes b ! l)" "lane_ok ln"
  shows "slots_ok items rs (set_lane l ln b)"
proof -
  have "set (pending (set_lane l ln b)) = set (pending b)"
    using pending_set_lane_sub [OF assms(2), of ln] pending_set_lane_sup [OF assms(2), of _ ln]
      pending_set_lane_own [OF assms(2), of ln] assms(3) by auto
  moreover have "list_all lane_ok (bs_lanes (set_lane l ln b))"
    using slots_ok_D(2) [OF assms(1)] assms(4) set_update_subset_insert [of "bs_lanes b" l ln]
    by (auto simp: set_lane_def list_all_iff)
  moreover have "bs_slots (set_lane l ln b) = bs_slots b" by (simp add: set_lane_def)
  ultimately show ?thesis using slots_ok_D [OF assms(1)] by (intro slots_okI) simp_all
qed

lemma slots_ok_answer:
  assumes ok: "slots_ok items rs b" and l: "l < length (bs_lanes b)"
    and ne: "ln_items (bs_lanes b ! l) \<noteq> []"
    and r: "answers (rv_item (hd (ln_items (bs_lanes b ! l)))) r"
  shows "slots_ok items rs (answer l r leased b)"
proof -
  let ?ln = "bs_lanes b ! l" and ?rv = "hd (ln_items (bs_lanes b ! l))"
  let ?ln' = "?ln\<lparr>ln_items := tl (ln_items ?ln), ln_leased := leased, ln_phase := LaneReady\<rparr>"
  let ?b = "set_lane l ?ln' b"
  note head = head_resolved [OF ok l ne]
  have pend: "pending (answer l r leased b) = pending ?b"
    and lanes: "bs_lanes (answer l r leased b) = bs_lanes ?b"
    and slots: "bs_slots (answer l r leased b) = (bs_slots b)[rv_index ?rv := Some r]"
    by (simp_all add: answer_def Let_def pending_def set_lane_def set_slot_def)
  have sub: "set (pending ?b) \<subseteq> set (pending b)"
    using ne by (intro pending_set_lane_sub l) (auto dest: list.set_sel(2))
  have other: "rv \<in> set (pending ?b)" if "rv \<in> set (pending b)" "rv \<noteq> ?rv" for rv
  proof (cases "rv \<in> set (ln_items ?ln)")
    case True
    with ne that(2) have "rv \<in> set (ln_items ?ln')" by (cases "ln_items ?ln") auto
    then show ?thesis using pending_set_lane_own [OF l, of ?ln'] by blast
  qed (rule pending_set_lane_sup [OF l that(1)])
  show ?thesis
  proof (rule slots_okI)
    show "length (bs_slots (answer l r leased b)) = length items"
      using slots_ok_D(1) [OF ok] slots by simp
    show "list_all lane_ok (bs_lanes (answer l r leased b))"
      using slots_ok_D(2) [OF ok] set_update_subset_insert [of "bs_lanes b" l ?ln']
      by (auto simp: lanes set_lane_def list_all_iff lane_ok_def)
    show "rv \<in> set rs \<and> rv_index rv < length items \<and> rv_item rv = items ! rv_index rv"
      if "rv \<in> set (pending (answer l r leased b))" for rv
      using slots_ok_D(3) [OF ok] that sub pend by auto
    show "answers (items ! k) x" if "k < length items" "bs_slots (answer l r leased b) ! k = Some x" for k x
      using that r head slots slots_ok_D(1,4) [OF ok] by (cases "k = rv_index ?rv") auto
    show "\<exists>rv \<in> set (pending (answer l r leased b)). rv_index rv = k"
      if "k < length items" "bs_slots (answer l r leased b) ! k = None" for k
    proof -
      have k: "k \<noteq> rv_index ?rv"
        using that slots slots_ok_D(1) [OF ok] by (cases "k = rv_index ?rv") simp_all
      moreover have "bs_slots b ! k = None" using that(2) slots k by simp
      ultimately have "\<exists>rv \<in> set (pending b). rv_index rv = k"
        using slots_ok_D(5) [OF ok that(1)] by blast
      then obtain rv where "rv \<in> set (pending b)" "rv_index rv = k" by blast
      with k other [of rv] show ?thesis by (auto simp: pend)
    qed
  qed
qed

lemma slots_ok_frame:
  "bs_slots b' = bs_slots b \<Longrightarrow> bs_lanes b' = bs_lanes b \<Longrightarrow> slots_ok items rs b' = slots_ok items rs b"
proof -
  assume eq: "bs_slots b' = bs_slots b" "bs_lanes b' = bs_lanes b"
  then have "pending b' = pending b" by (simp add: pending_def)
  with eq show ?thesis by (simp only: slots_ok_def)
qed

lemma env_event_frame: "bs_slots (env_event ev b) = bs_slots b" "bs_lanes (env_event ev b) = bs_lanes b"
  by (cases ev; simp split: sum.splits prod.splits begin_result.splits)+

lemma answers_result:
  "map tr_tactic trs = bi_tactics it \<Longrightarrow> answers it \<lparr>br_node = bi_node it, br_results = trs\<rparr>"
  by (simp add: answers_def)

lemma cancelled_answers [simp]: "answers (rv_item rv) (cancelled_result repr rv)"
  by (simp add: cancelled_result_def)

lemma lane_stepped_ok:
  assumes ok: "held_ok rs b" "slots_ok items rs b" and ph: "in_phase l LaneStepping b"
    and results: "paths_ok results"
      "map sr_tactic results = bi_tactics (rv_item (hd (ln_items (bs_lanes b ! l))))"
  shows "held_ok rs (lane_stepped repr etext l results draws now alive b) \<and>
    slots_ok items rs (lane_stepped repr etext l results draws now alive b)"
proof -
  let ?rv = "hd (ln_items (bs_lanes b ! l))" and ?st = "bs_store b"
  let ?parent = "bi_token (rv_item ?rv)"
  have l: "l < length (bs_lanes b)" using ph by (simp add: in_phase_def)
  have ne: "ln_items (bs_lanes b ! l) \<noteq> []" using phase_head [OF ok(2) ph] by simp
  note head = head_resolved [OF ok(2) l ne]
  have pinned: "0 < pin_count ?st ?parent"
    using ok(1) head(1) by (intro held_pinned) (auto simp: held_ok_def)
  have view: "state_view ?st ?parent = Some (view_of (rv_record ?rv))"
    using ok(1) head(1) by (simp add: held_ok_def views_ok_def list_all_iff)
  have answer_ok: "held_ok rs (answer l r alive (b\<lparr>bs_store := st\<rparr>)) \<and>
      slots_ok items rs (answer l r alive (b\<lparr>bs_store := st\<rparr>))"
    if "keeps ?st st" "answers (rv_item ?rv) r" for st r
    using that ok l ne
    by (simp add: held_ok_keeps slots_ok_answer slots_ok_frame [of "b\<lparr>bs_store := st\<rparr>" b])
  show ?thesis
  proof (cases "rv_cancelled b ?rv")
    case True
    have "keeps ?st (fst (discard_paths (map sr_path results) ?st))"
      using results(1) held_okD(1) [OF ok(1)] by (intro discard_keeps) (simp_all add: paths_ok_def)
    from answer_ok [OF this cancelled_answers] True show ?thesis by (simp add: lane_stepped_def Let_def)
  next
    case False
    show ?thesis
    proof (cases "promote_results draws 0 now ?parent results ?st")
      case None
      with False ok show ?thesis by (simp add: lane_stepped_def Let_def)
    next
      case (Some p)
      obtain res st where p: "p = (res, st)" by force
      note k = promote_keeps [OF held_okD(1) [OF ok(1)] results(1) pinned view Some [unfolded p]]
      show ?thesis
      proof (cases res)
        case (Inl e)
        with answer_ok [OF conjunct1 [OF k] item_error_answers] False Some p show ?thesis
          by (simp add: lane_stepped_def Let_def)
      next
        case (Inr trs)
        with k results(2) have "map tr_tactic trs = bi_tactics (rv_item ?rv)" by simp
        from answer_ok [OF conjunct1 [OF k] answers_result [OF this]] False Some p Inr show ?thesis
          by (simp add: lane_stepped_def Let_def)
      qed
    qed
  qed
qed

lemma batch_step_ok:
  assumes ok: "held_ok rs b" "slots_ok items rs b" and ev: "event_ok ev b"
  shows "held_ok rs (batch_step repr etext ev b) \<and> slots_ok items rs (batch_step repr etext ev b)"
proof -
  have env: "held_ok rs (env_event ev b) \<and> slots_ok items rs (env_event ev b)"
    using held_ok_env [OF ok(1) ev] ok(2) slots_ok_frame [OF env_event_frame] by simp
  have head: "l < length (bs_lanes b)" "ln_items (bs_lanes b ! l) \<noteq> []"
    if "in_phase l p b" "p = LaneAcquiring \<or> p = LaneStepping" for l p
    using that phase_head [OF ok(2)] by (auto simp: in_phase_def)
  show ?thesis
  proof (cases ev)
    case (EvNext l)
    show ?thesis
    proof (cases "in_phase l LaneReady b")
      case True
      then have l: "l < length (bs_lanes b)" by (simp add: in_phase_def)
      show ?thesis
        using ok l True EvNext
        by (cases "ln_items (bs_lanes b ! l)")
          (auto simp: lane_next_def Let_def lane_ok_def intro: slots_ok_set_lane slots_ok_answer)
    qed (use EvNext ok in simp)
  next
    case (EvLeased l)
    with ok head [of l LaneAcquiring] show ?thesis
      by (auto simp: lane_leased_def Let_def lane_ok_def intro: slots_ok_set_lane slots_ok_answer)
  next
    case (EvNoWorker l msg)
    with ok head [of l LaneAcquiring] show ?thesis
      by (auto simp: lane_no_worker_def intro: slots_ok_answer)
  next
    case (EvStepped l results draws now alive)
    with ok ev show ?thesis by (auto simp: event_ok_def intro: lane_stepped_ok [THEN conjunct1] lane_stepped_ok [THEN conjunct2])
  next
    case (EvRaised l msg alive)
    with ok head [of l LaneStepping] show ?thesis
      by (auto simp: lane_raised_def intro: slots_ok_answer)
  qed (use env in simp_all)
qed

lemma run_events_ok:
  "held_ok rs b \<Longrightarrow> slots_ok items rs b \<Longrightarrow> events_ok repr etext evs b \<Longrightarrow>
   held_ok rs (run_events repr etext evs b) \<and> slots_ok items rs (run_events repr etext evs b)"
proof (induction evs arbitrary: b)
  case (Cons ev evs)
  with batch_step_ok [of rs b items ev repr etext] show ?case by (simp add: run_events_def)
qed (simp add: run_events_def)

section \<open>The lanes cover the batch\<close>

lemma set_distribute: "set (concat (distribute_items xs m)) = set xs"
proof -
  have "mset (concat (distribute_items xs m)) = mset xs"
  proof (cases "xs = []")
    case False
    then have "0 < nat (lane_count (int (length xs)) m)"
      using lane_count_bounds(1) [of "int (length xs)" m] by simp
    then show ?thesis by (simp add: distribute_items_def Let_def mset_deal)
  qed (simp add: distribute_items_def lane_count_def)
  then show ?thesis by (rule mset_eq_setD)
qed

lemma set_group_items: "(\<Union>p \<in> set (group_items key xs). set (snd p)) = set xs"
proof (rule set_eqI)
  fix x
  have "x \<in> (\<Union>p \<in> set (group_items key xs). set (snd p)) \<longleftrightarrow>
      (\<exists>k ys. dget (group_items key xs) k = Some ys \<and> x \<in> set ys)"
    using dget_in_set [OF group_items_dwf [of key xs]] by (fastforce simp: image_iff)
  also have "\<dots> \<longleftrightarrow> x \<in> set xs"
  proof
    assume "x \<in> set xs"
    then have "dget (group_items key xs) (key x) = Some (filter (\<lambda>y. key y = key x) xs)"
      "x \<in> set (filter (\<lambda>y. key y = key x) xs)"
      by (auto simp: group_items_get Let_def filter_empty_conv)
    then show "\<exists>k ys. dget (group_items key xs) k = Some ys \<and> x \<in> set ys" by blast
  qed (auto simp: group_items_get Let_def split: if_splits)
  finally show "x \<in> (\<Union>p \<in> set (group_items key xs). set (snd p)) \<longleftrightarrow> x \<in> set xs" .
qed

lemma make_lanes_items: "set (concat (map ln_items (make_lanes m rs))) = set rs"
proof -
  have "map ln_items (make_lanes m rs) =
      concat (map (\<lambda>p. distribute_items (snd p) m) (group_items resolved_key rs))"
    by (simp add: make_lanes_def comp_def case_prod_beta' map_concat)
  moreover have "set (concat (concat (map (\<lambda>p. distribute_items (snd p) m) gs))) = (\<Union>p \<in> set gs. set (snd p))"
    for gs :: "(compat_key, resolved list) pydict"
    by (induction gs) (simp_all add: set_distribute del: set_concat)
  ultimately show ?thesis using set_group_items [of resolved_key rs] by simp
qed

lemma make_lanes_ok: "list_all lane_ok (make_lanes m rs)"
  by (auto simp: make_lanes_def list_all_iff lane_ok_def)

lemma start_batch_ok:
  assumes "run_inv st" "reg_inv reg"
    and "\<And>t. pin_count st t = int (count_list env_pins t)"
    and "\<And>i. in_flight_of i reg = int (count_list env_items i)"
    and "start_batch repr m now items st reg env_pins env_items = (b, rs)"
  shows "held_ok rs b" "slots_ok items rs b" "state_view (bs_store b) t = state_view st t"
proof -
  obtain slots st' reg' where init: "begin_batch_items repr now 0 items st reg = (slots, rs, st', reg')"
    and b: "b = \<lparr>bs_store = st', bs_reg = reg', bs_env_pins = env_pins, bs_env_items = env_items,
      bs_slots = slots, bs_lanes = make_lanes m rs\<rparr>"
    using assms(5) by (auto simp: start_batch_def Let_def split: prod.splits)
  note store = begin_store [OF assms(1) init] and regs = begin_regs [OF assms(2) init]
    and shape = begin_shape [OF init]
  show "held_ok rs b"
    using store regs assms(3,4) by (simp add: b held_ok_def pins_exact_def flights_exact_def)
  have pend: "set (pending b) = set rs" using make_lanes_items [of m rs] by (simp add: pending_def b)
  show "slots_ok items rs b"
  proof (rule slots_okI)
    show "length (bs_slots b) = length items" using shape b by simp
    show "list_all lane_ok (bs_lanes b)" by (simp add: b make_lanes_ok)
    show "rv \<in> set rs \<and> rv_index rv < length items \<and> rv_item rv = items ! rv_index rv"
      if "rv \<in> set (pending b)" for rv
      using shape that pend by (simp add: list_all_iff)
    have s: "case slots ! k of Some r \<Rightarrow> answers (items ! k) r | None \<Rightarrow> 0 + k \<in> rv_index ` set rs"
      if "k < length items" for k
      using shape that by blast
    show "answers (items ! k) r" if "k < length items" "bs_slots b ! k = Some r" for k r
      using s [OF that(1)] that(2) b by simp
    show "\<exists>rv \<in> set (pending b). rv_index rv = k" if "k < length items" "bs_slots b ! k = None" for k
      using s [OF that(1)] that(2) pend by (auto simp: b image_iff)
  qed
  show "state_view (bs_store b) t = state_view st t" using store b by simp
qed

section \<open>The end of a batch\<close>

lemma in_flight_finish_many:
  "reg_inv reg \<Longrightarrow> reg_inv (foldl (\<lambda>reg i. fst (finish_item i now reg)) reg is) \<and>
   in_flight_of k (foldl (\<lambda>reg i. fst (finish_item i now reg)) reg is) =
     max (in_flight_of k reg - int (count_list is k)) 0"
proof (induction "is" arbitrary: reg)
  case Nil
  then show ?case using in_flight_of_nonneg [of reg k] by simp
next
  case (Cons i "is")
  from Cons.IH [OF finish_inv [OF Cons.prems]] Cons.prems in_flight_of_nonneg [of reg k]
  show ?case by (auto simp: in_flight_finish)
qed

lemma end_batch_exact:
  assumes "held_ok rs b"
  shows "pin_count (bs_store (end_batch now rs b)) t = int (count_list (bs_env_pins b) t)"
    "in_flight_of i (bs_reg (end_batch now rs b)) = int (count_list (bs_env_items b) i)"
  using held_okD [OF assms] in_flight_finish_many [of "bs_reg b" now "held_items rs" i]
    pin_count_unpin_many [of "bs_store b" "held_tokens rs" t]
  by (simp_all add: end_batch_def held_tokens_def held_items_def)

lemma all_done_pending: "slots_ok items rs b \<Longrightarrow> all_done b \<Longrightarrow> pending b = []"
  using slots_ok_D(2) [of items rs b]
  by (auto simp: all_done_def pending_def list_all_iff lane_ok_def)

lemma response_answers:
  assumes "slots_ok items rs b"
  shows "list_all2 answers items (batch_response items b)"
proof -
  have "length (bs_slots b) = length items" by (rule slots_ok_D(1) [OF assms])
  then show ?thesis
    using slots_ok_D(4) [OF assms]
    by (auto simp: batch_response_def list_all2_conv_all_nth split: option.splits)
qed

lemma in_flight_cleanup:
  assumes "reg_inv reg" "0 < in_flight_of item reg"
  shows "snd (cleanup_one item now (st, reg)) = CleanupInFlight (in_flight_of item reg)"
proof -
  obtain reg1 d where d: "cleanup_decision_of item now reg = (reg1, d)" by force
  have sn: "sn_in_flight sn = in_flight_of item reg" if "d = Defer sn" for sn
    using that d in_flight_of_sweep [OF assms(1), of item now] assms(1)
    by (auto simp: cleanup_decision_of_def Let_def snapshot_of_def dget_or_in_flight split: if_splits)
  from cleanup_decision_iff [OF assms(1), of item now] d assms(2) sn show ?thesis
    by (cases d) (auto simp: cleanup_one_def)
qed

lemma idle_cleanup:
  assumes "reg_inv reg" "in_flight_of item reg = 0" "\<And>t. pin_count st t = 0" "store_inv st"
  shows "\<exists>ds. snd (cleanup_one item now (st, reg)) = CleanupDeleted ds"
proof -
  obtain reg1 d where d: "cleanup_decision_of item now reg = (reg1, d)" by force
  have "dget (st_pins st) t = None" for t
    using assms(3) [of t] store_inv_pinned [OF assms(4), of t]
    by (cases "dget (st_pins st) t") (auto simp: pin_count_def dget_or_def)
  then have "\<exists>st1 ds. delete_by_item_id_all_or_none item st = (st1, DeleteDone ds)"
    by (simp add: delete_by_item_id_all_or_none_def Let_def case_prod_beta)
  with cleanup_decision_iff [OF assms(1), of item now] d assms(2) show ?thesis
    by (cases d) (auto simp: cleanup_one_def)
qed

lemmas start_facts = start_batch_ok(1,2) run_events_ok end_batch_exact response_answers

section \<open>A concrete batch\<close>

text \<open>Two items of one state in two lanes, one item with an unknown token; another request holds a pin.\<close>

definition demo_item :: "pystr \<Rightarrow> pystr \<Rightarrow> pystr list \<Rightarrow> batch_item" where
  "demo_item node token tactics = \<lparr>bi_node = node, bi_token = token, bi_tactics = tactics,
     bi_acquire_ms = 5, bi_step_ms = 5, bi_goal_id = None, bi_resume = None, bi_group = None\<rparr>"

definition demo_batch :: "batch_item list" where
  "demo_batch = [demo_item (lit ''n0'') (lit ''st_a'') [lit ''simp'', lit ''ring''],
     demo_item (lit ''n1'') (lit ''st_z'') [lit ''simp''], demo_item (lit ''n2'') (lit ''st_a'') [lit ''rfl'']]"

definition demo_held :: store where
  "demo_held = store_run demo_ops demo_store"

definition demo_reg :: registry where
  "demo_reg = \<lparr>reg_retention = 660, reg_records = []\<rparr>"

definition demo_start :: "bstate \<times> resolved list" where
  "demo_start = start_batch (\<lambda>s. s) 2 10 demo_batch demo_held demo_reg [lit ''st_a''] []"

definition demo_result :: "pystr \<Rightarrow> pystr option \<Rightarrow> step_result" where
  "demo_result tac path = \<lparr>sr_tactic = tac, sr_status = (if path = None then StError else StOpen),
     sr_path = path, sr_goals = [], sr_messages = []\<rparr>"

definition demo_events :: "batch_event list" where
  "demo_events = [EvNext 0, EvLeased 0, EvUnpin (lit ''st_a''),
     EvStore 11 (OpWrite (lit ''pg_3.bin'') \<lparr>fl_content = Blob 10, fl_mtime = 11\<rparr>),
     EvCleanup 12 (lit ''i''), EvStore 13 OpGc, EvNext 1,
     EvStepped 0 [demo_result (lit ''simp'') (Some (lit ''pg_3.bin'')), demo_result (lit ''ring'') None]
       (\<lambda>k n. lit ''c'') 14 True,
     EvLeased 1]"

definition demo_rest :: "batch_event list" where
  "demo_rest = demo_events @ [EvNext 0, EvRaised 1 (lit ''died'') False, EvNext 1]"

lemma demo_inv: "run_inv demo_held" "reg_inv demo_reg"
  using store_run_inv [OF empty_run_inv [OF demo_ops_ok(2)] demo_ops_ok(1)]
  by (simp_all add: demo_held_def demo_reg_def reg_inv_def)

lemma demo_pins: "pin_count demo_held t = int (count_list [lit ''st_a''] t)"
proof -
  have "st_pins demo_held = [(lit ''st_a'', 1)]" by code_simp
  then show ?thesis by (simp add: pin_count_def dget_or_def)
qed

lemma demo_flights: "in_flight_of i demo_reg = int (count_list [] i)"
  by (simp add: in_flight_of_eq demo_reg_def)

lemma demo_started:
  "start_batch (\<lambda>s. s) 2 10 demo_batch demo_held demo_reg [lit ''st_a''] [] = (fst demo_start, snd demo_start)"
  by (simp add: demo_start_def)

lemmas demo_facts = demo_inv demo_pins demo_flights demo_started

lemma demo_events_ok:
  "events_ok (\<lambda>s. s) (\<lambda>e. []) demo_events (fst demo_start)"
  "events_ok (\<lambda>s. s) (\<lambda>e. []) demo_rest (fst demo_start)"
  by code_simp+

section \<open>Properties\<close>

text \<open>
  C3. While a step batch runs, whatever its lanes, the other requests, the cleanups and the collector
  do, every state it resolved stays stored with what was read of it, and a cleanup of its item is
  deferred because work is in flight.
\<close>

theorem batch_keeps_its_states:
  assumes "run_inv st" "reg_inv reg"
    and "\<And>t. pin_count st t = int (count_list env_pins t)"
    and "\<And>i. in_flight_of i reg = int (count_list env_items i)"
    and "start_batch repr max_lanes now items st reg env_pins env_items = (b, rs)"
    and "events_ok repr etext evs b" "rv \<in> set rs"
  shows "state_view (bs_store (run_events repr etext evs b)) (bi_token (rv_item rv)) =
      Some (view_of (rv_record rv)) \<and>
    (\<exists>n > 0. snd (cleanup_one (rec_item (rv_record rv)) later
      (bs_store (run_events repr etext evs b), bs_reg (run_events repr etext evs b))) = CleanupInFlight n)"
proof -
  let ?b = "run_events repr etext evs b" and ?i = "rec_item (rv_record rv)"
  have ok: "held_ok rs ?b"
    using start_facts(1,2) [OF assms(1-5)] run_events_ok assms(6) by blast
  have "state_view (bs_store ?b) (bi_token (rv_item rv)) = Some (view_of (rv_record rv))"
    using held_okD(4) [OF ok] assms(7) by (simp add: views_ok_def list_all_iff)
  moreover have "?i \<in> set (held_items rs)" using assms(7) by (simp add: held_items_def)
  then have "count_list (held_items rs) ?i \<noteq> 0" by (simp add: count_list_0_iff)
  then have "0 < in_flight_of ?i (bs_reg ?b)" using held_okD(6) [OF ok, of ?i] by simp
  then have "snd (cleanup_one ?i later (bs_store ?b, bs_reg ?b)) =
      CleanupInFlight (in_flight_of ?i (bs_reg ?b))"
    by (rule in_flight_cleanup [OF held_okD(3) [OF ok]])
  ultimately show ?thesis using \<open>0 < in_flight_of ?i (bs_reg ?b)\<close> by blast
qed

theorem batch_keeps_its_states_witness:
  "state_view (bs_store (run_events (\<lambda>s. s) (\<lambda>e. []) demo_events (fst demo_start))) (lit ''st_a'') \<noteq> None"
proof -
  have "hd (snd demo_start) \<in> set (snd demo_start)" "bi_token (rv_item (hd (snd demo_start))) = lit ''st_a''"
    by code_simp+
  then show ?thesis
    using batch_keeps_its_states [OF demo_facts demo_events_ok(1), of "hd (snd demo_start)"] by simp
qed

text \<open>
  C4. A step batch gives back exactly what it took: after it ends, each token is pinned and each item
  has work in flight just as often as the other requests hold them, even when several of the batch's
  items share a state or an item.
\<close>

theorem batch_releases_exactly:
  assumes "run_inv st" "reg_inv reg"
    and "\<And>t. pin_count st t = int (count_list env_pins t)"
    and "\<And>i. in_flight_of i reg = int (count_list env_items i)"
    and "start_batch repr max_lanes now items st reg env_pins env_items = (b, rs)"
    and "events_ok repr etext evs b"
  shows "let b' = run_events repr etext evs b in
    pin_count (bs_store (end_batch later rs b')) t = int (count_list (bs_env_pins b') t) \<and>
    in_flight_of i (bs_reg (end_batch later rs b')) = int (count_list (bs_env_items b') i)"
proof -
  have "held_ok rs (run_events repr etext evs b)"
    using start_facts(1,2) [OF assms(1-5)] run_events_ok assms(6) by blast
  from end_batch_exact [OF this] show ?thesis by (simp add: Let_def)
qed

theorem batch_releases_exactly_witness:
  "pin_count (bs_store (end_batch 20 (snd demo_start) (run_events (\<lambda>s. s) (\<lambda>e. []) demo_rest (fst demo_start))))
     (lit ''st_a'') = 0"
proof -
  have "bs_env_pins (run_events (\<lambda>s. s) (\<lambda>e. []) demo_rest (fst demo_start)) = []" by code_simp
  then show ?thesis
    using batch_releases_exactly [OF demo_facts demo_events_ok(2), of 20 "lit ''st_a''"]
    by (simp add: Let_def)
qed



text \<open>
  When one lane of a batch fails to start a worker, \<open>gather\<close> raises and the batch ends while the
  other lanes go on: from then on nothing protects the states they step.  If no other request holds
  anything, a cleanup of the item of a lane that is still stepping deletes its states.
\<close>

theorem early_release_unprotects:
  assumes "run_inv st" "reg_inv reg"
    and "\<And>t. pin_count st t = int (count_list env_pins t)"
    and "\<And>i. in_flight_of i reg = int (count_list env_items i)"
    and "start_batch repr max_lanes now items st reg env_pins env_items = (b, rs)"
    and "events_ok repr etext evs b"
    and "in_phase l LaneStepping (run_events repr etext evs b)"
    and "bs_env_pins (run_events repr etext evs b) = []" "bs_env_items (run_events repr etext evs b) = []"
  shows "let b' = end_batch later rs (run_events repr etext evs b);
      rv = hd (ln_items (bs_lanes b' ! l)) in
    in_phase l LaneStepping b' \<and> rv \<in> set rs \<and>
    (\<exists>ds. snd (cleanup_one (rec_item (rv_record rv)) later (bs_store b', bs_reg b')) = CleanupDeleted ds)"
proof -
  let ?b = "run_events repr etext evs b"
  let ?rv = "hd (ln_items (bs_lanes ?b ! l))" and ?e = "end_batch later rs ?b"
  have ok: "held_ok rs ?b" "slots_ok items rs ?b"
    using start_facts(1,2) [OF assms(1-5)] run_events_ok assms(6) by blast+
  have lane: "in_phase l LaneStepping ?e" "bs_lanes ?e = bs_lanes ?b"
    using assms(7) by (simp_all add: in_phase_def end_batch_def)
  have rv: "?rv \<in> set rs"
    using head_resolved(1) [OF ok(2)] phase_head [OF ok(2) assms(7)] assms(7) by (simp add: in_phase_def)
  have "store_inv (bs_store ?e)"
    using store_step_run_inv [of "bs_store ?b" "OpUnpin (held_tokens rs)" 0] held_okD(1) [OF ok(1)]
    by (simp add: end_batch_def held_tokens_def run_inv_def)
  moreover have "reg_inv (bs_reg ?e)"
    using in_flight_finish_many [OF held_okD(3) [OF ok(1)]] by (simp add: end_batch_def)
  ultimately have "\<exists>ds. snd (cleanup_one (rec_item (rv_record ?rv)) later (bs_store ?e, bs_reg ?e)) =
      CleanupDeleted ds"
    using end_batch_exact [OF ok(1)] assms(8,9) by (intro idle_cleanup) simp_all
  with lane rv show ?thesis by (simp add: Let_def)
qed

theorem early_release_unprotects_witness:
  "let b' = end_batch 20 (snd demo_start) (run_events (\<lambda>s. s) (\<lambda>e. []) demo_events (fst demo_start)) in
     \<exists>ds. snd (cleanup_one (rec_item (rv_record (hd (ln_items (bs_lanes b' ! 1))))) 20
       (bs_store b', bs_reg b')) = CleanupDeleted ds"
proof -
  let ?b = "run_events (\<lambda>s. s) (\<lambda>e. []) demo_events (fst demo_start)"
  have "in_phase 1 LaneStepping ?b" "bs_env_pins ?b = []" "bs_env_items ?b = []" by code_simp+
  from early_release_unprotects [OF demo_facts demo_events_ok(1) this, of 20]
  show ?thesis by (simp add: Let_def)
qed

end
