(* ===== verification/Infotree.thy ===== *)
theory Infotree
  imports PyText
begin

text \<open>
  The tree part of \<open>lean_client/infotree.py\<close>: \<open>extract_nodes_and_edges\<close> numbers the nodes of an
  infotree in depth-first order and flattens, below every node, the children that failed to pretty
  print and the single child that repeats its parent.  JSON dictionaries read with \<open>get\<close> and a
  default are records whose fields may be absent; children that are absent or not a list are the
  empty list, which the code treats alike.
\<close>

section \<open>Infotrees\<close>

record tree_range =
  rg_start :: "(int option \<times> int option) option"
  rg_finish :: "(int option \<times> int option) option"
  rg_synthetic :: "bool option"

record syntax_info =
  sx_pp :: "pystr option"
  sx_range :: "tree_range option"

record info_node =
  in_stx :: "syntax_info option"
  in_before :: "pystr list option"
  in_after :: "pystr list option"

datatype info_item = Item "info_node option" "info_item list"

definition empty_node :: info_node where
  "empty_node = \<lparr>in_stx = None, in_before = None, in_after = None\<rparr>"

definition or_default :: "'a \<Rightarrow> 'a option \<Rightarrow> 'a" where
  "or_default d x = (case x of None \<Rightarrow> d | Some y \<Rightarrow> y)"

definition node_pp :: "info_node \<Rightarrow> pystr" where
  "node_pp n = or_default [] (Option.bind (in_stx n) sx_pp)"

definition node_before :: "info_node \<Rightarrow> pystr list" where
  "node_before n = or_default [] (in_before n)"

definition node_after :: "info_node \<Rightarrow> pystr list" where
  "node_after n = or_default [] (in_after n)"

definition failed_pp :: pystr where
  "failed_pp = lit ''<failed to pretty print>''"

type_synonym nodes = "(int, info_node) pydict"
type_synonym edges = "(int \<times> int) list"

section \<open>Flattening\<close>

definition flatten_chain :: "nodes \<Rightarrow> edges \<Rightarrow> int \<Rightarrow> int \<Rightarrow> nodes \<times> edges" where
  "flatten_chain nodes edges p c =
     (if dget nodes c = None then (nodes, edges)
      else (dpop c nodes,
            map (\<lambda>e. if fst e = c then (p, snd e) else e)
              (filter (\<lambda>e. \<not> (fst e = p \<and> snd e = c)) edges)))"

definition same_node :: "info_node \<Rightarrow> info_node \<Rightarrow> bool" where
  "same_node p c \<longleftrightarrow> node_before c = node_before p \<and> node_after c = node_after p \<and> node_pp c = node_pp p"

text \<open>The child that one round of the \<open>while transformed\<close> loop flattens, if any.\<close>

definition flatten_child :: "bool \<Rightarrow> bool \<Rightarrow> info_node \<Rightarrow> int \<Rightarrow> nodes \<Rightarrow> edges \<Rightarrow> int option" where
  "flatten_child include_failed dedup data node nodes edges =
     (let children = map snd (filter (\<lambda>e. fst e = node) edges)
      in case find (\<lambda>c. \<not> include_failed \<and> node_pp (dget_or nodes c empty_node) = failed_pp) children of
           Some c \<Rightarrow> Some c
         | None \<Rightarrow>
             (case children of
                [c] \<Rightarrow>
                  (case dget nodes c of
                     None \<Rightarrow> None
                   | Some content \<Rightarrow> if dedup \<and> same_node data content then Some c else None)
              | _ \<Rightarrow> None))"

lemma node_pp_empty [simp]: "node_pp empty_node = []"
  by (simp add: node_pp_def empty_node_def or_default_def)

lemma failed_pp_nonempty [simp]: "failed_pp \<noteq> []"
  by (simp add: failed_pp_def)

lemma find_SomeD: "find P xs = Some x \<Longrightarrow> P x \<and> x \<in> set xs"
  by (induction xs) (auto split: if_splits)

lemma flatten_child_present:
  assumes "flatten_child include_failed dedup data node nodes edges = Some c"
  shows "dget nodes c \<noteq> None" "(node, c) \<in> set edges"
proof -
  define cs where "cs = map snd (filter (\<lambda>e. fst e = node) edges)"
  have mem: "(node, x) \<in> set edges" if "x \<in> set cs" for x using that by (auto simp: cs_def)
  have "dget nodes c \<noteq> None \<and> c \<in> set cs"
  proof (cases "find (\<lambda>c. \<not> include_failed \<and> node_pp (dget_or nodes c empty_node) = failed_pp) cs")
    case None
    with assms show ?thesis
      by (auto simp: flatten_child_def Let_def cs_def [symmetric] split: list.splits option.splits if_splits)
  next
    case (Some d)
    with assms have "d = c" by (simp add: flatten_child_def Let_def cs_def [symmetric])
    with find_SomeD [OF Some] have c: "c \<in> set cs" "node_pp (dget_or nodes c empty_node) = failed_pp"
      by blast+
    then have "dget nodes c \<noteq> None"
      by (cases "dget nodes c") (simp_all add: dget_or_def failed_pp_nonempty [symmetric])
    with c(1) show ?thesis by simp
  qed
  with mem [of c] show "dget nodes c \<noteq> None" "(node, c) \<in> set edges" by blast+
qed

lemma length_dpop_less: "dget d k \<noteq> None \<Longrightarrow> length (dpop k d) < length d"
  by (induction d) (auto simp: less_Suc_eq_le length_dpop_le split: if_splits)

text \<open>The loop ends because every round removes a node.\<close>

function flatten_loop :: "bool \<Rightarrow> bool \<Rightarrow> info_node \<Rightarrow> int \<Rightarrow> nodes \<Rightarrow> edges \<Rightarrow> nodes \<times> edges" where
  "flatten_loop include_failed dedup data node nodes edges =
     (case flatten_child include_failed dedup data node nodes edges of
        None \<Rightarrow> (nodes, edges)
      | Some c \<Rightarrow>
          (let (nodes', edges') = flatten_chain nodes edges node c
           in flatten_loop include_failed dedup data node nodes' edges'))"
  by pat_completeness auto

termination
  by (relation "measure (\<lambda>(i, d, x, k, nodes, edges). length nodes)")
    (auto simp: flatten_chain_def dest!: flatten_child_present(1) length_dpop_less split: if_splits)

declare flatten_loop.simps [simp del]

section \<open>Extraction\<close>

definition dict_update :: "('k, 'v) pydict \<Rightarrow> ('k, 'v) pydict \<Rightarrow> ('k, 'v) pydict" where
  "dict_update d e = foldl (\<lambda>d p. dset (fst p) (snd p) d) d e"

fun extract_nodes :: "bool \<Rightarrow> bool \<Rightarrow> int option \<Rightarrow> int \<Rightarrow> info_item list \<Rightarrow> nodes \<Rightarrow> edges
    \<Rightarrow> nodes \<times> edges \<times> int" where
  "extract_nodes include_failed dedup parent k [] nodes edges = (nodes, edges, k)"
| "extract_nodes include_failed dedup parent k (Item (Some data) children # items) nodes edges =
     (let (cn, ce, k') = extract_nodes include_failed dedup (Some k) (k + 1) children [] [];
          nodes1 = dict_update (dset k data nodes) cn;
          edges1 = edges @ ce @ (case parent of None \<Rightarrow> [] | Some p \<Rightarrow> [(p, k)]);
          (nodes2, edges2) = flatten_loop include_failed dedup data k nodes1 edges1
      in extract_nodes include_failed dedup parent k' items nodes2 edges2)"
| "extract_nodes include_failed dedup parent k (Item None children # items) nodes edges =
     (let (cn, ce, k') = extract_nodes include_failed dedup parent k children [] []
      in extract_nodes include_failed dedup parent k' items (dict_update nodes cn) (edges @ ce))"

definition extract_nodes_and_edges :: "bool \<Rightarrow> bool \<Rightarrow> info_item list \<Rightarrow> nodes \<times> edges \<times> int" where
  "extract_nodes_and_edges include_failed dedup items = extract_nodes include_failed dedup None 0 items [] []"

section \<open>The extracted forest\<close>

lemma dget_dict_update:
  "dwf e \<Longrightarrow> dget (dict_update d e) k = (case dget e k of None \<Rightarrow> dget d k | Some v \<Rightarrow> Some v)"
proof (induction e arbitrary: d)
  case Nil
  then show ?case by (simp add: dict_update_def)
next
  case (Cons p e)
  obtain x v where p: "p = (x, v)" by force
  have "dget e x = None" "dwf e"
    using Cons.prems dget_keys [of x e] by (auto simp: p dwf_def)
  with Cons.IH [of "dset x v d"] show ?case
    by (auto simp: p dict_update_def split: option.splits)
qed

lemma dwf_dict_update: "dwf d \<Longrightarrow> dwf (dict_update d e)"
  unfolding dict_update_def by (rule foldl_inv) auto

text \<open>The data of the nodes in the order in which they are numbered.\<close>

fun labels :: "info_item list \<Rightarrow> info_node list" where
  "labels [] = []"
| "labels (Item (Some data) children # items) = data # labels children @ labels items"
| "labels (Item None children # items) = labels children @ labels items"

text \<open>
  The invariant: the node numbers lie in the given range, every edge leads from a smaller to a larger
  number, from a node (or the caller's node \<open>parent\<close>) to a node, and no node has two incoming edges.
\<close>

definition forest :: "int option \<Rightarrow> int \<Rightarrow> int \<Rightarrow> nodes \<Rightarrow> edges \<Rightarrow> bool" where
  "forest parent lo hi nodes edges \<longleftrightarrow> dwf nodes \<and> (\<forall>k. dget nodes k \<noteq> None \<longrightarrow> lo \<le> k \<and> k < hi) \<and>
     distinct (map snd edges) \<and>
     (\<forall>e \<in> set edges. fst e < snd e \<and> dget nodes (snd e) \<noteq> None \<and>
        (dget nodes (fst e) \<noteq> None \<or> parent = Some (fst e)))"

text \<open>With failed nodes removed, no edge from a node in \<open>sources\<close> leads to one.\<close>

definition clean :: "bool \<Rightarrow> (int \<Rightarrow> bool) \<Rightarrow> nodes \<Rightarrow> edges \<Rightarrow> bool" where
  "clean include_failed sources nodes edges \<longleftrightarrow> include_failed \<or>
     (\<forall>e \<in> set edges. sources (fst e) \<longrightarrow> node_pp (dget_or nodes (snd e) empty_node) \<noteq> failed_pp)"

lemma forestD:
  assumes "forest parent lo hi nodes edges"
  shows "dwf nodes" "dget nodes k \<noteq> None \<Longrightarrow> lo \<le> k \<and> k < hi" "distinct (map snd edges)"
    "e \<in> set edges \<Longrightarrow> fst e < snd e" "e \<in> set edges \<Longrightarrow> dget nodes (snd e) \<noteq> None"
    "e \<in> set edges \<Longrightarrow> dget nodes (fst e) \<noteq> None \<or> parent = Some (fst e)"
  using assms unfolding forest_def by blast+

lemma flatten_targets:
  assumes "dget nodes c \<noteq> None" "flatten_chain nodes edges p c = (nodes', edges')"
  shows "nodes' = dpop c nodes"
    "edges' = map (\<lambda>e. if fst e = c then (p, snd e) else e) (filter (\<lambda>e. \<not> (fst e = p \<and> snd e = c)) edges)"
    "e \<in> set edges' \<Longrightarrow> \<exists>d. d \<in> set edges \<and> d \<noteq> (p, c) \<and> e = (if fst d = c then (p, snd d) else d)"
    "map snd edges' = map snd (filter (\<lambda>e. \<not> (fst e = p \<and> snd e = c)) edges)"
proof -
  show n: "nodes' = dpop c nodes" and e: "edges' =
      map (\<lambda>e. if fst e = c then (p, snd e) else e) (filter (\<lambda>e. \<not> (fst e = p \<and> snd e = c)) edges)"
    using assms by (auto simp: flatten_chain_def)
  show "\<exists>d. d \<in> set edges \<and> d \<noteq> (p, c) \<and> e = (if fst d = c then (p, snd d) else d)" if "e \<in> set edges'" for e
  proof -
    from that obtain d where "d \<in> set edges" "\<not> (fst d = p \<and> snd d = c)"
      "e = (if fst d = c then (p, snd d) else d)"
      unfolding e set_map set_filter image_iff by blast
    moreover from this(2) have "d \<noteq> (p, c)" by auto
    ultimately show ?thesis by blast
  qed
  show "map snd edges' = map snd (filter (\<lambda>e. \<not> (fst e = p \<and> snd e = c)) edges)"
    unfolding e by (induction edges) auto
qed

lemma distinct_map_filter: "distinct (map f xs) \<Longrightarrow> distinct (map f (filter P xs))"
  by (induction xs) auto

lemma target_unique:
  "distinct (map snd edges) \<Longrightarrow> e \<in> set edges \<Longrightarrow> (p, c) \<in> set edges \<Longrightarrow> snd e = c \<Longrightarrow> e = (p, c)"
  by (metis distinct_map inj_onD snd_conv)

lemma flatten_step:
  assumes f: "forest parent lo hi nodes edges" and c: "dget nodes c \<noteq> None" "(p, c) \<in> set edges"
    and p: "dget nodes p \<noteq> None" and step: "flatten_chain nodes edges p c = (nodes', edges')"
  shows "forest parent lo hi nodes' edges'" "dget nodes' p = dget nodes p"
    "clean include_failed (\<lambda>s. dget nodes s \<noteq> None \<and> s \<noteq> p) nodes edges \<Longrightarrow>
     clean include_failed (\<lambda>s. dget nodes' s \<noteq> None \<and> s \<noteq> p) nodes' edges'"
proof -
  note eq = flatten_targets [OF c(1) step]
  have pc: "p < c" using forestD(4) [OF f c(2)] by simp
  have tgt: "snd e \<noteq> c" if "e \<in> set edges" "e \<noteq> (p, c)" for e
    using target_unique [OF forestD(3) [OF f] that(1) c(2)] that(2) by blast
  show "dget nodes' p = dget nodes p" using pc by (simp add: eq)
  show "forest parent lo hi nodes' edges'"
    unfolding forest_def
  proof (intro conjI allI impI ballI)
    show "dwf nodes'" using forestD(1) [OF f] by (simp add: eq)
    show "lo \<le> k" "k < hi" if "dget nodes' k \<noteq> None" for k
      using forestD(2) [OF f, of k] that by (auto simp: eq split: if_splits)
    show "distinct (map snd edges')"
      unfolding eq(4) using forestD(3) [OF f] by (rule distinct_map_filter)
    fix e assume "e \<in> set edges'"
    then obtain d where d: "d \<in> set edges" "d \<noteq> (p, c)" "e = (if fst d = c then (p, snd d) else d)"
      using eq(3) by blast
    note fd = forestD(4-6) [OF f d(1)] and t = tgt [OF d(1,2)]
    show "fst e < snd e" using d(3) fd(1) pc by (auto split: if_splits)
    show "dget nodes' (snd e) \<noteq> None" using d(3) fd(2) t by (auto simp: eq(1) split: if_splits)
    show "dget nodes' (fst e) \<noteq> None \<or> parent = Some (fst e)"
      using d(3) fd(3) p pc by (auto simp: eq(1) split: if_splits)
  qed
  show "clean include_failed (\<lambda>s. dget nodes' s \<noteq> None \<and> s \<noteq> p) nodes' edges'"
    if old: "clean include_failed (\<lambda>s. dget nodes s \<noteq> None \<and> s \<noteq> p) nodes edges"
  proof (cases include_failed)
    case False
    have "node_pp (dget_or nodes' (snd e) empty_node) \<noteq> failed_pp"
      if e: "e \<in> set edges'" "dget nodes' (fst e) \<noteq> None" "fst e \<noteq> p" for e
    proof -
      obtain d where d: "d \<in> set edges" "d \<noteq> (p, c)" "e = (if fst d = c then (p, snd d) else d)"
        using eq(3) [OF e(1)] by blast
      with e(3) have "e = d" "fst d \<noteq> c" by (auto split: if_splits)
      moreover from this e(2) have "dget nodes (fst d) \<noteq> None" by (simp add: eq(1))
      ultimately show ?thesis
        using old False d(1) e(3) tgt [OF d(1,2)] by (auto simp: clean_def dget_or_def eq(1))
    qed
    then show ?thesis by (simp add: clean_def)
  qed (simp add: clean_def)
qed

lemma flatten_child_done:
  assumes "flatten_child include_failed dedup data p nodes edges = None"
    "clean include_failed (\<lambda>s. dget nodes s \<noteq> None \<and> s \<noteq> p) nodes edges"
  shows "clean include_failed (\<lambda>s. dget nodes s \<noteq> None) nodes edges"
proof (cases include_failed)
  case False
  let ?bad = "\<lambda>c. \<not> include_failed \<and> node_pp (dget_or nodes c empty_node) = failed_pp"
  have "find ?bad (map snd (filter (\<lambda>e. fst e = p) edges)) = None"
    using assms(1) by (cases "find ?bad (map snd (filter (\<lambda>e. fst e = p) edges))")
      (simp_all add: flatten_child_def Let_def)
  then have "\<forall>e \<in> set edges. fst e = p \<longrightarrow> node_pp (dget_or nodes (snd e) empty_node) \<noteq> failed_pp"
    using False by (auto simp: find_None_iff)
  with assms(2) show ?thesis by (auto simp: clean_def)
qed (simp add: clean_def)

lemma flatten_child_off: "flatten_child True False data p nodes edges = None"
proof -
  have "find (\<lambda>c. False) xs = None" for xs :: "int list" by (simp add: find_None_iff)
  then show ?thesis by (simp add: flatten_child_def Let_def split: list.split option.split)
qed

lemma flatten_loop_forest:
  assumes "forest parent lo hi nodes edges" "dget nodes p \<noteq> None"
    "clean include_failed (\<lambda>s. dget nodes s \<noteq> None \<and> s \<noteq> p) nodes edges"
    "flatten_loop include_failed dedup data p nodes edges = (nodes', edges')"
  shows "forest parent lo hi nodes' edges' \<and> clean include_failed (\<lambda>s. dget nodes' s \<noteq> None) nodes' edges' \<and>
    map_of nodes' \<subseteq>\<^sub>m map_of nodes"
  using assms
proof (induction include_failed dedup data p nodes edges rule: flatten_loop.induct)
  case (1 include_failed dedup data p nodes edges)
  show ?case
  proof (cases "flatten_child include_failed dedup data p nodes edges")
    case None
    with 1(5) have "nodes' = nodes" "edges' = edges" by (simp_all add: flatten_loop.simps)
    with 1(2,4) flatten_child_done [OF None] show ?thesis by simp
  next
    case (Some c)
    obtain n1 e1 where step: "flatten_chain nodes edges p c = (n1, e1)" by force
    note present = flatten_child_present [OF Some]
    note one = flatten_step [OF 1(2) present 1(3) step]
    have "flatten_loop include_failed dedup data p n1 e1 = (nodes', edges')"
      using 1(5) Some step by (simp add: flatten_loop.simps [of include_failed dedup data p nodes])
    then have "forest parent lo hi nodes' edges' \<and>
        clean include_failed (\<lambda>s. dget nodes' s \<noteq> None) nodes' edges' \<and> map_of nodes' \<subseteq>\<^sub>m map_of n1"
      using 1(1) [OF Some step [symmetric] refl one(1)] one(2) 1(3) one(3) [OF 1(4)] by simp
    moreover have "map_of n1 \<subseteq>\<^sub>m map_of nodes"
      using flatten_targets(1) [OF present(1) step] by (simp add: map_le_def)
    ultimately show ?thesis using map_le_trans by blast
  qed
qed

lemma forest_parent_mono:
  "forest parent lo hi nodes edges \<Longrightarrow> lo' \<le> lo \<Longrightarrow> hi \<le> hi' \<Longrightarrow> forest parent lo' hi' nodes edges"
  unfolding forest_def by force

text \<open>Adding the nodes and edges of a later range of numbers.\<close>

lemma forest_join:
  assumes a: "forest parent lo mid ns es" and b: "forest parent mid hi cn ce" and "lo \<le> mid" "mid \<le> hi"
    and p: "\<forall>q. parent = Some q \<longrightarrow> q < lo"
  shows "forest parent lo hi (dict_update ns cn) (es @ ce)"
    "dget (dict_update ns cn) k = (if k < mid then dget ns k else dget cn k)"
    "clean inc (\<lambda>s. dget ns s \<noteq> None) ns es \<Longrightarrow> clean inc (\<lambda>s. dget cn s \<noteq> None \<and> s \<notin> X) cn ce \<Longrightarrow>
     clean inc (\<lambda>s. dget (dict_update ns cn) s \<noteq> None \<and> s \<notin> X) (dict_update ns cn) (es @ ce)"
proof -
  have g: "dget (dict_update ns cn) k = (if k < mid then dget ns k else dget cn k)" for k
    using forestD(2) [OF a, of k] forestD(2) [OF b, of k]
    by (cases "dget ns k"; cases "dget cn k") (simp_all add: dget_dict_update [OF forestD(1) [OF b]])
  show "dget (dict_update ns cn) k = (if k < mid then dget ns k else dget cn k)" by (rule g)
  have ra: "snd e < mid" "fst e < mid" if "e \<in> set es" for e
    using forestD(2) [OF a forestD(5) [OF a that]] forestD(4) [OF a that] by auto
  have rb: "mid \<le> snd e" "fst e < mid \<Longrightarrow> parent = Some (fst e)" if "e \<in> set ce" for e
    using forestD(2) [OF b forestD(5) [OF b that]] forestD(2) [OF b, of "fst e"] forestD(6) [OF b that]
    by force+
  show "forest parent lo hi (dict_update ns cn) (es @ ce)"
    unfolding forest_def
  proof (intro conjI allI impI ballI)
    show "dwf (dict_update ns cn)" using forestD(1) [OF a] by (rule dwf_dict_update)
    show "lo \<le> k" "k < hi" if "dget (dict_update ns cn) k \<noteq> None" for k
      using that forestD(2) [OF a, of k] forestD(2) [OF b, of k] assms(3,4) by (auto simp: g split: if_splits)
    have "set (map snd es) \<inter> set (map snd ce) = {}" using ra(1) rb(1) by fastforce
    then show "distinct (map snd (es @ ce))" using forestD(3) [OF a] forestD(3) [OF b] by simp
    fix e assume "e \<in> set (es @ ce)"
    then consider "e \<in> set es" | "e \<in> set ce" by auto
    then have "fst e < snd e \<and> dget (dict_update ns cn) (snd e) \<noteq> None \<and>
        (dget (dict_update ns cn) (fst e) \<noteq> None \<or> parent = Some (fst e))"
    proof cases
      case 1
      with ra [OF 1] forestD(4-6) [OF a 1] show ?thesis by (simp add: g)
    next
      case 2
      with rb [OF 2] forestD(4-6) [OF b 2] show ?thesis by (auto simp: g not_less)
    qed
    then show "fst e < snd e" "dget (dict_update ns cn) (snd e) \<noteq> None"
      "dget (dict_update ns cn) (fst e) \<noteq> None \<or> parent = Some (fst e)" by blast+
  qed
  show "clean inc (\<lambda>s. dget (dict_update ns cn) s \<noteq> None \<and> s \<notin> X) (dict_update ns cn) (es @ ce)"
    if ca: "clean inc (\<lambda>s. dget ns s \<noteq> None) ns es" and cb: "clean inc (\<lambda>s. dget cn s \<noteq> None \<and> s \<notin> X) cn ce"
  proof (cases inc)
    case False
    have "node_pp (dget_or (dict_update ns cn) (snd e) empty_node) \<noteq> failed_pp"
      if e: "e \<in> set (es @ ce)" "dget (dict_update ns cn) (fst e) \<noteq> None" "fst e \<notin> X" for e
    proof (cases "e \<in> set es")
      case True
      with ra [OF True] ca e(2) False show ?thesis by (simp add: clean_def g dget_or_def)
    next
      case other: False
      with e(1) have 2: "e \<in> set ce" by simp
      have "\<not> fst e < mid"
        using rb(2) [OF 2] p e(2) forestD(2) [OF a, of "fst e"] by (auto simp: g)
      with rb(1) [OF 2] cb e(2,3) False 2 show ?thesis by (simp add: clean_def g dget_or_def)
    qed
    then show ?thesis by (simp add: clean_def)
  qed (simp add: clean_def)
qed

text \<open>A node above the forest of its children.\<close>

lemma forest_node:
  assumes f: "forest (Some k) (k + 1) hi cn ce" and "k < hi"
  shows "forest None k hi (dict_update [(k, data)] cn) ce"
    "dget (dict_update [(k, data)] cn) j = (if j = k then Some data else dget cn j)"
    "clean inc (\<lambda>s. dget cn s \<noteq> None) cn ce \<Longrightarrow>
     clean inc (\<lambda>s. dget (dict_update [(k, data)] cn) s \<noteq> None \<and> s \<noteq> k) (dict_update [(k, data)] cn) ce"
proof -
  have g: "dget (dict_update [(k, data)] cn) j = (if j = k then Some data else dget cn j)" for j
    using forestD(2) [OF f, of k] by (cases "dget cn j") (auto simp: dget_dict_update [OF forestD(1) [OF f]])
  show "dget (dict_update [(k, data)] cn) j = (if j = k then Some data else dget cn j)" by (rule g)
  have tgt: "snd e \<noteq> k" if "e \<in> set ce" for e
    using forestD(2) [OF f forestD(5) [OF f that]] by simp
  show "forest None k hi (dict_update [(k, data)] cn) ce"
    unfolding forest_def
  proof (intro conjI allI impI ballI)
    show "dwf (dict_update [(k, data)] cn)" by (rule dwf_dict_update) (simp add: dwf_def)
    show "k \<le> j" "j < hi" if "dget (dict_update [(k, data)] cn) j \<noteq> None" for j
      using that forestD(2) [OF f, of j] assms(2) by (auto simp: g split: if_splits)
    show "distinct (map snd ce)" by (rule forestD(3) [OF f])
    fix e assume "e \<in> set ce"
    with forestD(4-6) [OF f this] tgt [OF this]
    show "fst e < snd e" "dget (dict_update [(k, data)] cn) (snd e) \<noteq> None"
      "dget (dict_update [(k, data)] cn) (fst e) \<noteq> None \<or> None = Some (fst e)"
      by (auto simp: g)
  qed
  show "clean inc (\<lambda>s. dget (dict_update [(k, data)] cn) s \<noteq> None \<and> s \<noteq> k) (dict_update [(k, data)] cn) ce"
    if "clean inc (\<lambda>s. dget cn s \<noteq> None) cn ce"
    using that tgt by (auto simp: clean_def g dget_or_def)
qed

lemma forest_cong:
  assumes "dwf ns'" "\<And>k. dget ns' k = dget ns k"
  shows "forest parent lo hi ns es \<Longrightarrow> forest parent lo hi ns' es"
    "clean inc S ns' es = clean inc S ns es"
  using assms by (simp_all add: forest_def clean_def dget_or_def)

lemma forest_parent_edge:
  assumes f: "forest None k hi ns es" and "dget ns k \<noteq> None" "\<forall>q. parent = Some q \<longrightarrow> q < k"
  defines "es' \<equiv> es @ (case parent of None \<Rightarrow> [] | Some q \<Rightarrow> [(q, k)])"
  shows "forest parent k hi ns es'"
    "clean inc (\<lambda>s. dget ns s \<noteq> None \<and> s \<noteq> k) ns es \<Longrightarrow>
     clean inc (\<lambda>s. dget ns s \<noteq> None \<and> s \<noteq> k) ns es'"
proof -
  have src: "dget ns (fst e) \<noteq> None" if "e \<in> set es" for e using forestD(6) [OF f that] by simp
  have tgt: "snd e \<noteq> k" if "e \<in> set es" for e
    using forestD(2) [OF f src [OF that]] forestD(4) [OF f that] by simp
  have low: "dget ns q = None" if "parent = Some q" for q
    using forestD(2) [OF f, of q] assms(3) that by (cases "dget ns q") auto
  show "forest parent k hi ns es'"
  proof (cases parent)
    case None
    with f show ?thesis by (simp add: es'_def)
  next
    case (Some q)
    have "k \<notin> set (map snd es)" using tgt by auto
    then show ?thesis
      using f Some src assms(2,3) forestD(4,5) [OF f]
      by (simp add: forest_def es'_def ball_Un)
  qed
  show "clean inc (\<lambda>s. dget ns s \<noteq> None \<and> s \<noteq> k) ns es'"
    if "clean inc (\<lambda>s. dget ns s \<noteq> None \<and> s \<noteq> k) ns es"
    using that low by (cases parent) (auto simp: clean_def es'_def)
qed

lemma extract_forest:
  "extract_nodes inc dedup parent k items ns es = (ns', es', k') \<Longrightarrow>
   forest parent lo k ns es \<Longrightarrow> clean inc (\<lambda>s. dget ns s \<noteq> None) ns es \<Longrightarrow> lo \<le> k \<Longrightarrow>
   \<forall>q. parent = Some q \<longrightarrow> q < lo \<Longrightarrow>
   forest parent lo k' ns' es' \<and> clean inc (\<lambda>s. dget ns' s \<noteq> None) ns' es' \<and>
   k' = k + int (length (labels items)) \<and>
   (\<forall>j. dget ns' j \<noteq> None \<longrightarrow>
      dget ns' j = (if j < k then dget ns j else Some (labels items ! nat (j - k))))"
proof (induction inc dedup parent k items ns es arbitrary: lo ns' es' k' rule: extract_nodes.induct)
  case (1 inc dedup parent k ns es)
  then have eq: "ns' = ns" "es' = es" "k' = k" by simp_all
  have "j < k" if "dget ns j \<noteq> None" for j using forestD(2) [OF 1(2) that] by simp
  then show ?case using 1(2,3) unfolding eq by simp
next
  case (2 inc dedup parent k data children items ns es)
  obtain cn ce m where ch: "extract_nodes inc dedup (Some k) (k + 1) children [] [] = (cn, ce, m)"
    using prod_cases3 by blast
  let ?n1 = "dict_update (dset k data ns) cn"
  let ?e1 = "es @ ce @ (case parent of None \<Rightarrow> [] | Some q \<Rightarrow> [(q, k)])"
  obtain n2 e2 where loop: "flatten_loop inc dedup data k ?n1 ?e1 = (n2, e2)" by force
  have rest: "extract_nodes inc dedup parent m items n2 e2 = (ns', es', k')"
    using 2(3) ch loop by (simp add: Let_def)
  have empty: "forest (Some k) (k + 1) (k + 1) [] []" "clean inc S [] []" for S
    by (simp_all add: forest_def clean_def)
  note child = 2(1) [OF ch empty(1) empty(2) order_refl]
  have fc: "forest (Some k) (k + 1) m cn ce" and cc: "clean inc (\<lambda>s. dget cn s \<noteq> None) cn ce"
    and m: "m = k + 1 + int (length (labels children))"
    and lc: "\<And>j. dget cn j \<noteq> None \<Longrightarrow> dget cn j =
      (if j < k + 1 then None else Some (labels children ! nat (j - (k + 1))))"
    using child by auto
  have "k < m" using m by simp
  note node = forest_node [OF fc this, where data = data]
  note up = forest_parent_edge [OF node(1), where parent = parent]
  have kin: "dget (dict_update [(k, data)] cn) k \<noteq> None" by (simp add: node(2))
  have low: "\<forall>q. parent = Some q \<longrightarrow> q < k" using 2(6,7) by force
  define n1 where "n1 = dict_update (dset k data ns) cn"
  note join = forest_join [OF 2(4) up(1) [OF kin low] 2(6) less_imp_le [OF \<open>k < m\<close>] 2(7)]
  have wf1: "dwf n1" unfolding n1_def using forestD(1) [OF 2(4)] by (intro dwf_dict_update dwf_dset)
  have g1: "dget n1 j = dget (dict_update ns (dict_update [(k, data)] cn)) j" for j
  proof -
    have "dget n1 j = (case dget cn j of None \<Rightarrow> dget (dset k data ns) j | Some v \<Rightarrow> Some v)"
      unfolding n1_def by (rule dget_dict_update [OF forestD(1) [OF fc]])
    moreover have "dget cn j = None" if "j \<le> k" using lc [of j] that by (cases "dget cn j") auto
    moreover have "dget ns j = None" if "k \<le> j" using forestD(2) [OF 2(4), of j] that by (cases "dget ns j") auto
    ultimately show ?thesis
      unfolding join(2) node(2) by (cases "j < k"; cases "j = k") (auto split: option.split)
  qed
  have f1: "forest parent lo m n1 ?e1"
    by (rule forest_cong(1) [OF wf1 g1]) (use join(1) in simp)
  have c1: "clean inc (\<lambda>s. dget n1 s \<noteq> None \<and> s \<noteq> k) n1 ?e1"
    using join(3) [OF 2(5), of "{k}"] up(2) [OF kin low node(3) [OF cc]]
      forest_cong(2) [OF wf1 g1, of inc "\<lambda>s. dget n1 s \<noteq> None \<and> s \<noteq> k" ?e1] by (simp add: g1)
  have "dget n1 k \<noteq> None" unfolding g1 join(2) node(2) by simp
  from flatten_loop_forest [OF f1 this c1 loop [folded n1_def]]
  have f2: "forest parent lo m n2 e2" and c2: "clean inc (\<lambda>s. dget n2 s \<noteq> None) n2 e2"
    and le: "map_of n2 \<subseteq>\<^sub>m map_of n1" by blast+
  have "lo \<le> m" using \<open>k < m\<close> 2(6) by simp
  from 2(2) [OF refl ch [symmetric] refl refl refl refl loop [symmetric] rest f2 c2 this 2(7)]
  have ih: "forest parent lo k' ns' es'" "clean inc (\<lambda>s. dget ns' s \<noteq> None) ns' es'"
    and k': "k' = m + int (length (labels items))"
    and lr: "\<And>j. dget ns' j \<noteq> None \<Longrightarrow>
      dget ns' j = (if j < m then dget n2 j else Some (labels items ! nat (j - m)))" by blast+
  have "dget ns' j = (if j < k then dget ns j else Some ((data # labels children @ labels items) ! nat (j - k)))"
    if "dget ns' j \<noteq> None" for j
  proof (cases "j < m")
    case True
    then have n2: "dget ns' j = dget n2 j" using lr [OF that] by simp
    with that le have "dget n2 j = dget n1 j" by (metis domIff map_le_def)
    with n2 have n1: "dget ns' j = dget n1 j" by simp
    show ?thesis
    proof (cases "k < j")
      case False
      then show ?thesis unfolding n1 g1 join(2) node(2) by simp
    next
      case True
      then have cn: "dget ns' j = dget cn j" unfolding n1 g1 join(2) node(2) by simp
      then have "dget cn j = Some (labels children ! nat (j - (k + 1)))" using lc [of j] that True by simp
      moreover have "nat (j - k) = Suc (nat (j - (k + 1)))" "nat (j - (k + 1)) < length (labels children)"
        using True \<open>j < m\<close> m by simp_all
      ultimately show ?thesis using cn True by (simp add: nth_append)
    qed
  next
    case False
    then have "nat (j - k) = Suc (length (labels children) + nat (j - m))" using m by simp
    with False lr [OF that] \<open>k < m\<close> show ?thesis by (simp add: nth_append)
  qed
  moreover have "k' = k + int (length (labels (Item (Some data) children # items)))" using k' m by simp
  ultimately show ?case unfolding labels.simps using ih by blast
next
  case (3 inc dedup parent k children items ns es)
  obtain cn ce m where ch: "extract_nodes inc dedup parent k children [] [] = (cn, ce, m)"
    using prod_cases3 by blast
  have rest: "extract_nodes inc dedup parent m items (dict_update ns cn) (es @ ce) = (ns', es', k')"
    using 3(3) ch by (simp add: Let_def)
  have empty: "forest parent k k [] []" "clean inc S [] []" for S by (simp_all add: forest_def clean_def)
  have low: "\<forall>q. parent = Some q \<longrightarrow> q < k" using 3(6,7) by force
  note child = 3(1) [OF ch empty(1) empty(2) order_refl low]
  have fc: "forest parent k m cn ce" and cc: "clean inc (\<lambda>s. dget cn s \<noteq> None) cn ce"
    and m: "m = k + int (length (labels children))"
    and lc: "\<And>j. dget cn j \<noteq> None \<Longrightarrow> dget cn j =
      (if j < k then None else Some (labels children ! nat (j - k)))"
    using child by auto
  have "k \<le> m" using m by simp
  note join = forest_join [OF 3(4) fc 3(6) this 3(7)]
  have "clean inc (\<lambda>s. dget (dict_update ns cn) s \<noteq> None) (dict_update ns cn) (es @ ce)"
    using join(3) [OF 3(5), of "{}"] cc by simp
  moreover have "lo \<le> m" using \<open>k \<le> m\<close> 3(6) by simp
  ultimately have rec: "forest parent lo k' ns' es' \<and> clean inc (\<lambda>s. dget ns' s \<noteq> None) ns' es' \<and>
     k' = m + int (length (labels items)) \<and>
     (\<forall>j. dget ns' j \<noteq> None \<longrightarrow>
        dget ns' j = (if j < m then dget (dict_update ns cn) j else Some (labels items ! nat (j - m))))"
    using 3(2) [OF refl ch [symmetric] refl rest join(1)] 3(7) by blast
  have "dget ns' j = (if j < k then dget ns j else Some ((labels children @ labels items) ! nat (j - k)))"
    if "dget ns' j \<noteq> None" for j
  proof (cases "j < m")
    case True
    then have n: "dget ns' j = dget (dict_update ns cn) j" using rec that by auto
    show ?thesis
    proof (cases "j < k")
      case False
      then have cn: "dget ns' j = dget cn j" unfolding n join(2) by simp
      then have "dget cn j = Some (labels children ! nat (j - k))" using lc [of j] that False by simp
      moreover have "nat (j - k) < length (labels children)" using False True m by simp
      ultimately show ?thesis using cn False by (simp add: nth_append)
    qed (simp add: n join(2))
  next
    case False
    then have "nat (j - k) = length (labels children) + nat (j - m)" using m by simp
    moreover have "dget ns' j = Some (labels items ! nat (j - m))" using rec that False by auto
    ultimately show ?thesis using False \<open>k \<le> m\<close> by (simp add: nth_append)
  qed
  moreover have "k' = k + int (length (labels (Item None children # items)))" using rec m by simp
  ultimately show ?case unfolding labels.simps using rec by blast
qed

section \<open>Properties\<close>

text \<open>
  C22. The extracted nodes and edges form a forest over the depth-first numbering: each kept number
  holds the data of that node, edges lead from kept nodes to kept nodes with larger numbers, no node
  has two parents, the next free number is the number of nodes of the tree, and when failed nodes are
  left out no node below another one is a failed one.
\<close>

theorem extraction_is_forest:
  assumes "extract_nodes_and_edges inc dedup items = (nodes, edges, next_id)"
  shows "next_id = int (length (labels items)) \<and> dwf nodes \<and>
    (\<forall>k. dget nodes k \<noteq> None \<longrightarrow> 0 \<le> k \<and> k < next_id \<and> dget nodes k = Some (labels items ! nat k)) \<and>
    distinct (map snd edges) \<and>
    (\<forall>e \<in> set edges. fst e < snd e \<and> dget nodes (fst e) \<noteq> None \<and> dget nodes (snd e) \<noteq> None \<and>
      (inc \<or> node_pp (dget_or nodes (snd e) empty_node) \<noteq> failed_pp))"
proof -
  have "forest None 0 0 [] []" "clean inc S [] []" for S by (simp_all add: forest_def clean_def)
  from extract_forest [OF assms [unfolded extract_nodes_and_edges_def] this order_refl]
  have f: "forest None 0 next_id nodes edges" and c: "clean inc (\<lambda>s. dget nodes s \<noteq> None) nodes edges"
    and n: "next_id = 0 + int (length (labels items))"
    and l: "\<And>k. dget nodes k \<noteq> None \<Longrightarrow> dget nodes k =
      (if k < 0 then None else Some (labels items ! nat (k - 0)))" by auto
  have src: "dget nodes (fst e) \<noteq> None" if "e \<in> set edges" for e using forestD(6) [OF f that] by simp
  show ?thesis
  proof (intro conjI allI ballI impI)
    show "next_id = int (length (labels items))" using n by simp
    show "dwf nodes" "distinct (map snd edges)" using forestD(1,3) [OF f] .
    show "0 \<le> k" "k < next_id" "dget nodes k = Some (labels items ! nat k)" if "dget nodes k \<noteq> None" for k
      using forestD(2) [OF f that] l [OF that] by simp_all
    fix e assume e: "e \<in> set edges"
    show "fst e < snd e" "dget nodes (snd e) \<noteq> None" using forestD(4,5) [OF f e] .
    show "dget nodes (fst e) \<noteq> None" by (rule src [OF e])
    show "inc \<or> node_pp (dget_or nodes (snd e) empty_node) \<noteq> failed_pp"
      using c e src [OF e] by (auto simp: clean_def)
  qed
qed

definition demo_node :: "pystr \<Rightarrow> info_node" where
  "demo_node pp = \<lparr>in_stx = Some \<lparr>sx_pp = Some pp, sx_range = None\<rparr>, in_before = None, in_after = None\<rparr>"

definition demo_tree :: "info_item list" where
  "demo_tree = [Item (Some (demo_node (lit ''by''))) [Item (Some (demo_node failed_pp))
     [Item (Some (demo_node (lit ''simp''))) [], Item None [Item (Some (demo_node (lit ''rfl''))) []]]]]"

theorem extraction_is_forest_witness:
  "extract_nodes_and_edges False True demo_tree =
     ([(0, demo_node (lit ''by'')), (2, demo_node (lit ''simp'')), (3, demo_node (lit ''rfl''))],
      [(0, 2), (0, 3)], 4) \<and> int (length (labels demo_tree)) = 4"
proof -
  have e: "extract_nodes_and_edges False True demo_tree =
     ([(0, demo_node (lit ''by'')), (2, demo_node (lit ''simp'')), (3, demo_node (lit ''rfl''))],
      [(0, 2), (0, 3)], 4)" by code_simp
  then show ?thesis using extraction_is_forest [OF e] by simp
qed

text \<open>A root that failed to pretty print is kept, whatever the flag says.\<close>

lemma failed_root_is_kept:
  "fst (extract_nodes_and_edges False dedup [Item (Some data) []]) = [(0, data)]"
  by (simp add: extract_nodes_and_edges_def dict_update_def flatten_loop.simps flatten_child_def)

end
