(* ===== verification/TacticText.thy ===== *)
theory TacticText
  imports Infotree "HOL-Library.Product_Lexorder"
begin

text \<open>
  The text part of \<open>lean_client/infotree.py\<close>: the nodes' source ranges are made adjacent, cut out of
  the source, and merged into tactics; \<open>extract_data\<close> composes the steps.  Python's slices and
  negative indices are written out; an index out of range is \<open>None\<close>.
\<close>

section \<open>Intervals\<close>

record interval =
  iv_node :: int
  iv_pp :: pystr
  iv_start_line :: int
  iv_start_col :: int
  iv_finish_line :: int
  iv_finish_col :: int
  iv_before :: "pystr list"
  iv_after :: "pystr list"

definition node_range :: "info_node \<Rightarrow> tree_range" where
  "node_range n = or_default \<lparr>rg_start = None, rg_finish = None, rg_synthetic = None\<rparr>
     (Option.bind (in_stx n) sx_range)"

definition position_of :: "(int option \<times> int option) option \<Rightarrow> int \<times> int" where
  "position_of d = (case d of None \<Rightarrow> (0, 0) | Some (l, c) \<Rightarrow> (or_default 0 l, or_default 0 c))"

definition node_start :: "info_node \<Rightarrow> int \<times> int" where
  "node_start n = position_of (rg_start (node_range n))"

definition node_finish :: "info_node \<Rightarrow> int \<times> int" where
  "node_finish n = position_of (rg_finish (node_range n))"

definition is_synthetic :: "info_node \<Rightarrow> bool" where
  "is_synthetic n = or_default False (rg_synthetic (node_range n))"

definition interval_of :: "int \<times> info_node \<Rightarrow> interval" where
  "interval_of p =
     \<lparr>iv_node = fst p, iv_pp = node_pp (snd p),
      iv_start_line = fst (node_start (snd p)), iv_start_col = snd (node_start (snd p)),
      iv_finish_line = fst (node_finish (snd p)), iv_finish_col = snd (node_finish (snd p)),
      iv_before = node_before (snd p), iv_after = node_after (snd p)\<rparr>"

definition get_intervals :: "nodes \<Rightarrow> interval list" where
  "get_intervals nodes = map interval_of nodes"

definition iv_start :: "interval \<Rightarrow> int \<times> int" where
  "iv_start iv = (iv_start_line iv, iv_start_col iv)"

definition iv_finish :: "interval \<Rightarrow> int \<times> int" where
  "iv_finish iv = (iv_finish_line iv, iv_finish_col iv)"

definition furthest_finish :: "interval list \<Rightarrow> int \<times> int" where
  "furthest_finish ivs = foldl (\<lambda>m iv. if m < iv_finish iv then iv_finish iv else m) (- 1, - 1) ivs"

text \<open>The loop that ends each interval where the next one starts; the last one ends at \<open>m\<close>.\<close>

fun link_intervals :: "int \<times> int \<Rightarrow> interval list \<Rightarrow> interval list" where
  "link_intervals m [] = []"
| "link_intervals m [iv] = [iv\<lparr>iv_finish_line := fst m, iv_finish_col := snd m\<rparr>]"
| "link_intervals m (iv # nxt # ivs) =
     iv\<lparr>iv_finish_line := iv_start_line nxt, iv_finish_col := iv_start_col nxt,
        iv_after := iv_before nxt\<rparr> # link_intervals m (nxt # ivs)"

definition is_empty_interval :: "interval \<Rightarrow> bool" where
  "is_empty_interval iv \<longleftrightarrow> iv_start_line iv = iv_finish_line iv \<and> iv_start_col iv = iv_finish_col iv"

definition adjust_intervals :: "interval list \<Rightarrow> interval list" where
  "adjust_intervals ivs =
     (let sorted_ivs = sort_key iv_start ivs
      in filter (\<lambda>iv. \<not> is_empty_interval iv) (link_intervals (furthest_finish sorted_ivs) sorted_ivs))"

section \<open>Snippets\<close>

definition py_clamp :: "int \<Rightarrow> int \<Rightarrow> int" where
  "py_clamp n a = (if a < 0 then max (a + n) 0 else min a n)"

definition py_from :: "int \<Rightarrow> 'a list \<Rightarrow> 'a list" where
  "py_from a s = drop (nat (py_clamp (int (length s)) a)) s"

definition py_upto :: "int \<Rightarrow> 'a list \<Rightarrow> 'a list" where
  "py_upto b s = take (nat (py_clamp (int (length s)) b)) s"

definition py_slice :: "int \<Rightarrow> int \<Rightarrow> 'a list \<Rightarrow> 'a list" where
  "py_slice a b s = drop (nat (py_clamp (int (length s)) a)) (py_upto b s)"

definition py_nth :: "'a list \<Rightarrow> int \<Rightarrow> 'a option" where
  "py_nth xs i =
     (if 0 \<le> i \<and> i < int (length xs) then Some (xs ! nat i)
      else if i < 0 \<and> - int (length xs) \<le> i then Some (xs ! nat (int (length xs) + i)) else None)"

fun opt_all :: "'a option list \<Rightarrow> 'a list option" where
  "opt_all [] = Some []"
| "opt_all (None # xs) = None"
| "opt_all (Some x # xs) = map_option (\<lambda>ys. x # ys) (opt_all xs)"

definition extract_snippet :: "pystr list \<Rightarrow> int \<times> int \<Rightarrow> int \<times> int \<Rightarrow> pystr option" where
  "extract_snippet source start finish =
     (let (sl, sc) = start; (fl, fc) = finish
      in if sl = fl then map_option (py_slice sc fc) (py_nth source (sl - 1))
         else map_option concat (opt_all
           ([map_option (py_from sc) (py_nth source (sl - 1))]
            @ map (py_nth source) [sl..fl - 2]
            @ [map_option (py_upto fc) (py_nth source (fl - 1))])))"

record tactic_data =
  td_before :: "pystr list"
  td_after :: "pystr list"
  td_tactic :: pystr

definition tactic_of :: "pystr list \<Rightarrow> interval \<Rightarrow> tactic_data option" where
  "tactic_of source iv = map_option
     (\<lambda>msg. \<lparr>td_before = iv_before iv, td_after = iv_after iv, td_tactic = msg\<rparr>)
     (extract_snippet source (iv_start iv) (iv_finish iv))"

definition retrieve_tactics :: "interval list \<Rightarrow> pystr list \<Rightarrow> tactic_data list option" where
  "retrieve_tactics ivs source = opt_all (map (tactic_of source) ivs)"

section \<open>Trailing white space and comments\<close>

definition is_code_blank :: "int \<Rightarrow> bool" where
  "is_code_blank c \<longleftrightarrow> c = 32 \<or> c = 9 \<or> c = 10 \<or> c = 13"

definition separate_trailing_whitespace :: "pystr \<Rightarrow> pystr \<times> pystr" where
  "separate_trailing_whitespace s = (let code = rstrip_by is_code_blank s in (code, drop (length code) s))"

text \<open>The lines from the bottom up: the block comment that ends at the first one, and what is above.\<close>

fun block_above :: "pystr list \<Rightarrow> pystr \<Rightarrow> (pystr \<times> pystr list) option" where
  "block_above [] acc = None"
| "block_above (l # ls) acc =
     (if starts_with (lit ''/-'') (lstrip l) then Some (l @ acc, ls) else block_above ls (l @ acc))"

lemma block_above_shorter: "block_above ls acc = Some (b, rest) \<Longrightarrow> length rest < length ls"
  by (induction ls acc rule: block_above.induct) (auto split: if_splits)

function scan_comments :: "pystr list \<Rightarrow> pystr list \<Rightarrow> pystr list \<times> pystr list" where
  "scan_comments [] found = ([], found)"
| "scan_comments (l # ls) found =
     (if strip l = [] then scan_comments ls (found @ [l])
      else if contains (lit ''-/'') l
      then (case block_above (l # ls) [] of
              None \<Rightarrow> (l # ls, found)
            | Some (block, rest) \<Rightarrow> scan_comments rest (found @ [block]))
      else if starts_with (lit ''--'') (lstrip l) then scan_comments ls (found @ [l])
      else (l # ls, found))"
  by pat_completeness auto

termination
  by (relation "measure (\<lambda>(ls, found). length ls)") (auto dest!: block_above_shorter split: if_splits)

definition separate_trailing_comment :: "pystr \<Rightarrow> pystr \<times> pystr" where
  "separate_trailing_comment s =
     (let ls = splitlines_keep s
      in if ls = [] then (s, [])
         else (let (rest, found) = scan_comments (rev ls) []
               in (concat (rev rest), concat (rev found))))"

fun transfer_trailing :: "tactic_data list \<Rightarrow> tactic_data list" where
  "transfer_trailing (cur # nxt # ts) =
     (let (code1, ws1) = separate_trailing_whitespace (td_tactic cur);
          (code2, comment) = separate_trailing_comment code1;
          (code3, ws2) = separate_trailing_whitespace code2
      in cur\<lparr>td_tactic := code3\<rparr>
         # transfer_trailing (nxt\<lparr>td_tactic := ws2 @ comment @ ws1 @ td_tactic nxt\<rparr> # ts))"
| "transfer_trailing ts = ts"

section \<open>Merging\<close>

text \<open>\<open>remove_lean_comments\<close>: the pattern \<open>/-.*?-/\<close>, then everything after \<open>--\<close> in each line.\<close>

fun after_close :: "pystr \<Rightarrow> pystr option" where
  "after_close [] = None"
| "after_close (c # cs) = (if starts_with (lit ''-/'') (c # cs) then Some (drop 2 (c # cs)) else after_close cs)"

lemma after_close_shorter: "after_close s = Some t \<Longrightarrow> length t < length s"
  by (induction s) (auto split: if_splits)

function remove_blocks :: "pystr \<Rightarrow> pystr" where
  "remove_blocks [] = []"
| "remove_blocks (c # cs) =
     (if starts_with (lit ''/-'') (c # cs)
      then (case after_close (drop 2 (c # cs)) of
              Some rest \<Rightarrow> remove_blocks rest
            | None \<Rightarrow> c # remove_blocks cs)
      else c # remove_blocks cs)"
  by pat_completeness auto

termination
  by (relation "measure length") (auto dest!: after_close_shorter)

text \<open>\<open>line.split("--")[0]\<close>\<close>

fun before_dashes :: "pystr \<Rightarrow> pystr" where
  "before_dashes [] = []"
| "before_dashes (c # cs) = (if starts_with (lit ''--'') (c # cs) then [] else c # before_dashes cs)"

fun keep_lines :: "pystr list \<Rightarrow> pystr list" where
  "keep_lines [] = []"
| "keep_lines (l # ls) =
     (if strip l = [] then l # keep_lines ls
      else (let l' = (if contains (lit ''--'') l then rstrip (before_dashes l) else l)
            in if strip l' \<noteq> [] then l' # keep_lines ls else keep_lines ls))"

definition remove_lean_comments :: "pystr \<Rightarrow> pystr" where
  "remove_lean_comments s = join [10] (keep_lines (splitlines (remove_blocks s)))"

definition is_balanced :: "pystr \<Rightarrow> bool" where
  "is_balanced s \<longleftrightarrow> count_list s 91 = count_list s 93 \<and> count_list s 40 = count_list s 41
     \<and> count_list s 10216 = count_list s 10217"

definition is_by :: "pystr \<Rightarrow> bool" where
  "is_by s \<longleftrightarrow> strip (remove_lean_comments s) = lit ''by''"

text \<open>The word that follows \<open>by\<close> and white space; the pattern's other words are single words too.\<close>

definition word_or_by_word :: "pystr list \<Rightarrow> pystr \<Rightarrow> bool" where
  "word_or_by_word words s \<longleftrightarrow>
     (let t = strip (remove_lean_comments s); rest = drop 2 t
      in t \<in> set words \<or> (starts_with (lit ''by'') t \<and> lstrip rest \<noteq> rest \<and> lstrip rest \<in> set words))"

definition is_calc :: "pystr \<Rightarrow> bool" where
  "is_calc s = word_or_by_word [lit ''calc''] s"

definition wrapper_tactics :: "pystr list" where
  "wrapper_tactics = [lit ''all_goals'', lit ''any_goals'', lit ''repeat'']"

definition is_wrapper :: "pystr \<Rightarrow> bool" where
  "is_wrapper s = word_or_by_word wrapper_tactics s"

definition ends_with_by :: "pystr \<Rightarrow> bool" where
  "ends_with_by s \<longleftrightarrow> (let t = rstrip (remove_lean_comments s)
     in ends_with (lit '':=by'') t \<or> ends_with (lit '':= by'') t)"

definition needs_more :: "pystr \<Rightarrow> bool" where
  "needs_more s \<longleftrightarrow> \<not> is_balanced s \<or> is_by s \<or> is_calc s \<or> is_wrapper s"

fun absorb :: "pystr \<Rightarrow> pystr list \<Rightarrow> tactic_data list \<Rightarrow> pystr \<times> pystr list \<times> tactic_data list" where
  "absorb msg after [] = (msg, after, [])"
| "absorb msg after (t # ts) =
     (if needs_more msg then absorb (msg @ td_tactic t) (td_after t) ts else (msg, after, t # ts))"

lemma absorb_shorter: "absorb msg after ts = (msg', after', rest) \<Longrightarrow> length rest \<le> length ts"
  by (induction msg after ts rule: absorb.induct) (auto split: if_splits)

function merge_groups :: "tactic_data list \<Rightarrow> tactic_data list" where
  "merge_groups [] = []"
| "merge_groups (t # ts) =
     (let (msg, after, rest) = absorb (td_tactic t) (td_after t) ts
      in \<lparr>td_before = td_before t, td_after = after, td_tactic = msg\<rparr> # merge_groups rest)"
  by pat_completeness auto

termination
  by (relation "measure length") (auto dest: absorb_shorter [OF sym])

text \<open>\<open>s.rfind(p)\<close>\<close>

definition rfind :: "pystr \<Rightarrow> pystr \<Rightarrow> int" where
  "rfind p s = (case find (\<lambda>i. starts_with p (drop i s)) (rev [0..<Suc (length s)]) of
     None \<Rightarrow> - 1 | Some i \<Rightarrow> int i)"

fun transfer_by :: "tactic_data list \<Rightarrow> tactic_data list" where
  "transfer_by (cur # nxt # ts) =
     (if ends_with_by (td_tactic cur)
      then (let cut = rfind (lit '':='') (td_tactic cur) + 2
            in cur\<lparr>td_tactic := py_upto cut (td_tactic cur)\<rparr>
               # transfer_by (nxt\<lparr>td_tactic := py_from cut (td_tactic cur) @ td_tactic nxt\<rparr> # ts))
      else cur # transfer_by (nxt # ts))"
| "transfer_by ts = ts"

fun first_goals :: "tactic_data list \<Rightarrow> pystr list" where
  "first_goals [] = []"
| "first_goals (t # ts) = (if td_before t \<noteq> [] then td_before t else first_goals ts)"

fun fill_before :: "tactic_data list \<Rightarrow> tactic_data list" where
  "fill_before (t # u # ts) = t\<lparr>td_before := first_goals (t # u # ts)\<rparr> # fill_before (u # ts)"
| "fill_before ts = ts"

fun fill_after :: "tactic_data list \<Rightarrow> tactic_data list" where
  "fill_after (t # u # ts) = t\<lparr>td_after := first_goals (u # ts)\<rparr> # fill_after (u # ts)"
| "fill_after ts = ts"

definition merge_intervals :: "tactic_data list \<Rightarrow> tactic_data list" where
  "merge_intervals ts = fill_after (fill_before (transfer_by (merge_groups ts)))"

section \<open>The whole extraction\<close>

definition source_lines :: "pystr \<Rightarrow> pystr list" where
  "source_lines code = (let ls = split_on 10 code in map (\<lambda>l. l @ [10]) (butlast ls) @ [last ls])"

definition real_nodes :: "info_item list \<Rightarrow> nodes" where
  "real_nodes tree = filter (\<lambda>p. \<not> is_synthetic (snd p)) (fst (extract_nodes_and_edges False True tree))"

definition extract_data :: "info_item list \<Rightarrow> pystr \<Rightarrow> tactic_data list option" where
  "extract_data tree code = map_option (\<lambda>ts. merge_intervals (transfer_trailing ts))
     (retrieve_tactics (adjust_intervals (get_intervals (real_nodes tree))) (source_lines code))"

section \<open>The steps keep the text\<close>

definition all_text :: "tactic_data list \<Rightarrow> pystr" where
  "all_text ts = concat (map td_tactic ts)"

lemma all_text_simps [simp]: "all_text [] = []" "all_text (t # ts) = td_tactic t @ all_text ts"
  by (simp_all add: all_text_def)

lemma whitespace_text: "separate_trailing_whitespace s = (code, ws) \<Longrightarrow> code @ ws = s"
  by (auto simp: separate_trailing_whitespace_def Let_def rstrip_by_drop)

lemma block_above_text:
  "block_above ls acc = Some (b, rest) \<Longrightarrow> concat (rev rest) @ b = concat (rev ls) @ acc"
  by (induction ls acc rule: block_above.induct) (auto split: if_splits)

lemma scan_comments_text:
  "scan_comments ls found = (rest, found') \<Longrightarrow>
    concat (rev rest) @ concat (rev found') = concat (rev ls) @ concat (rev found)"
proof (induction ls found rule: scan_comments.induct)
  case (2 l ls found)
  show ?case
  proof (cases "strip l \<noteq> [] \<and> contains (lit ''-/'') l")
    case True
    with 2 show ?thesis
      by (auto simp del: block_above.simps split: option.splits dest!: block_above_text)
  next
    case False
    with 2 show ?thesis by (auto split: if_splits)
  qed
qed simp

lemma comment_text: "separate_trailing_comment s = (code, comment) \<Longrightarrow> code @ comment = s"
  using scan_comments_text [of "rev (splitlines_keep s)" "[]"]
  by (auto simp: separate_trailing_comment_def Let_def split: prod.splits if_splits)

lemma transfer_trailing_text [simp]: "all_text (transfer_trailing ts) = all_text ts"
proof (induction ts rule: transfer_trailing.induct)
  case (1 cur nxt ts)
  obtain code1 ws1 where w1: "separate_trailing_whitespace (td_tactic cur) = (code1, ws1)" by force
  obtain code2 comment where c: "separate_trailing_comment code1 = (code2, comment)" by force
  obtain code3 ws2 where w2: "separate_trailing_whitespace code2 = (code3, ws2)" by force
  have "td_tactic cur = code3 @ ws2 @ comment @ ws1"
    using whitespace_text [OF w1] comment_text [OF c] whitespace_text [OF w2] by (metis append_assoc)
  with 1 [OF w1 [symmetric] refl c [symmetric] refl w2 [symmetric] refl] w1 c w2 show ?case
    by (simp add: Let_def)
qed simp_all

lemma absorb_text: "absorb msg after ts = (msg', after', rest) \<Longrightarrow> msg' @ all_text rest = msg @ all_text ts"
  by (induction msg after ts rule: absorb.induct) (auto split: if_splits)

lemma merge_groups_text [simp]: "all_text (merge_groups ts) = all_text ts"
proof (induction ts rule: merge_groups.induct)
  case (2 t ts)
  obtain msg after rest where a: "absorb (td_tactic t) (td_after t) ts = (msg, after, rest)"
    using prod_cases3 by blast
  from 2 [OF a [symmetric] refl] absorb_text [OF a] a show ?case by simp
qed simp

lemma py_cut: "py_upto a s @ py_from a s = s"
  by (simp add: py_upto_def py_from_def)

lemma transfer_by_text [simp]: "all_text (transfer_by ts) = all_text ts"
proof (induction ts rule: transfer_by.induct)
  case (1 cur nxt ts)
  then show ?case
    using py_cut [of "rfind (lit '':='') (td_tactic cur) + 2" "td_tactic cur"]
    by (simp add: Let_def)
qed simp_all

lemma fill_text [simp]: "all_text (fill_before ts) = all_text ts" "all_text (fill_after ts) = all_text ts"
  by (induction ts rule: fill_before.induct; simp)+

lemma merge_intervals_text: "all_text (merge_intervals ts) = all_text ts"
  by (simp add: merge_intervals_def)

section \<open>Snippets as pieces of the source\<close>

text \<open>A position is valid when its line exists and its column is in the line; its offset in the text.\<close>

definition pos_ok :: "pystr list \<Rightarrow> int \<times> int \<Rightarrow> bool" where
  "pos_ok ls p \<longleftrightarrow> 1 \<le> fst p \<and> fst p \<le> int (length ls) \<and> 0 \<le> snd p \<and> snd p \<le> int (length (ls ! nat (fst p - 1)))"

definition offset_of :: "pystr list \<Rightarrow> int \<times> int \<Rightarrow> nat" where
  "offset_of ls p = length (concat (take (nat (fst p - 1)) ls)) + nat (snd p)"

definition piece :: "pystr list \<Rightarrow> nat \<Rightarrow> nat \<Rightarrow> pystr" where
  "piece ls a b = take (b - a) (drop a (concat ls))"

lemma piece_join: "a \<le> b \<Longrightarrow> b \<le> c \<Longrightarrow> piece ls a b @ piece ls b c = piece ls a c"
proof -
  assume "a \<le> b" "b \<le> c"
  then have "piece ls a c = take (b - a) (drop a (concat ls)) @ take (c - b) (drop (b - a) (drop a (concat ls)))"
    using take_add [of "b - a" "c - b" "drop a (concat ls)"] by (simp add: piece_def)
  also have "drop (b - a) (drop a (concat ls)) = drop b (concat ls)" using \<open>a \<le> b\<close> by simp
  finally show ?thesis by (simp add: piece_def)
qed

lemma opt_all_Some: "opt_all (map Some xs) = Some xs"
  by (induction xs) simp_all

lemma opt_all_append:
  "opt_all (xs @ ys) = (case opt_all xs of None \<Rightarrow> None | Some as \<Rightarrow> map_option (\<lambda>bs. as @ bs) (opt_all ys))"
proof (induction xs rule: opt_all.induct)
  case 1
  show ?case by (cases "opt_all ys") simp_all
next
  case (3 x xs)
  then show ?case by (cases "opt_all xs"; cases "opt_all ys") simp_all
qed simp

lemma py_nth_line: "1 \<le> l \<Longrightarrow> l \<le> int (length ls) \<Longrightarrow> py_nth ls (l - 1) = Some (ls ! nat (l - 1))"
  by (simp add: py_nth_def)

lemma middle_lines:
  assumes "1 \<le> a" "a < b" "b \<le> int (length ls)"
  shows "map (py_nth ls) [a..b - 2] =
    map Some (take (nat (b - 1) - Suc (nat (a - 1))) (drop (Suc (nat (a - 1))) ls))"
proof (rule nth_equalityI)
  show len: "length (map (py_nth ls) [a..b - 2]) =
      length (map Some (take (nat (b - 1) - Suc (nat (a - 1))) (drop (Suc (nat (a - 1))) ls)))"
    using assms by simp
  fix k assume "k < length (map (py_nth ls) [a..b - 2])"
  then have k: "int k \<le> b - 2 - a" by simp
  then have "[a..b - 2] ! k = a + int k" by (intro nth_upto) simp
  then show "map (py_nth ls) [a..b - 2] ! k =
      map Some (take (nat (b - 1) - Suc (nat (a - 1))) (drop (Suc (nat (a - 1))) ls)) ! k"
  proof -
    have "nat a + k = Suc (nat (a - 1) + k)" using assms by simp
    with \<open>[a..b - 2] ! k = a + int k\<close> k assms show ?thesis by (simp add: py_nth_def nat_add_distrib)
  qed
qed

lemma snippet_piece:
  assumes p: "pos_ok ls p" and q: "pos_ok ls q" and le: "p \<le> q"
  shows "extract_snippet ls p q = Some (piece ls (offset_of ls p) (offset_of ls q))"
    "offset_of ls p \<le> offset_of ls q"
proof -
  obtain sl sc fl fc where pq: "p = (sl, sc)" "q = (fl, fc)" by force
  define i j where "i = nat (sl - 1)" and "j = nat (fl - 1)"
  define A l R where "A = concat (take i ls)" and "l = ls ! i" and "R = concat (drop (Suc i) ls)"
  have i: "i < length ls" "nat sc \<le> length l" and j: "j < length ls" "nat fc \<le> length (ls ! j)"
    using p q by (auto simp: pos_ok_def pq i_def j_def l_def)
  have cl: "py_clamp (int (length l)) sc = sc" "py_clamp (int (length (ls ! j))) fc = fc"
    using p q by (auto simp: pos_ok_def pq i_def j_def l_def py_clamp_def)
  have nth: "py_nth ls (sl - 1) = Some l" "py_nth ls (fl - 1) = Some (ls ! j)"
    using p q by (auto simp: pos_ok_def pq i_def j_def l_def py_nth_line)
  have src: "concat ls = A @ l @ R"
    using id_take_nth_drop [OF i(1)] unfolding A_def l_def R_def by (metis concat.simps(2) concat_append)
  have offp: "offset_of ls p = length A + nat sc" by (simp add: offset_of_def pq A_def i_def)
  have "extract_snippet ls p q = Some (piece ls (offset_of ls p) (offset_of ls q)) \<and>
      offset_of ls p \<le> offset_of ls q"
  proof (cases "sl = fl")
    case True
    then have c: "sc \<le> fc" "j = i" using le by (auto simp: pq i_def j_def)
    have offq: "offset_of ls q = length A + nat fc" using True by (simp add: offset_of_def pq A_def i_def)
    have "piece ls (offset_of ls p) (offset_of ls q) = drop (nat sc) (take (nat fc) l)"
      using j(2) c by (simp add: piece_def offp offq src drop_take l_def)
    then show ?thesis
      using True c cl nth offp offq by (simp add: extract_snippet_def pq py_slice_def py_upto_def l_def)
  next
    case False
    then have lt: "sl < fl" "i < j" using le p by (auto simp: pq i_def j_def pos_ok_def)
    define M where "M = take (j - Suc i) (drop (Suc i) ls)"
    have tj: "take j ls = take i ls @ l # M"
      using take_add [of "Suc i" "j - Suc i" ls] lt(2) i(1) by (simp add: M_def l_def take_Suc_conv_app_nth)
    then have Aj: "concat (take j ls) = A @ l @ concat M" by (simp add: A_def)
    have offq: "offset_of ls q = length A + length l + length (concat M) + nat fc"
      using arg_cong [OF Aj, of length] by (simp add: offset_of_def pq j_def)
    have src2: "concat ls = A @ l @ concat M @ ls ! j @ concat (drop (Suc j) ls)"
      using id_take_nth_drop [OF j(1)] Aj by (metis append_assoc concat.simps(2) concat_append)
    have "piece ls (offset_of ls p) (offset_of ls q) = drop (nat sc) l @ concat M @ take (nat fc) (ls ! j)"
      using i(2) j(2) by (simp add: piece_def offp offq src2)
    moreover have "map (py_nth ls) [sl..fl - 2] = map Some M"
      using middle_lines [of sl fl ls] p q lt(1) by (simp add: pos_ok_def pq M_def i_def j_def)
    ultimately show ?thesis
      using False nth cl i(2) offp offq
      by (simp add: extract_snippet_def pq opt_all_append opt_all_Some py_from_def py_upto_def)
  qed
  then show "extract_snippet ls p q = Some (piece ls (offset_of ls p) (offset_of ls q))"
    "offset_of ls p \<le> offset_of ls q" by blast+
qed

section \<open>Adjacent intervals\<close>

lemma retrieve_Cons:
  "retrieve_tactics (iv # ivs) source =
     (case tactic_of source iv of None \<Rightarrow> None
      | Some t \<Rightarrow> map_option (\<lambda>ts. t # ts) (retrieve_tactics ivs source))"
  by (simp add: retrieve_tactics_def split: option.split)

lemma tactic_of_piece:
  assumes "pos_ok ls (iv_start iv)" "pos_ok ls (iv_finish iv)" "iv_start iv \<le> iv_finish iv"
  shows "tactic_of ls iv = Some \<lparr>td_before = iv_before iv, td_after = iv_after iv,
    td_tactic = piece ls (offset_of ls (iv_start iv)) (offset_of ls (iv_finish iv))\<rparr>"
  using snippet_piece [OF assms] by (simp add: tactic_of_def)

lemma retrieve_step:
  assumes "pos_ok ls (iv_start iv)" "pos_ok ls (iv_finish iv)" "iv_start iv \<le> iv_finish iv"
    and "retrieve_tactics ivs ls = Some ts"
  shows "\<exists>ts'. retrieve_tactics (if is_empty_interval iv then ivs else iv # ivs) ls = Some ts' \<and>
    all_text ts' = piece ls (offset_of ls (iv_start iv)) (offset_of ls (iv_finish iv)) @ all_text ts"
proof (cases "is_empty_interval iv")
  case True
  then have "iv_start iv = iv_finish iv" by (simp add: is_empty_interval_def iv_start_def iv_finish_def)
  then have "piece ls (offset_of ls (iv_start iv)) (offset_of ls (iv_finish iv)) = []"
    by (simp add: piece_def)
  with True assms(4) show ?thesis by simp
next
  case False
  with tactic_of_piece [OF assms(1-3)] assms(4) show ?thesis by (simp add: retrieve_Cons)
qed

lemma link_hd: "ivs \<noteq> [] \<Longrightarrow> iv_start (hd (link_intervals m ivs)) = iv_start (hd ivs)"
  by (induction m ivs rule: link_intervals.induct) (simp_all add: iv_start_def)

lemma link_text:
  "ivs \<noteq> [] \<Longrightarrow> sorted (map iv_start ivs) \<Longrightarrow> \<forall>iv \<in> set ivs. pos_ok ls (iv_start iv) \<and> iv_start iv \<le> m \<Longrightarrow>
   pos_ok ls m \<Longrightarrow>
   \<exists>ts. retrieve_tactics (filter (\<lambda>iv. \<not> is_empty_interval iv) (link_intervals m ivs)) ls = Some ts \<and>
     all_text ts = piece ls (offset_of ls (iv_start (hd ivs))) (offset_of ls m)"
proof (induction m ivs rule: link_intervals.induct)
  case (2 m iv)
  let ?iv = "iv\<lparr>iv_finish_line := fst m, iv_finish_col := snd m\<rparr>"
  have iv: "iv_start ?iv = iv_start iv" "iv_finish ?iv = m" by (simp_all add: iv_start_def iv_finish_def)
  have "\<exists>ts. retrieve_tactics (if is_empty_interval ?iv then [] else [?iv]) ls = Some ts \<and>
      all_text ts = piece ls (offset_of ls (iv_start ?iv)) (offset_of ls (iv_finish ?iv)) @ all_text []"
    by (rule retrieve_step) (use 2 iv in \<open>simp_all add: retrieve_tactics_def\<close>)
  then show ?case unfolding iv by (simp split: if_splits)
next
  case (3 m iv nxt ivs)
  let ?iv = "iv\<lparr>iv_finish_line := iv_start_line nxt, iv_finish_col := iv_start_col nxt,
    iv_after := iv_before nxt\<rparr>"
  have iv: "iv_start ?iv = iv_start iv" "iv_finish ?iv = iv_start nxt"
    by (simp_all add: iv_start_def iv_finish_def)
  obtain ts where ts: "retrieve_tactics (filter (\<lambda>iv. \<not> is_empty_interval iv) (link_intervals m (nxt # ivs))) ls = Some ts"
    "all_text ts = piece ls (offset_of ls (iv_start nxt)) (offset_of ls m)"
    using 3 by auto
  have le: "iv_start iv \<le> iv_start nxt" "iv_start nxt \<le> m" using 3(3,4) by simp_all
  have "\<exists>ts'. retrieve_tactics (if is_empty_interval ?iv
        then filter (\<lambda>iv. \<not> is_empty_interval iv) (link_intervals m (nxt # ivs))
        else ?iv # filter (\<lambda>iv. \<not> is_empty_interval iv) (link_intervals m (nxt # ivs))) ls = Some ts' \<and>
      all_text ts' = piece ls (offset_of ls (iv_start ?iv)) (offset_of ls (iv_finish ?iv)) @ all_text ts"
    by (rule retrieve_step) (use 3(4) le ts(1) iv in simp_all)
  moreover have "piece ls (offset_of ls (iv_start iv)) (offset_of ls (iv_start nxt)) @
      piece ls (offset_of ls (iv_start nxt)) (offset_of ls m) =
      piece ls (offset_of ls (iv_start iv)) (offset_of ls m)"
    using 3(4,5) le by (intro piece_join snippet_piece(2)) simp_all
  ultimately show ?case unfolding iv ts(2) by (simp split: if_splits)
qed simp

lemma furthest_finish_step:
  "foldl (\<lambda>m iv. if m < iv_finish iv then iv_finish iv else m) a ivs = Max (insert a (iv_finish ` set ivs))"
proof (induction ivs arbitrary: a)
  case (Cons iv ivs)
  have "(if a < iv_finish iv then iv_finish iv else a) = max a (iv_finish iv)" by (auto simp: max_def)
  then have "foldl (\<lambda>m iv. if m < iv_finish iv then iv_finish iv else m) a (iv # ivs) =
      Max (insert (max a (iv_finish iv)) (iv_finish ` set ivs))" using Cons by simp
  also have "\<dots> = Max (insert a (iv_finish ` set (iv # ivs)))"
    by (cases "ivs = []") (simp_all add: Max_insert2 max.assoc)
  finally show ?case .
qed simp

lemma furthest_finish_Max:
  assumes "ivs \<noteq> []" "\<forall>iv \<in> set ivs. (- 1, - 1) < iv_finish iv"
  shows "furthest_finish ivs = Max (iv_finish ` set ivs)"
proof -
  have "Max (iv_finish ` set ivs) \<in> iv_finish ` set ivs" using assms(1) by (intro Max_in) simp_all
  then have "(- 1, - 1) < Max (iv_finish ` set ivs)" using assms(2) by auto
  then show ?thesis using assms(1) by (simp add: furthest_finish_def furthest_finish_step)
qed

lemma source_lines_concat: "concat (source_lines code) = code"
proof -
  have "concat (map (\<lambda>l. l @ [10]) (butlast ls) @ [last ls]) = join [10] ls" if "ls \<noteq> []" for ls :: "pystr list"
    using that by (induction "[10 :: int]" ls rule: join.induct) simp_all
  from this [of "split_on 10 code"] show ?thesis by (simp add: source_lines_def Let_def)
qed

lemma sorted_hd_Min: "xs \<noteq> [] \<Longrightarrow> f (hd (sort_key f xs)) = Min (f ` set xs)"
proof -
  assume "xs \<noteq> []"
  moreover from this have "sort_key f xs \<noteq> []" by (metis set_empty set_sort)
  moreover have "sorted (map f (sort_key f xs))" by (rule sorted_sort_key)
  ultimately have "hd (sort_key f xs) \<in> set xs" "\<forall>x \<in> set xs. f (hd (sort_key f xs)) \<le> f x"
    by (metis hd_in_set set_sort, cases "sort_key f xs") (auto simp flip: set_sort [of f xs])
  then show ?thesis by (intro Min_eqI [symmetric]) auto
qed

lemma interval_positions:
  "iv_start (interval_of p) = node_start (snd p)" "iv_finish (interval_of p) = node_finish (snd p)"
  by (simp_all add: iv_start_def iv_finish_def interval_of_def)

definition first_start :: "info_item list \<Rightarrow> int \<times> int" where
  "first_start tree = Min (node_start ` snd ` set (real_nodes tree))"

definition last_finish :: "info_item list \<Rightarrow> int \<times> int" where
  "last_finish tree = Max (node_finish ` snd ` set (real_nodes tree))"

definition ranges_ok :: "info_item list \<Rightarrow> pystr list \<Rightarrow> bool" where
  "ranges_ok tree ls \<longleftrightarrow> list_all (\<lambda>p. pos_ok ls (node_start (snd p)) \<and> pos_ok ls (node_finish (snd p)) \<and>
     node_start (snd p) \<le> node_finish (snd p)) (real_nodes tree)"

section \<open>Properties\<close>

text \<open>
  C23. Extraction partitions the source: whatever the shape of the tree, when the ranges of its nodes
  lie in the source, \<open>extract_data\<close> returns, and its tactics joined together are exactly the source
  from the first node's start to the furthest finish; moving white space, comments and \<open>by\<close> between
  tactics and merging them loses and repeats nothing.
\<close>

theorem extraction_partitions_source:
  assumes "real_nodes tree \<noteq> []" "ranges_ok tree (source_lines code)"
  shows "\<exists>ts. extract_data tree code = Some ts \<and>
    concat (map td_tactic ts) =
      (let a = offset_of (source_lines code) (first_start tree);
           b = offset_of (source_lines code) (last_finish tree)
       in take (b - a) (drop a code))"
proof -
  let ?ls = "source_lines code" and ?ivs = "get_intervals (real_nodes tree)"
  define ivs where "ivs = sort_key iv_start ?ivs"
  have set: "set ivs = interval_of ` set (real_nodes tree)" by (simp add: ivs_def get_intervals_def)
  then have ne: "ivs \<noteq> []" using assms(1) by auto
  have ok: "pos_ok ?ls (iv_start iv)" "pos_ok ?ls (iv_finish iv)" "iv_start iv \<le> iv_finish iv"
    if "iv \<in> set ivs" for iv
    using that assms(2) by (auto simp: set ranges_ok_def list_all_iff interval_positions)
  have "(- 1, - 1) < iv_finish iv" if "iv \<in> set ivs" for iv
    using ok(2) [OF that] by (cases "iv_finish iv") (simp add: pos_ok_def)
  then have m: "furthest_finish ivs = Max (iv_finish ` set ivs)"
    using furthest_finish_Max [OF ne] by blast
  have "Max (iv_finish ` set ivs) \<in> iv_finish ` set ivs" using ne by (intro Max_in) simp_all
  then have mok: "pos_ok ?ls (furthest_finish ivs)" using ok(2) by (auto simp: m)
  have "iv_start iv \<le> furthest_finish ivs" if "iv \<in> set ivs" for iv
    using ok(3) [OF that] that by (simp add: m) (meson Max_ge finite_imageI finite_set imageI order_trans)
  then obtain ts where ts: "retrieve_tactics (adjust_intervals ?ivs) ?ls = Some ts"
    "all_text ts = piece ?ls (offset_of ?ls (iv_start (hd ivs))) (offset_of ?ls (furthest_finish ivs))"
    using link_text [OF ne _ _ mok] ok(1) by (auto simp: adjust_intervals_def ivs_def Let_def)
  have "iv_start (hd ivs) = Min (iv_start ` set ?ivs)"
    unfolding ivs_def using ne by (intro sorted_hd_Min) (auto simp: ivs_def)
  also have "iv_start ` set ?ivs = node_start ` snd ` set (real_nodes tree)"
    by (force simp: get_intervals_def interval_positions)
  finally have first: "iv_start (hd ivs) = first_start tree" by (simp add: first_start_def)
  have "iv_finish ` set ivs = node_finish ` snd ` set (real_nodes tree)"
    by (force simp: set interval_positions)
  then have last: "furthest_finish ivs = last_finish tree" by (simp add: m last_finish_def)
  have "extract_data tree code = Some (merge_intervals (transfer_trailing ts))"
    by (simp add: extract_data_def ts(1))
  moreover have "all_text (merge_intervals (transfer_trailing ts)) =
      piece ?ls (offset_of ?ls (first_start tree)) (offset_of ?ls (last_finish tree))"
    by (simp add: merge_intervals_text ts(2) first last)
  ultimately show ?thesis by (simp add: all_text_def piece_def source_lines_concat Let_def)
qed

definition demo_range_node :: "pystr \<Rightarrow> int \<times> int \<Rightarrow> int \<times> int \<Rightarrow> info_node" where
  "demo_range_node pp a b = \<lparr>in_stx = Some \<lparr>sx_pp = Some pp, sx_range =
       Some \<lparr>rg_start = Some (Some (fst a), Some (snd a)), rg_finish = Some (Some (fst b), Some (snd b)),
         rg_synthetic = Some False\<rparr>\<rparr>, in_before = Some [pp], in_after = None\<rparr>"

definition demo_code :: pystr where
  "demo_code = lit ''have h := by'' @ 10 # lit ''  simp -- x'' @ 10 # lit ''  ring'' @ [10]"

definition demo_proof :: "info_item list" where
  "demo_proof = [Item (Some (demo_range_node (lit ''by'') (1, 10) (3, 6)))
     [Item (Some (demo_range_node (lit ''simp'') (2, 2) (2, 6))) [],
      Item (Some (demo_range_node (lit ''ring'') (3, 2) (3, 6))) []]]"

theorem extraction_partitions_source_witness:
  "\<exists>ts. extract_data demo_proof demo_code = Some ts \<and>
     concat (map td_tactic ts) = lit ''by'' @ 10 # lit ''  simp -- x'' @ 10 # lit ''  ring''"
proof -
  have "real_nodes demo_proof \<noteq> []" "ranges_ok demo_proof (source_lines demo_code)" by code_simp+
  moreover have "(let a = offset_of (source_lines demo_code) (first_start demo_proof);
      b = offset_of (source_lines demo_code) (last_finish demo_proof)
    in take (b - a) (drop a demo_code)) = lit ''by'' @ 10 # lit ''  simp -- x'' @ 10 # lit ''  ring''"
    by code_simp
  ultimately show ?thesis using extraction_partitions_source [of demo_proof demo_code] by simp
qed

text \<open>Code that follows a block comment in the last line is taken for a part of the comment.\<close>

lemma code_after_block_is_comment:
  "separate_trailing_comment (lit ''simp'' @ 10 # lit ''/- x -/ ring'') =
     (lit ''simp'' @ [10], lit ''/- x -/ ring'')"
  by code_simp

end
