(* ===== verification/ServerConfig.thy ===== *)
theory ServerConfig
  imports PyText
begin

text \<open>
  Configuration: \<open>server/exec_server_config.py\<close>, \<open>server/settings.py\<close>, \<open>server/_exec_server_cli.py\<close> and
  the client's \<open>exec_server.py\<close> and \<open>_exec_server_config_utils.py\<close>.  The machine (processor count, the
  texts of \<open>memory.max\<close> and \<open>/proc/meminfo\<close>, \<open>sysconf\<close>) comes as arguments; a value that \<open>pydantic\<close> or
  the client rejects is the first error.  Paths are their texts.
\<close>

section \<open>Defaults from the machine\<close>

definition default_max_state_store_bytes :: int where
  "default_max_state_store_bytes = 16 * 2 ^ 30"

definition worker_memory_bytes :: int where
  "worker_memory_bytes = 6 * 2 ^ 30"

definition memory_headroom_bytes :: int where
  "memory_headroom_bytes = 16 * 2 ^ 30"

text \<open>\<open>_read_cgroup_int\<close>; \<open>None\<close> is a file that cannot be read.\<close>

definition read_cgroup_int :: "pystr option \<Rightarrow> int option" where
  "read_cgroup_int file_text =
     (case file_text of
        None \<Rightarrow> None
      | Some t \<Rightarrow> (let raw = strip t in if raw = [] \<or> raw = lit ''max'' then None else py_int raw))"

text \<open>\<open>line.partition(":")\<close> without the separator.\<close>

definition partition_colon :: "pystr \<Rightarrow> pystr \<times> pystr" where
  "partition_colon l = (takeWhile (\<lambda>c. c \<noteq> 58) l, drop 1 (dropWhile (\<lambda>c. c \<noteq> 58) l))"

fun mem_total_lines :: "pystr list \<Rightarrow> int option" where
  "mem_total_lines [] = None"
| "mem_total_lines (l # ls) =
     (let (key, rest) = partition_colon l
      in if key \<noteq> lit ''MemTotal'' then mem_total_lines ls
         else (case split_ws (strip rest) of
                 [] \<Rightarrow> None
               | v # parts \<Rightarrow>
                   (case py_int v of
                      None \<Rightarrow> None
                    | Some n \<Rightarrow>
                        (let unit = (case parts of u # _ \<Rightarrow> lower u | [] \<Rightarrow> lit ''kb'')
                         in Some (if unit = lit ''kb'' then n * 1024 else n)))))"

definition proc_mem_total :: "pystr option \<Rightarrow> int option" where
  "proc_mem_total file_text = Option.bind file_text (\<lambda>t. mem_total_lines (splitlines t))"

definition memory_capacity :: "pystr option \<Rightarrow> pystr option \<Rightarrow> int option \<Rightarrow> int option" where
  "memory_capacity cgroup meminfo physical =
     (case read_cgroup_int cgroup of
        Some n \<Rightarrow> Some n
      | None \<Rightarrow> (case proc_mem_total meminfo of Some n \<Rightarrow> Some n | None \<Rightarrow> physical))"

definition default_exec_worker_count :: "int option \<Rightarrow> int option \<Rightarrow> int" where
  "default_exec_worker_count cpus memory =
     (let cpu = (case cpus of None \<Rightarrow> 1 | Some n \<Rightarrow> if n = 0 then 1 else n);
          cpu_bound = max (cpu - 1) 1
      in case memory of
           None \<Rightarrow> cpu_bound
         | Some m \<Rightarrow>
             (let budget = max (m div 2 - memory_headroom_bytes) 0;
                  memory_bound = max (budget div worker_memory_bytes) 1
              in max (min cpu_bound memory_bound) 1))"

definition default_max_in_flight :: "int \<Rightarrow> int" where
  "default_max_in_flight workers = max (min workers 8) 1"

definition default_max_queued :: "int \<Rightarrow> int" where
  "default_max_queued in_flight = max (min (in_flight * 4) 32) 4"

section \<open>The server's configuration\<close>

record exec_config =
  xc_host :: pystr
  xc_port :: int
  xc_workers :: int
  xc_lean_processes :: int
  xc_items :: int
  xc_tactics :: int
  xc_attempts :: int
  xc_creates :: int
  xc_acquire :: int
  xc_step :: int
  xc_in_flight :: int
  xc_queued :: int
  xc_store_bytes :: int
  xc_unbounded :: bool
  xc_rec_items :: int
  xc_rec_batches :: int
  xc_dir :: "pystr option"
  xc_single :: bool

datatype config_error = FieldError pystr | CapError pystr | UnboundedCaps "pystr list" | ExtraField pystr

definition check_cap :: "pystr \<Rightarrow> int \<Rightarrow> bool \<Rightarrow> config_error + unit" where
  "check_cap name x allow_zero =
     (let minimum = (if allow_zero then 0 else 1)
      in if x = - 1 \<or> minimum \<le> x then Inr () else Inl (CapError name))"

definition validate_bounded_exec_caps :: "exec_config \<Rightarrow> config_error + unit" where
  "validate_bounded_exec_caps c =
     ebind (check_cap (lit ''max_in_flight_exec_requests'') (xc_in_flight c) False) (\<lambda>_.
     ebind (check_cap (lit ''max_queued_exec_requests'') (xc_queued c) True) (\<lambda>_.
     ebind (check_cap (lit ''max_state_store_bytes'') (xc_store_bytes c) True) (\<lambda>_.
       if xc_unbounded c then Inr ()
       else (let unbounded = [name. (name, x) \<leftarrow>
                 [(lit ''max_in_flight_exec_requests'', xc_in_flight c),
                  (lit ''max_queued_exec_requests'', xc_queued c),
                  (lit ''max_state_store_bytes'', xc_store_bytes c)], x = - 1]
             in if unbounded \<noteq> [] then Inl (UnboundedCaps unbounded) else Inr ()))))"

text \<open>Parsed command lines and keyword arguments: a dictionary of values.\<close>

datatype cfg_value = VInt int | VText pystr | VBool bool

type_synonym cfg_values = "(pystr, cfg_value) pydict"

definition get_int :: "cfg_values \<Rightarrow> string \<Rightarrow> int \<Rightarrow> int" where
  "get_int v k d = (case dget v (lit k) of Some (VInt i) \<Rightarrow> i | _ \<Rightarrow> d)"

definition get_text :: "cfg_values \<Rightarrow> string \<Rightarrow> pystr \<Rightarrow> pystr" where
  "get_text v k d = (case dget v (lit k) of Some (VText t) \<Rightarrow> t | _ \<Rightarrow> d)"

definition get_bool :: "cfg_values \<Rightarrow> string \<Rightarrow> bool \<Rightarrow> bool" where
  "get_bool v k d = (case dget v (lit k) of Some (VBool b) \<Rightarrow> b | _ \<Rightarrow> d)"

definition config_fields :: "pystr list" where
  "config_fields = map lit [''host'', ''port'', ''workers'', ''max_lean_processes_per_env_profile'',
     ''max_items_per_step_batch'', ''max_tactics_per_step_item'', ''max_attempts_per_step_batch'',
     ''max_create_items_per_request'', ''max_acquire_timeout_ms'', ''max_step_timeout_ms'',
     ''max_in_flight_exec_requests'', ''max_queued_exec_requests'', ''max_state_store_bytes'',
     ''allow_unbounded_exec'', ''recommended_items_per_step_batch'',
     ''recommended_in_flight_step_batches'', ''state_store_dir'', ''single_process'']"

text \<open>The field defaults; \<open>default_workers\<close> is the value of \<open>default_exec_worker_count()\<close>.\<close>

definition fill_config :: "int \<Rightarrow> cfg_values \<Rightarrow> exec_config" where
  "fill_config default_workers v =
     (let workers = get_int v ''workers'' default_workers;
          in_flight = get_int v ''max_in_flight_exec_requests'' (default_max_in_flight workers)
      in \<lparr>xc_host = get_text v ''host'' (lit ''0.0.0.0''), xc_port = get_int v ''port'' 8000,
          xc_workers = workers,
          xc_lean_processes = get_int v ''max_lean_processes_per_env_profile'' workers,
          xc_items = get_int v ''max_items_per_step_batch'' 1024,
          xc_tactics = get_int v ''max_tactics_per_step_item'' 64,
          xc_attempts = get_int v ''max_attempts_per_step_batch'' 8192,
          xc_creates = get_int v ''max_create_items_per_request'' 1024,
          xc_acquire = get_int v ''max_acquire_timeout_ms'' 600000,
          xc_step = get_int v ''max_step_timeout_ms'' 600000,
          xc_in_flight = in_flight,
          xc_queued = get_int v ''max_queued_exec_requests'' (default_max_queued in_flight),
          xc_store_bytes = get_int v ''max_state_store_bytes'' default_max_state_store_bytes,
          xc_unbounded = get_bool v ''allow_unbounded_exec'' False,
          xc_rec_items = get_int v ''recommended_items_per_step_batch'' workers,
          xc_rec_batches = get_int v ''recommended_in_flight_step_batches'' 8,
          xc_dir = (case dget v (lit ''state_store_dir'') of Some (VText t) \<Rightarrow> Some t | _ \<Rightarrow> None),
          xc_single = get_bool v ''single_process'' True\<rparr>)"

definition positive_fields :: "exec_config \<Rightarrow> (pystr \<times> int) list" where
  "positive_fields c =
     [(lit ''workers'', xc_workers c), (lit ''max_lean_processes_per_env_profile'', xc_lean_processes c),
      (lit ''max_items_per_step_batch'', xc_items c), (lit ''max_tactics_per_step_item'', xc_tactics c),
      (lit ''max_attempts_per_step_batch'', xc_attempts c),
      (lit ''max_create_items_per_request'', xc_creates c), (lit ''max_acquire_timeout_ms'', xc_acquire c),
      (lit ''max_step_timeout_ms'', xc_step c), (lit ''recommended_items_per_step_batch'', xc_rec_items c)]"

fun check_positive :: "(pystr \<times> int) list \<Rightarrow> config_error + unit" where
  "check_positive [] = Inr ()"
| "check_positive ((name, x) # fs) = (if x < 1 then Inl (FieldError name) else check_positive fs)"

definition check_server_config :: "exec_config \<Rightarrow> config_error + unit" where
  "check_server_config c =
     (if xc_port c < 1 \<or> 65535 < xc_port c then Inl (FieldError (lit ''port''))
      else ebind (check_positive (positive_fields c)) (\<lambda>_. validate_bounded_exec_caps c))"

text \<open>\<open>ExecServerConfig.model_validate(values)\<close>\<close>

definition server_config :: "int \<Rightarrow> cfg_values \<Rightarrow> config_error + exec_config" where
  "server_config default_workers v =
     (case find (\<lambda>p. fst p \<notin> set config_fields) v of
        Some p \<Rightarrow> Inl (ExtraField (fst p))
      | None \<Rightarrow>
          (let c = fill_config default_workers v in ebind (check_server_config c) (\<lambda>_. Inr c)))"

section \<open>Settings\<close>

datatype server_mode = ModeVerify | ModeExec

text \<open>The settings that the \<open>/exec\<close> server reads; \<open>Settings()\<close> fills them from the environment.\<close>

record settings =
  sg_mode :: server_mode
  sg_config :: exec_config

definition to_settings :: "exec_config \<Rightarrow> settings \<Rightarrow> settings" where
  "to_settings c base = base\<lparr>sg_config := c\<lparr>xc_dir :=
     (case xc_dir c of None \<Rightarrow> xc_dir (sg_config base) | Some d \<Rightarrow> Some d)\<rparr>\<rparr>"

text \<open>\<open>_parse_max_mem\<close> and \<open>_parse_max_repls\<close>; the defaults of the fields do not pass through them.\<close>

definition parse_max_mem :: "cfg_value \<Rightarrow> int option" where
  "parse_max_mem v =
     (case v of
        VInt n \<Rightarrow> Some (n * 1024)
      | VBool b \<Rightarrow> Some ((if b then 1 else 0) * 1024)
      | VText t \<Rightarrow>
          (let digits = butlast t; unit = last t
           in if 2 \<le> length t \<and> list_all is_digit digits \<and> unit \<in> {77, 109, 71, 103}
              then Some (if unit \<in> {77, 109} then digits_val digits else digits_val digits * 1024)
              else None))"

definition default_max_repl_mem :: int where
  "default_max_repl_mem = 12"

definition parse_max_repls :: "int option \<Rightarrow> cfg_value \<Rightarrow> cfg_value" where
  "parse_max_repls cpus v =
     (case v of
        VText t \<Rightarrow>
          if strip t = [] then VInt (case cpus of None \<Rightarrow> 1 | Some n \<Rightarrow> if n = 0 then 1 else n) else v
      | _ \<Rightarrow> v)"

section \<open>The command line\<close>

text \<open>
  \<open>argparse\<close> for the options of \<open>_build_parser\<close>, spelled in full and with their values as separate
  words.  A word that starts with a dash is a value only when it is a lone dash or looks like a
  negative number, since no option of the parser does.  (Dashed words with blanks or an equals sign,
  which \<open>argparse\<close> sometimes takes for values, are usage errors here.)
\<close>

definition negative_number :: "pystr \<Rightarrow> bool" where
  "negative_number s \<longleftrightarrow> starts_with [45] s \<and>
     (let r = drop 1 s; i = takeWhile is_digit r; f = dropWhile is_digit r
      in (i \<noteq> [] \<and> f = []) \<or> (starts_with [46] f \<and> 2 \<le> length f \<and> list_all is_digit (drop 1 f)))"

definition value_word :: "pystr \<Rightarrow> bool" where
  "value_word s \<longleftrightarrow> \<not> starts_with [45] s \<or> s = [45] \<or> negative_number s"

datatype option_kind = TakesInt | TakesText | TakesMode | Sets bool

definition cli_options :: "(pystr, pystr \<times> option_kind) pydict" where
  "cli_options =
     [(lit ''--mode'', lit ''mode'', TakesMode),
      (lit ''--host'', lit ''host'', TakesText),
      (lit ''--port'', lit ''port'', TakesInt),
      (lit ''--workers'', lit ''workers'', TakesInt),
      (lit ''--max-lean-processes-per-env-profile'', lit ''max_lean_processes_per_env_profile'', TakesInt),
      (lit ''--max-items-per-step-batch'', lit ''max_items_per_step_batch'', TakesInt),
      (lit ''--max-tactics-per-step-item'', lit ''max_tactics_per_step_item'', TakesInt),
      (lit ''--max-attempts-per-step-batch'', lit ''max_attempts_per_step_batch'', TakesInt),
      (lit ''--max-create-items-per-request'', lit ''max_create_items_per_request'', TakesInt),
      (lit ''--max-acquire-timeout-ms'', lit ''max_acquire_timeout_ms'', TakesInt),
      (lit ''--max-step-timeout-ms'', lit ''max_step_timeout_ms'', TakesInt),
      (lit ''--max-in-flight-exec-requests'', lit ''max_in_flight_exec_requests'', TakesInt),
      (lit ''--max-queued-exec-requests'', lit ''max_queued_exec_requests'', TakesInt),
      (lit ''--max-state-store-bytes'', lit ''max_state_store_bytes'', TakesInt),
      (lit ''--allow-unbounded-exec'', lit ''allow_unbounded_exec'', Sets True),
      (lit ''--recommended-items-per-step-batch'', lit ''recommended_items_per_step_batch'', TakesInt),
      (lit ''--recommended-in-flight-step-batches'', lit ''recommended_in_flight_step_batches'', TakesInt),
      (lit ''--state-store-dir'', lit ''state_store_dir'', TakesText),
      (lit ''--single-process'', lit ''single_process'', Sets True),
      (lit ''--no-single-process'', lit ''single_process'', Sets False)]"

fun convert_word :: "option_kind \<Rightarrow> pystr \<Rightarrow> cfg_value option" where
  "convert_word TakesInt w = map_option VInt (py_int w)"
| "convert_word TakesText w = Some (VText w)"
| "convert_word TakesMode w = (if w = lit ''verify'' \<or> w = lit ''exec'' then Some (VText w) else None)"
| "convert_word (Sets b) w = None"

text \<open>\<open>None\<close> is the usage error, which exits.\<close>

fun parse_cli :: "pystr list \<Rightarrow> cfg_values \<Rightarrow> cfg_values option" where
  "parse_cli [] v = Some v"
| "parse_cli [w] v =
     (case dget cli_options w of
        Some (dest, Sets b) \<Rightarrow> Some (dset dest (VBool b) v)
      | _ \<Rightarrow> None)"
| "parse_cli (w # a # args) v =
     (case dget cli_options w of
        None \<Rightarrow> None
      | Some (dest, Sets b) \<Rightarrow> parse_cli (a # args) (dset dest (VBool b) v)
      | Some (dest, kind) \<Rightarrow>
          if value_word a
          then (case convert_word kind a of
                  None \<Rightarrow> None
                | Some x \<Rightarrow> parse_cli args (dset dest x v))
          else None)"

definition parse_exec_server_config :: "int \<Rightarrow> pystr list \<Rightarrow> (config_error + exec_config) option" where
  "parse_exec_server_config default_workers args =
     map_option (\<lambda>v. server_config default_workers (dpop (lit ''mode'') v)) (parse_cli args [])"

text \<open>\<open>settings_from_cli_args\<close>: the values replace those of the base settings, then all are checked.\<close>

definition apply_values :: "cfg_values \<Rightarrow> exec_config \<Rightarrow> exec_config" where
  "apply_values v b =
     (let b1 = (case dget v (lit ''workers'') of
                  Some (VInt w) \<Rightarrow>
                    (let in_flight = (if dget v (lit ''max_in_flight_exec_requests'') = None
                                      then default_max_in_flight w else xc_in_flight b)
                     in b\<lparr>xc_workers := w,
                          xc_lean_processes := (if dget v (lit ''max_lean_processes_per_env_profile'') = None
                            then w else xc_lean_processes b),
                          xc_rec_items := (if dget v (lit ''recommended_items_per_step_batch'') = None
                            then w else xc_rec_items b),
                          xc_in_flight := in_flight,
                          xc_queued := (if dget v (lit ''max_queued_exec_requests'') = None
                            then default_max_queued in_flight else xc_queued b)\<rparr>)
                | _ \<Rightarrow> b)
      in b1\<lparr>xc_host := get_text v ''host'' (xc_host b1), xc_port := get_int v ''port'' (xc_port b1),
            xc_lean_processes := get_int v ''max_lean_processes_per_env_profile'' (xc_lean_processes b1),
            xc_items := get_int v ''max_items_per_step_batch'' (xc_items b1),
            xc_tactics := get_int v ''max_tactics_per_step_item'' (xc_tactics b1),
            xc_attempts := get_int v ''max_attempts_per_step_batch'' (xc_attempts b1),
            xc_creates := get_int v ''max_create_items_per_request'' (xc_creates b1),
            xc_acquire := get_int v ''max_acquire_timeout_ms'' (xc_acquire b1),
            xc_step := get_int v ''max_step_timeout_ms'' (xc_step b1),
            xc_in_flight := get_int v ''max_in_flight_exec_requests'' (xc_in_flight b1),
            xc_queued := get_int v ''max_queued_exec_requests'' (xc_queued b1),
            xc_store_bytes := get_int v ''max_state_store_bytes'' (xc_store_bytes b1),
            xc_unbounded := get_bool v ''allow_unbounded_exec'' (xc_unbounded b1),
            xc_rec_items := get_int v ''recommended_items_per_step_batch'' (xc_rec_items b1),
            xc_rec_batches := get_int v ''recommended_in_flight_step_batches'' (xc_rec_batches b1),
            xc_dir := (case dget v (lit ''state_store_dir'') of Some (VText t) \<Rightarrow> Some t | _ \<Rightarrow> xc_dir b1),
            xc_single := get_bool v ''single_process'' (xc_single b1)\<rparr>)"

definition settings_from_cli_args :: "settings \<Rightarrow> pystr list \<Rightarrow> (config_error + settings) option" where
  "settings_from_cli_args base args =
     map_option (\<lambda>v.
       let c = apply_values v (sg_config base);
           mode = (case dget v (lit ''mode'') of
                     Some (VText m) \<Rightarrow> if m = lit ''exec'' then ModeExec else ModeVerify
                   | _ \<Rightarrow> sg_mode base)
       in ebind (check_server_config c) (\<lambda>_. Inr \<lparr>sg_mode = mode, sg_config = c\<rparr>))
     (parse_cli args [])"

section \<open>The client's configuration\<close>

record client_config =
  cl_given :: exec_config
  cl_lean_processes :: "int option"
  cl_in_flight :: "int option"
  cl_queued :: "int option"
  cl_rec_items :: "int option"

text \<open>\<open>__post_init__\<close>: the fields that default from others are resolved, then all are checked.\<close>

definition client_resolve :: "client_config \<Rightarrow> exec_config" where
  "client_resolve c =
     (let g = cl_given c; workers = xc_workers g;
          in_flight = (case cl_in_flight c of None \<Rightarrow> default_max_in_flight workers | Some n \<Rightarrow> n)
      in g\<lparr>xc_lean_processes := (case cl_lean_processes c of None \<Rightarrow> workers | Some n \<Rightarrow> n),
           xc_rec_items := (case cl_rec_items c of None \<Rightarrow> workers | Some n \<Rightarrow> n),
           xc_in_flight := in_flight,
           xc_queued := (case cl_queued c of None \<Rightarrow> default_max_queued in_flight | Some n \<Rightarrow> n)\<rparr>)"

definition client_init :: "client_config \<Rightarrow> config_error + exec_config" where
  "client_init c =
     (let g = client_resolve c
      in ebind (check_positive ((lit ''port'', xc_port g) # positive_fields g
                  @ [(lit ''recommended_in_flight_step_batches'', xc_rec_batches g)])) (\<lambda>_.
         ebind (validate_bounded_exec_caps g) (\<lambda>_. Inr g)))"

definition int_option :: "string \<Rightarrow> int \<Rightarrow> pystr list" where
  "int_option flag x = [lit flag, str_int x]"

definition to_cli_args :: "exec_config \<Rightarrow> pystr list" where
  "to_cli_args c =
     [lit ''--host'', xc_host c]
     @ int_option ''--port'' (xc_port c)
     @ int_option ''--workers'' (xc_workers c)
     @ int_option ''--max-lean-processes-per-env-profile'' (xc_lean_processes c)
     @ int_option ''--max-items-per-step-batch'' (xc_items c)
     @ int_option ''--max-tactics-per-step-item'' (xc_tactics c)
     @ int_option ''--max-attempts-per-step-batch'' (xc_attempts c)
     @ int_option ''--max-create-items-per-request'' (xc_creates c)
     @ int_option ''--max-acquire-timeout-ms'' (xc_acquire c)
     @ int_option ''--max-step-timeout-ms'' (xc_step c)
     @ int_option ''--max-in-flight-exec-requests'' (xc_in_flight c)
     @ int_option ''--max-queued-exec-requests'' (xc_queued c)
     @ int_option ''--max-state-store-bytes'' (xc_store_bytes c)
     @ (if xc_unbounded c then [lit ''--allow-unbounded-exec''] else [])
     @ int_option ''--recommended-items-per-step-batch'' (xc_rec_items c)
     @ int_option ''--recommended-in-flight-step-batches'' (xc_rec_batches c)
     @ (case xc_dir c of None \<Rightarrow> [] | Some d \<Rightarrow> [lit ''--state-store-dir'', d])
     @ [if xc_single c then lit ''--single-process'' else lit ''--no-single-process'']"

section \<open>Launching\<close>

lemma nat_digits_word: "\<not> starts_with [45] (nat_digits n)" "takeWhile is_digit (nat_digits n) = nat_digits n"
  using nat_digits_digits [of n] nat_digits_nonempty [of n]
  by (cases "nat_digits n"; auto simp: is_digit_def list_all_iff takeWhile_eq_all_conv)+

lemma int_word [simp]: "value_word (str_int i)"
proof (cases "i < 0")
  case True
  have "dropWhile is_digit (nat_digits (nat (- i))) = []"
    using nat_digits_digits [of "nat (- i)"] by (simp add: dropWhile_eq_Nil_conv list_all_iff)
  with True show ?thesis
    by (simp add: value_word_def negative_number_def str_int_def Let_def nat_digits_word(2))
qed (simp add: value_word_def str_int_def nat_digits_word)

lemma parse_set: "dget cli_options w = Some (dest, Sets b) \<Longrightarrow>
    parse_cli (w # args) v = parse_cli args (dset dest (VBool b) v)"
  by (cases args) simp_all

lemma parse_int: "dget cli_options (lit w) = Some (dest, TakesInt) \<Longrightarrow>
    parse_cli (int_option w x @ args) v = parse_cli args (dset dest (VInt x) v)"
  by (simp add: int_option_def)

lemma parse_text: "dget cli_options w = Some (dest, TakesText) \<Longrightarrow> value_word x \<Longrightarrow>
    parse_cli (w # x # args) v = parse_cli args (dset dest (VText x) v)"
  by simp

definition cli_pairs :: "exec_config \<Rightarrow> cfg_values" where
  "cli_pairs c =
     [(lit ''host'', VText (xc_host c)), (lit ''port'', VInt (xc_port c)), (lit ''workers'', VInt (xc_workers c)),
      (lit ''max_lean_processes_per_env_profile'', VInt (xc_lean_processes c)),
      (lit ''max_items_per_step_batch'', VInt (xc_items c)),
      (lit ''max_tactics_per_step_item'', VInt (xc_tactics c)),
      (lit ''max_attempts_per_step_batch'', VInt (xc_attempts c)),
      (lit ''max_create_items_per_request'', VInt (xc_creates c)),
      (lit ''max_acquire_timeout_ms'', VInt (xc_acquire c)), (lit ''max_step_timeout_ms'', VInt (xc_step c)),
      (lit ''max_in_flight_exec_requests'', VInt (xc_in_flight c)),
      (lit ''max_queued_exec_requests'', VInt (xc_queued c)),
      (lit ''max_state_store_bytes'', VInt (xc_store_bytes c))]
     @ (if xc_unbounded c then [(lit ''allow_unbounded_exec'', VBool True)] else [])
     @ [(lit ''recommended_items_per_step_batch'', VInt (xc_rec_items c)),
        (lit ''recommended_in_flight_step_batches'', VInt (xc_rec_batches c))]
     @ (case xc_dir c of None \<Rightarrow> [] | Some d \<Rightarrow> [(lit ''state_store_dir'', VText d)])
     @ [(lit ''single_process'', VBool (xc_single c))]"

definition set_all :: "cfg_values \<Rightarrow> cfg_values \<Rightarrow> cfg_values" where
  "set_all d ps = foldl (\<lambda>d p. dset (fst p) (snd p) d) d ps"

lemma set_all_simps [simp]: "set_all d [] = d" "set_all d (p # ps) = set_all (dset (fst p) (snd p) d) ps"
  by (simp_all add: set_all_def)

lemma option_table:
  "dget cli_options (lit ''--host'') = Some (lit ''host'', TakesText)"
  "dget cli_options (lit ''--port'') = Some (lit ''port'', TakesInt)"
  "dget cli_options (lit ''--workers'') = Some (lit ''workers'', TakesInt)"
  "dget cli_options (lit ''--max-lean-processes-per-env-profile'') =
     Some (lit ''max_lean_processes_per_env_profile'', TakesInt)"
  "dget cli_options (lit ''--max-items-per-step-batch'') = Some (lit ''max_items_per_step_batch'', TakesInt)"
  "dget cli_options (lit ''--max-tactics-per-step-item'') = Some (lit ''max_tactics_per_step_item'', TakesInt)"
  "dget cli_options (lit ''--max-attempts-per-step-batch'') = Some (lit ''max_attempts_per_step_batch'', TakesInt)"
  "dget cli_options (lit ''--max-create-items-per-request'') = Some (lit ''max_create_items_per_request'', TakesInt)"
  "dget cli_options (lit ''--max-acquire-timeout-ms'') = Some (lit ''max_acquire_timeout_ms'', TakesInt)"
  "dget cli_options (lit ''--max-step-timeout-ms'') = Some (lit ''max_step_timeout_ms'', TakesInt)"
  "dget cli_options (lit ''--max-in-flight-exec-requests'') = Some (lit ''max_in_flight_exec_requests'', TakesInt)"
  "dget cli_options (lit ''--max-queued-exec-requests'') = Some (lit ''max_queued_exec_requests'', TakesInt)"
  "dget cli_options (lit ''--max-state-store-bytes'') = Some (lit ''max_state_store_bytes'', TakesInt)"
  "dget cli_options (lit ''--allow-unbounded-exec'') = Some (lit ''allow_unbounded_exec'', Sets True)"
  "dget cli_options (lit ''--recommended-items-per-step-batch'') =
     Some (lit ''recommended_items_per_step_batch'', TakesInt)"
  "dget cli_options (lit ''--recommended-in-flight-step-batches'') =
     Some (lit ''recommended_in_flight_step_batches'', TakesInt)"
  "dget cli_options (lit ''--state-store-dir'') = Some (lit ''state_store_dir'', TakesText)"
  "dget cli_options (lit ''--single-process'') = Some (lit ''single_process'', Sets True)"
  "dget cli_options (lit ''--no-single-process'') = Some (lit ''single_process'', Sets False)"
  by (simp_all add: cli_options_def)

lemma parse_to_cli:
  assumes "value_word (xc_host c)" "\<And>d. xc_dir c = Some d \<Longrightarrow> value_word d"
  shows "parse_cli (to_cli_args c) [] = Some (set_all [] (cli_pairs c))"
  unfolding to_cli_args_def cli_pairs_def
  using assms
  by (cases "xc_unbounded c"; cases "xc_dir c"; cases "xc_single c")
    (simp_all add: parse_int parse_set parse_text option_table del: parse_cli.simps(2,3) update.simps)

lemma keys_set_all: "fst ` set (set_all d ps) = fst ` set d \<union> fst ` set ps"
  by (induction ps arbitrary: d) (auto simp: dom_update)

lemma distinct_config_fields: "distinct config_fields"
  by code_simp

text \<open>The keys of a command line: all the fields, but for the flags that are not given.\<close>

definition cli_fields :: "bool \<Rightarrow> bool \<Rightarrow> pystr list" where
  "cli_fields unbounded dir = filter (\<lambda>k. (k = lit ''allow_unbounded_exec'' \<longrightarrow> unbounded) \<and>
     (k = lit ''state_store_dir'' \<longrightarrow> dir)) config_fields"

lemma cli_keys: "map fst (cli_pairs c) = cli_fields (xc_unbounded c) (xc_dir c \<noteq> None)"
  unfolding cli_pairs_def cli_fields_def config_fields_def
  by (cases "xc_unbounded c"; cases "xc_dir c"; simp)

lemma cli_key_set: "fst ` set (cli_pairs c) = set (cli_fields (xc_unbounded c) (xc_dir c \<noteq> None))"
  using arg_cong [OF cli_keys [of c], of set] by simp

lemma dget_set_all: "dget (set_all d ps) k = (case dget (rev ps) k of None \<Rightarrow> dget d k | Some x \<Rightarrow> Some x)"
  by (induction ps arbitrary: d) (auto simp: map_add_def split: option.splits)

lemma cli_found: "(k, x) \<in> set (cli_pairs c) \<Longrightarrow> dget (set_all [] (cli_pairs c)) k = Some x"
proof -
  assume "(k, x) \<in> set (cli_pairs c)"
  moreover have "distinct (map fst (rev (cli_pairs c)))"
    using distinct_config_fields cli_keys [of c] by (simp add: cli_fields_def rev_map [symmetric])
  ultimately have "dget (rev (cli_pairs c)) k = Some x" by simp
  then show ?thesis by (simp add: dget_set_all)
qed

lemma cli_absent: "k \<notin> fst ` set (cli_pairs c) \<Longrightarrow> dget (set_all [] (cli_pairs c)) k = None"
proof -
  assume "k \<notin> fst ` set (cli_pairs c)"
  then have "dget (rev (cli_pairs c)) k = None" by (simp add: map_of_eq_None_iff)
  then show ?thesis by (simp add: dget_set_all)
qed

lemma cli_lookup:
  fixes c :: exec_config
  defines "v \<equiv> set_all [] (cli_pairs c)"
  shows "get_text v ''host'' h = xc_host c" "get_int v ''port'' i = xc_port c"
    "get_int v ''workers'' i = xc_workers c" "dget v (lit ''workers'') = Some (VInt (xc_workers c))"
    "get_int v ''max_lean_processes_per_env_profile'' i = xc_lean_processes c"
    "dget v (lit ''max_lean_processes_per_env_profile'') \<noteq> None"
    "get_int v ''max_items_per_step_batch'' i = xc_items c"
    "get_int v ''max_tactics_per_step_item'' i = xc_tactics c"
    "get_int v ''max_attempts_per_step_batch'' i = xc_attempts c"
    "get_int v ''max_create_items_per_request'' i = xc_creates c"
    "get_int v ''max_acquire_timeout_ms'' i = xc_acquire c"
    "get_int v ''max_step_timeout_ms'' i = xc_step c"
    "get_int v ''max_in_flight_exec_requests'' i = xc_in_flight c"
    "get_int v ''max_queued_exec_requests'' i = xc_queued c"
    "get_int v ''max_state_store_bytes'' i = xc_store_bytes c"
    "get_bool v ''allow_unbounded_exec'' b = (xc_unbounded c \<or> b)"
    "get_int v ''recommended_items_per_step_batch'' i = xc_rec_items c"
    "get_int v ''recommended_in_flight_step_batches'' i = xc_rec_batches c"
    "dget v (lit ''state_store_dir'') = map_option VText (xc_dir c)"
    "get_bool v ''single_process'' b = xc_single c" "dget v (lit ''mode'') = None"
proof -
  have some: "dget v (lit k) = Some x" if "(lit k, x) \<in> set (cli_pairs c)" for k x
    unfolding v_def using cli_found that by simp
  have none: "dget v (lit k) = None" if "lit k \<notin> fst ` set (cli_pairs c)" for k
    unfolding v_def using cli_absent that by simp
  show "get_text v ''host'' h = xc_host c" "get_int v ''port'' i = xc_port c"
    "get_int v ''workers'' i = xc_workers c" "dget v (lit ''workers'') = Some (VInt (xc_workers c))"
    "get_int v ''max_lean_processes_per_env_profile'' i = xc_lean_processes c"
    "dget v (lit ''max_lean_processes_per_env_profile'') \<noteq> None"
    "get_int v ''max_items_per_step_batch'' i = xc_items c"
    "get_int v ''max_tactics_per_step_item'' i = xc_tactics c"
    "get_int v ''max_attempts_per_step_batch'' i = xc_attempts c"
    "get_int v ''max_create_items_per_request'' i = xc_creates c"
    "get_int v ''max_acquire_timeout_ms'' i = xc_acquire c"
    "get_int v ''max_step_timeout_ms'' i = xc_step c"
    "get_int v ''max_in_flight_exec_requests'' i = xc_in_flight c"
    "get_int v ''max_queued_exec_requests'' i = xc_queued c"
    "get_int v ''max_state_store_bytes'' i = xc_store_bytes c"
    "get_int v ''recommended_items_per_step_batch'' i = xc_rec_items c"
    "get_int v ''recommended_in_flight_step_batches'' i = xc_rec_batches c"
    "get_bool v ''single_process'' b = xc_single c"
    unfolding get_int_def get_text_def get_bool_def
    by (subst some, simp add: cli_pairs_def, simp; fail)+
  show "dget v (lit ''state_store_dir'') = map_option VText (xc_dir c)"
  proof (cases "xc_dir c")
    case None
    then show ?thesis by (simp add: none cli_key_set cli_fields_def config_fields_def)
  next
    case (Some d)
    then show ?thesis by (subst some) (simp_all add: cli_pairs_def)
  qed
  show "dget v (lit ''mode'') = None" by (simp add: none cli_key_set cli_fields_def config_fields_def)
  show "get_bool v ''allow_unbounded_exec'' b = (xc_unbounded c \<or> b)"
  proof (cases "xc_unbounded c")
    case False
    then show ?thesis by (simp add: none cli_key_set cli_fields_def get_bool_def)
  next
    case True
    then have "dget v (lit ''allow_unbounded_exec'') = Some (VBool True)"
      by (intro some) (simp add: cli_pairs_def)
    with True show ?thesis by (simp add: get_bool_def)
  qed
qed

lemma cli_keys_known: "find (\<lambda>p. fst p \<notin> set config_fields) (set_all [] (cli_pairs c)) = None"
proof -
  have "fst ` set (cli_pairs c) \<subseteq> set config_fields" by (auto simp: cli_key_set cli_fields_def)
  then have "fst ` set (set_all [] (cli_pairs c)) \<subseteq> set config_fields" by (simp add: keys_set_all)
  then show ?thesis by (auto simp: find_None_iff)
qed

lemma fill_cli: "fill_config w (set_all [] (cli_pairs c)) = c"
  by (simp add: fill_config_def cli_lookup Let_def split: option.split)

lemma server_config_cli:
  "server_config w (dpop (lit ''mode'') (set_all [] (cli_pairs c))) = ebind (check_server_config c) (\<lambda>_. Inr c)"
  by (simp add: server_config_def cli_keys_known fill_cli Let_def dpop_absent cli_lookup)

lemma apply_cli:
  "apply_values (set_all [] (cli_pairs c)) b = c\<lparr>xc_dir := (case xc_dir c of None \<Rightarrow> xc_dir b | Some d \<Rightarrow> Some d),
     xc_unbounded := xc_unbounded c \<or> xc_unbounded b\<rparr>"
  by (simp add: apply_values_def cli_lookup Let_def split: option.split)

lemma check_positive_append: "check_positive (xs @ ys) = ebind (check_positive xs) (\<lambda>_. check_positive ys)"
  by (induction xs rule: check_positive.induct) auto

lemma client_check:
  assumes "client_init c = Inr x"
  shows "check_server_config x = (if xc_port x \<le> 65535 then Inr () else Inl (FieldError (lit ''port'')))"
    "0 < xc_rec_batches x"
proof -
  have x: "check_positive ((lit ''port'', xc_port x) # positive_fields x
      @ [(lit ''recommended_in_flight_step_batches'', xc_rec_batches x)]) = Inr ()"
    "validate_bounded_exec_caps x = Inr ()"
    using assms by (auto simp: client_init_def Let_def)
  then have "1 \<le> xc_port x" "check_positive (positive_fields x) = Inr ()" "0 < xc_rec_batches x"
    by (auto simp: check_positive_append split: if_splits)
  with x(2) show "check_server_config x = (if xc_port x \<le> 65535 then Inr () else Inl (FieldError (lit ''port'')))"
    "0 < xc_rec_batches x"
    by (simp_all add: check_server_config_def)
qed

lemma budget_bound:
  assumes "w \<le> max (max (m div 2 - memory_headroom_bytes) 0 div worker_memory_bytes) 1" "w \<noteq> 1" "1 \<le> w"
  shows "w * worker_memory_bytes + memory_headroom_bytes \<le> m div 2"
proof -
  let ?b = "max (m div 2 - memory_headroom_bytes) 0"
  have pos: "0 < worker_memory_bytes" by (simp add: worker_memory_bytes_def)
  have "w \<le> ?b div worker_memory_bytes" using assms by linarith
  then have "w * worker_memory_bytes \<le> ?b div worker_memory_bytes * worker_memory_bytes"
    using pos by (intro mult_right_mono) simp_all
  also have "\<dots> \<le> ?b" using div_mult_mod_eq [of ?b worker_memory_bytes] pos_mod_sign [OF pos, of ?b] by linarith
  finally have "w * worker_memory_bytes \<le> ?b" .
  moreover have "0 < w * worker_memory_bytes" using assms(3) pos by simp
  ultimately show ?thesis by linarith
qed

lemma get_empty: "get_int [] k i = i" "get_text [] k s = s" "get_bool [] k b = b"
  by (simp_all add: get_int_def get_text_def get_bool_def)

lemma fill_config_empty:
  "xc_port (fill_config w []) = 8000" "xc_workers (fill_config w []) = w"
  "xc_lean_processes (fill_config w []) = w" "xc_items (fill_config w []) = 1024"
  "xc_tactics (fill_config w []) = 64" "xc_attempts (fill_config w []) = 8192"
  "xc_creates (fill_config w []) = 1024" "xc_acquire (fill_config w []) = 600000"
  "xc_step (fill_config w []) = 600000" "xc_rec_items (fill_config w []) = w"
  "xc_in_flight (fill_config w []) = default_max_in_flight w"
  "xc_queued (fill_config w []) = default_max_queued (default_max_in_flight w)"
  "xc_store_bytes (fill_config w []) = default_max_state_store_bytes"
  by (simp_all add: fill_config_def get_empty Let_def)

lemma default_config_checks:
  assumes "1 \<le> w"
  shows "server_config w [] = Inr (fill_config w [])"
proof -
  have "1 \<le> default_max_in_flight w" "1 \<le> default_max_queued (default_max_in_flight w)"
    "1 \<le> default_max_state_store_bytes"
    by (simp_all add: default_max_in_flight_def default_max_queued_def default_max_state_store_bytes_def)
  then have caps: "validate_bounded_exec_caps (fill_config w []) = Inr ()"
    by (simp add: validate_bounded_exec_caps_def check_cap_def fill_config_empty Let_def)
  have "check_positive (positive_fields (fill_config w [])) = Inr ()"
    using assms by (simp add: positive_fields_def fill_config_empty)
  with caps have "check_server_config (fill_config w []) = Inr ()"
    by (simp add: check_server_config_def fill_config_empty)
  then show ?thesis by (simp add: server_config_def Let_def)
qed

lemma max_min_bound: "max (min a (max b 1)) 1 \<le> max b (1::int)"
  by simp

lemma worker_count_memory:
  "default_exec_worker_count cpus (Some m)
     \<le> max (max (m div 2 - memory_headroom_bytes) 0 div worker_memory_bytes) 1"
  unfolding default_exec_worker_count_def Let_def option.case by (rule max_min_bound)

text \<open>
  A memory limit given as text is megabytes after \<open>_parse_max_mem\<close>, but the default of the field does
  not pass through the validator: it is read as twelve megabytes where ``12G'' gives 12288.
\<close>

lemma default_memory_limit_unscaled:
  "parse_max_mem (VText (lit ''12G'')) = Some 12288" "parse_max_mem (VInt 12) = Some 12288"
  "default_max_repl_mem = 12"
  by code_simp+

text \<open>Base settings as on a machine with many processors, and a command line that lowers the load.\<close>

definition stale_base :: settings where
  "stale_base = \<lparr>sg_mode = ModeExec, sg_config = fill_config 16 []\<rparr>"

definition stale_args :: "pystr list" where
  "stale_args = [lit ''--workers'', lit ''16'', lit ''--max-in-flight-exec-requests'', lit ''1'']"

section \<open>Properties\<close>


definition sample_config :: exec_config where
  "sample_config = (fill_config 4 [])\<lparr>xc_host := lit ''localhost'', xc_dir := Some (lit ''/tmp/states'')\<rparr>"

definition sample_client :: client_config where
  "sample_client = \<lparr>cl_given = sample_config\<lparr>xc_in_flight := 0, xc_queued := 0\<rparr>, cl_lean_processes = None,
     cl_in_flight = None, cl_queued = None, cl_rec_items = None\<rparr>"


text \<open>
  The defaults are safe: on any machine the server's default configuration passes its own checks,
  and the default number of workers leaves a processor free (but for a single one), and either is one
  or leaves half the memory and the headroom to the rest.
\<close>

theorem default_config_accepted:
  "(\<exists>c. server_config (default_exec_worker_count cpus memory) [] = Inr c \<and>
     xc_workers c = default_exec_worker_count cpus memory \<and> xc_in_flight c \<le> xc_workers c) \<and>
   default_exec_worker_count cpus memory \<le> max (case cpus of None \<Rightarrow> 1 | Some n \<Rightarrow> n - 1) 1 \<and>
   (case memory of None \<Rightarrow> True | Some m \<Rightarrow> default_exec_worker_count cpus memory = 1 \<or>
      default_exec_worker_count cpus memory * worker_memory_bytes + memory_headroom_bytes \<le> m div 2)"
proof -
  let ?w = "default_exec_worker_count cpus memory"
  have w: "1 \<le> ?w" by (simp add: default_exec_worker_count_def Let_def split: option.split)
  then have "server_config ?w [] = Inr (fill_config ?w [])" by (rule default_config_checks)
  moreover have "xc_workers (fill_config ?w []) = ?w" "xc_in_flight (fill_config ?w []) \<le> ?w"
    using w by (simp_all add: fill_config_empty default_max_in_flight_def)
  moreover have "?w \<le> max (case cpus of None \<Rightarrow> 1 | Some n \<Rightarrow> n - 1) 1"
    by (auto simp: default_exec_worker_count_def Let_def split: option.split)
  moreover have "?w = 1 \<or> ?w * worker_memory_bytes + memory_headroom_bytes \<le> m div 2"
    if m: "memory = Some m" for m
  proof -
    have "?w \<le> max (max (m div 2 - memory_headroom_bytes) 0 div worker_memory_bytes) 1"
      unfolding m by (rule worker_count_memory)
    from budget_bound [OF this _ w] show ?thesis by blast
  qed
  ultimately show ?thesis by (auto split: option.split)
qed

text \<open>
  The request queue that the server derives from the command line ignores the
  \<open>--max-in-flight-exec-requests\<close> given with it: it is computed from the setting that the argument is
  about to replace, while the configuration class derives it from the argument.
\<close>

theorem queue_default_is_stale:
  "\<exists>s c. settings_from_cli_args stale_base stale_args = Some (Inr s) \<and>
     parse_exec_server_config 1 stale_args = Some (Inr c) \<and>
     xc_in_flight (sg_config s) = 1 \<and> xc_in_flight c = 1 \<and>
     xc_queued (sg_config s) = 32 \<and> xc_queued c = 4"
proof -
  have "case settings_from_cli_args stale_base stale_args of
      Some (Inr s) \<Rightarrow> xc_in_flight (sg_config s) = 1 \<and> xc_queued (sg_config s) = 32 | _ \<Rightarrow> False"
    by code_simp
  moreover have "case parse_exec_server_config 1 stale_args of
      Some (Inr c) \<Rightarrow> xc_in_flight c = 1 \<and> xc_queued c = 4 | _ \<Rightarrow> False"
    by code_simp
  ultimately show ?thesis by (auto split: option.splits sum.splits)
qed

end
