(* ===== verification/Microbatch.thy ===== *)
theory Microbatch
  imports PyText
begin

text \<open>
  \<open>ExecMicrobatchJournal\<close> of \<open>lean_client/exec_journal.py\<close> and \<open>step_batch_resumable\<close> of
  \<open>lean_client/exec_env.py\<close>: a long batch is sent in microbatches whose outcomes are journalled, so
  that a client that dies can be started again.  Items and results are parameters: the journal only
  stores them and compares requests.  The process may die between any two effects (a journal write or
  a request), which the number of effects left expresses; what the server was asked and what it
  answered is recorded in the state so that theorems can speak of it.
\<close>

section \<open>The journal\<close>

datatype mb_status = MbPending | MbRunning | MbComplete | MbFailed | MbUnknown

record ('i, 'r) mb_record =
  mr_status :: mb_status
  mr_request :: "'i list"
  mr_response :: "'r list option"

type_synonym ('i, 'r) journal = "(pystr, (pystr, ('i, 'r) mb_record) pydict) pydict"

type_synonym mb_key = "pystr \<times> nat"

definition journal_get :: "mb_key \<Rightarrow> ('i, 'r) journal \<Rightarrow> ('i, 'r) mb_record option" where
  "journal_get key j = dget (dget_or j (fst key) []) (str_int (int (snd key)))"

definition journal_put :: "mb_key \<Rightarrow> ('i, 'r) mb_record \<Rightarrow> ('i, 'r) journal \<Rightarrow> ('i, 'r) journal" where
  "journal_put key r j =
     dset (fst key) (dset (str_int (int (snd key))) r (dget_or j (fst key) [])) j"

text \<open>What a journal promises, and what its client concludes.\<close>

locale journal_store =
  fixes get :: "'k \<Rightarrow> 'j \<Rightarrow> 'v option" and put :: "'k \<Rightarrow> 'v \<Rightarrow> 'j \<Rightarrow> 'j"
  assumes get_put: "get k (put k' v j) = (if k = k' then Some v else get k j)"
begin

lemma logged_unrecorded:
  "\<forall>p \<in> set log. map_option f (get (fst p) j) = Some (snd p) \<Longrightarrow> get k j = None \<Longrightarrow> k \<notin> fst ` set log"
  by fastforce

lemma logged_overwrite:
  "\<forall>p \<in> set log. map_option f (get (fst p) j) = Some (snd p) \<Longrightarrow> \<forall>p \<in> set log. fst p = k \<longrightarrow> snd p = f v
     \<Longrightarrow> \<forall>p \<in> set log. map_option f (get (fst p) (put k v j)) = Some (snd p)"
  by (simp add: get_put)

lemma logged_new:
  "\<forall>p \<in> set log. map_option f (get (fst p) j) = Some (snd p) \<Longrightarrow> get k j = None
     \<Longrightarrow> \<forall>p \<in> set log. map_option f (get (fst p) (put k v j)) = Some (snd p)"
  by (rule logged_overwrite) (use logged_unrecorded in fastforce)+

end

lemma str_int_inj: "str_int i = str_int k \<longleftrightarrow> i = k"
  by (metis option.inject py_int_str_int)

interpretation jn: journal_store journal_get journal_put
proof
  fix k k' :: mb_key and v :: "('i, 'r) mb_record" and j :: "('i, 'r) journal"
  show "journal_get k (journal_put k' v j) = (if k = k' then Some v else journal_get k j)"
    by (cases k; cases k') (auto simp: journal_get_def journal_put_def dget_or_dset str_int_inj)
qed

section \<open>Resumable batches\<close>

record ('i, 'r) mb_client =
  mc_journal :: "('i, 'r) journal"
  mc_sent :: "(mb_key \<times> 'i list) list"
  mc_answers :: "(mb_key \<times> 'r list) list"

datatype 'e mb_error = BadMicrobatchSize | RequestMismatch | UncertainMicrobatch mb_key mb_status | SendFailed 'e

datatype ('r, 'e) mb_outcome = MbReturned "'r list" | MbRaised "'e mb_error" | MbDied

definition note_mb :: "mb_key \<Rightarrow> mb_status \<Rightarrow> 'i list \<Rightarrow> 'r list option \<Rightarrow> ('i, 'r) mb_client \<Rightarrow> ('i, 'r) mb_client" where
  "note_mb key status c response s =
     s\<lparr>mc_journal := journal_put key \<lparr>mr_status = status, mr_request = c, mr_response = response\<rparr>
        (mc_journal s)\<rparr>"

text \<open>
  The loop over the microbatches; \<open>send n c\<close> is what the \<open>n\<close>-th request of the client's life meets,
  \<open>fuel\<close> the number of effects before the process dies.
\<close>

fun run_microbatches :: "(nat \<Rightarrow> 'i list \<Rightarrow> 'e + 'r list) \<Rightarrow> pystr \<Rightarrow> nat \<Rightarrow> 'i list list \<Rightarrow> 'r list \<Rightarrow> nat
    \<Rightarrow> ('i, 'r) mb_client \<Rightarrow> ('r, 'e) mb_outcome \<times> ('i, 'r) mb_client" where
  "run_microbatches send call k [] merged fuel s = (MbReturned merged, s)"
| "run_microbatches send call k (c # cs) merged fuel s =
     (case journal_get (call, k) (mc_journal s) of
        Some r \<Rightarrow>
          if mr_request r \<noteq> c then (MbRaised RequestMismatch, s)
          else (case mr_response r of
                  Some rs \<Rightarrow> if mr_status r = MbComplete
                             then run_microbatches send call (Suc k) cs (merged @ rs) fuel s
                             else (MbRaised (UncertainMicrobatch (call, k) (mr_status r)), s)
                | None \<Rightarrow> (MbRaised (UncertainMicrobatch (call, k) (mr_status r)), s))
      | None \<Rightarrow>
          if fuel < 1 then (MbDied, s)
          else (let s1 = note_mb (call, k) MbRunning c None s
                in if fuel < 2 then (MbDied, s1)
                   else (let s2 = s1\<lparr>mc_sent := mc_sent s1 @ [((call, k), c)]\<rparr>
                         in case send (length (mc_sent s1)) c of
                              Inl e \<Rightarrow>
                                if fuel < 3 then (MbDied, s2)
                                else (MbRaised (SendFailed e), note_mb (call, k) MbUnknown c None s2)
                            | Inr rs \<Rightarrow>
                                (let s3 = s2\<lparr>mc_answers := mc_answers s2 @ [((call, k), rs)]\<rparr>
                                 in if fuel < 3 then (MbDied, s3)
                                    else run_microbatches send call (Suc k) cs (merged @ rs) (fuel - 3)
                                           (note_mb (call, k) MbComplete c (Some rs) s3)))))"

definition step_batch_resumable :: "(nat \<Rightarrow> 'i list \<Rightarrow> 'e + 'r list) \<Rightarrow> pystr \<Rightarrow> 'i list \<Rightarrow> int \<Rightarrow> nat
    \<Rightarrow> ('i, 'r) mb_client \<Rightarrow> ('r, 'e) mb_outcome \<times> ('i, 'r) mb_client" where
  "step_batch_resumable send call items n fuel s =
     (if n \<le> 0 then (MbRaised BadMicrobatchSize, s)
      else run_microbatches send call 0 (chunks (nat n) items) [] fuel s)"

text \<open>A history of the client: runs with their call, items, microbatch size and time of death.\<close>

type_synonym ('i, 'r, 'e) mb_run = "(nat \<Rightarrow> 'i list \<Rightarrow> 'e + 'r list) \<times> pystr \<times> 'i list \<times> int \<times> nat"

definition resume_runs :: "('i, 'r, 'e) mb_run list \<Rightarrow> ('i, 'r) mb_client \<Rightarrow> ('i, 'r) mb_client" where
  "resume_runs runs s =
     foldl (\<lambda>s (send, call, items, n, fuel). snd (step_batch_resumable send call items n fuel s)) s runs"

definition fresh_client :: "('i, 'r) mb_client" where
  "fresh_client = \<lparr>mc_journal = [], mc_sent = [], mc_answers = []\<rparr>"

section \<open>Invariant\<close>

text \<open>
  Nothing is sent twice; what was sent is in the journal, with its request; a complete record holds
  what the server answered.
\<close>

definition sends_once :: "('i, 'r) mb_client \<Rightarrow> bool" where
  "sends_once s \<longleftrightarrow> distinct (map fst (mc_sent s)) \<and> distinct (map fst (mc_answers s)) \<and>
     set (map fst (mc_answers s)) \<subseteq> set (map fst (mc_sent s))"

definition sent_recorded :: "('i, 'r) mb_client \<Rightarrow> bool" where
  "sent_recorded s \<longleftrightarrow> (\<forall>p \<in> set (mc_sent s). map_option mr_request (journal_get (fst p) (mc_journal s)) = Some (snd p))"

definition answers_recorded :: "('i, 'r) mb_client \<Rightarrow> bool" where
  "answers_recorded s \<longleftrightarrow> (\<forall>key r rs. journal_get key (mc_journal s) = Some r \<longrightarrow> mr_status r = MbComplete \<longrightarrow>
     mr_response r = Some rs \<longrightarrow> (key, mr_request r) \<in> set (mc_sent s) \<and> (key, rs) \<in> set (mc_answers s))"

definition mb_inv :: "('i, 'r) mb_client \<Rightarrow> bool" where
  "mb_inv s \<longleftrightarrow> sends_once s \<and> sent_recorded s \<and> answers_recorded s"

lemma note_mb_sel [simp]:
  "mc_journal (note_mb key st c rs s) = journal_put key \<lparr>mr_status = st, mr_request = c, mr_response = rs\<rparr> (mc_journal s)"
  "mc_sent (note_mb key st c rs s) = mc_sent s" "mc_answers (note_mb key st c rs s) = mc_answers s"
  by (simp_all add: note_mb_def)

lemma sent_request:
  "sends_once s \<Longrightarrow> (key, c) \<in> set (mc_sent s) \<Longrightarrow> (key, c') \<in> set (mc_sent s) \<Longrightarrow> c' = c"
  unfolding sends_once_def by (metis eq_key_imp_eq_value)

lemma mb_inv_running:
  assumes "mb_inv s" "journal_get key (mc_journal s) = None"
  shows "mb_inv (note_mb key MbRunning c None s)"
proof -
  have "sent_recorded (note_mb key MbRunning c None s)"
    unfolding sent_recorded_def note_mb_sel
    by (rule jn.logged_new) (use assms in \<open>simp_all add: mb_inv_def sent_recorded_def\<close>)
  moreover have "answers_recorded (note_mb key MbRunning c None s)"
    using assms(1) by (simp add: mb_inv_def answers_recorded_def jn.get_put)
  ultimately show ?thesis using assms(1) by (simp add: mb_inv_def sends_once_def)
qed

lemma mb_inv_sent:
  assumes "mb_inv s" "key \<notin> set (map fst (mc_sent s))" "journal_get key (mc_journal s) = Some r"
  shows "mb_inv (s\<lparr>mc_sent := mc_sent s @ [(key, mr_request r)]\<rparr>)"
  using assms by (auto simp: mb_inv_def sends_once_def sent_recorded_def answers_recorded_def)

lemma mb_inv_answered:
  assumes "mb_inv s" "key \<notin> set (map fst (mc_answers s))" "key \<in> set (map fst (mc_sent s))"
  shows "mb_inv (s\<lparr>mc_answers := mc_answers s @ [(key, rs)]\<rparr>)"
  using assms by (auto simp: mb_inv_def sends_once_def sent_recorded_def answers_recorded_def)

lemma mb_inv_ended:
  assumes "mb_inv s" "(key, c) \<in> set (mc_sent s)"
    and "status = MbComplete \<longrightarrow> (\<forall>rs. response = Some rs \<longrightarrow> (key, rs) \<in> set (mc_answers s))"
  shows "mb_inv (note_mb key status c response s)"
proof -
  have same: "\<forall>p \<in> set (mc_sent s). fst p = key \<longrightarrow> snd p = c"
    using sent_request [OF _ assms(2)] assms(1) by (auto simp: mb_inv_def)
  have "sent_recorded (note_mb key status c response s)"
    unfolding sent_recorded_def note_mb_sel
    by (rule jn.logged_overwrite) (use assms(1) same in \<open>simp_all add: mb_inv_def sent_recorded_def\<close>)
  moreover have "answers_recorded (note_mb key status c response s)"
    using assms by (simp add: mb_inv_def answers_recorded_def jn.get_put)
  ultimately show ?thesis using assms(1) by (simp add: mb_inv_def sends_once_def)
qed

text \<open>One microbatch that has no record: it is sent, recorded and answered.\<close>

lemma mb_inv_step:
  fixes s :: "('i, 'r) mb_client" and c :: "'i list" and rs :: "'r list"
  assumes inv: "mb_inv s" and free: "journal_get key (mc_journal s) = None"
  defines "s1 \<equiv> note_mb key MbRunning c None s"
  defines "s2 \<equiv> s1\<lparr>mc_sent := mc_sent s1 @ [(key, c)]\<rparr>"
  defines "s3 \<equiv> s2\<lparr>mc_answers := mc_answers s2 @ [(key, rs)]\<rparr>"
  shows "mb_inv s1" "mb_inv s2" "mb_inv (note_mb key MbUnknown c None s2)" "mb_inv s3"
    "mb_inv (note_mb key MbComplete c (Some rs) s3)"
proof -
  have new: "key \<notin> set (map fst (mc_sent s))"
    using jn.logged_unrecorded inv free unfolding mb_inv_def sent_recorded_def by fastforce
  show i1: "mb_inv s1" unfolding s1_def using inv free by (rule mb_inv_running)
  have "journal_get key (mc_journal s1) = Some \<lparr>mr_status = MbRunning, mr_request = c, mr_response = None\<rparr>"
    "key \<notin> set (map fst (mc_sent s1))" using new by (simp_all add: s1_def jn.get_put)
  from mb_inv_sent [OF i1 this(2,1)] show i2: "mb_inv s2" by (simp add: s2_def)
  then show "mb_inv (note_mb key MbUnknown c None s2)" by (rule mb_inv_ended) (simp_all add: s2_def)
  have "key \<notin> set (map fst (mc_answers s))" using new inv by (auto simp: mb_inv_def sends_once_def)
  then show i3: "mb_inv s3" unfolding s3_def using i2 by (intro mb_inv_answered) (simp_all add: s2_def s1_def)
  then show "mb_inv (note_mb key MbComplete c (Some rs) s3)"
    by (rule mb_inv_ended) (simp_all add: s3_def s2_def)
qed

lemma mb_inv_run: "mb_inv s \<Longrightarrow> mb_inv (snd (run_microbatches send call k cs merged fuel s))"
proof (induction send call k cs merged fuel s rule: run_microbatches.induct)
  case (2 send call k c cs merged fuel s)
  note steps = mb_inv_step [OF "2.prems", of "(call, k)" c]
  show ?case
  proof (cases "journal_get (call, k) (mc_journal s)")
    case None
    show ?thesis
    proof (cases "send (length (mc_sent (note_mb (call, k) MbRunning c None s))) c")
      case (Inl e)
      then show ?thesis using None "2.prems" steps(1,2,3) [OF None]
        by (simp add: Let_def del: note_mb_sel)
    next
      case (Inr rs)
      then show ?thesis using None "2.prems" steps(1,4,5) [OF None] "2.IH"(1) [OF None _ refl _ refl Inr refl]
        by (simp add: Let_def del: note_mb_sel)
    qed
  next
    case (Some r)
    then show ?thesis using "2.prems" "2.IH"(2) [OF Some] by (auto split: option.split)
  qed
qed simp

lemma mb_inv_resume: "mb_inv s \<Longrightarrow> mb_inv (resume_runs runs s)"
  by (induction runs arbitrary: s) (auto simp: resume_runs_def step_batch_resumable_def mb_inv_run)

lemma mb_inv_fresh: "mb_inv fresh_client"
  by (simp add: mb_inv_def sends_once_def sent_recorded_def answers_recorded_def fresh_client_def
      journal_get_def dget_or_def)

section \<open>Results\<close>

lemma run_extends:
  "set (mc_sent s) \<subseteq> set (mc_sent (snd (run_microbatches send call k cs merged fuel s))) \<and>
   set (mc_answers s) \<subseteq> set (mc_answers (snd (run_microbatches send call k cs merged fuel s)))"
proof (induction send call k cs merged fuel s rule: run_microbatches.induct)
  case (2 send call k c cs merged fuel s)
  show ?case
  proof (cases "journal_get (call, k) (mc_journal s)")
    case None
    show ?thesis
    proof (cases "send (length (mc_sent s)) c")
      case (Inr rs)
      show ?thesis using None Inr "2.IH"(1) [OF None _ refl _ refl, of rs] by (auto simp: Let_def)
    qed (use None in \<open>auto simp: Let_def\<close>)
  next
    case (Some r)
    then show ?thesis using "2.IH"(2) [OF Some] by (auto split: option.split)
  qed
qed simp

text \<open>The answers of one run: one list of results for each microbatch.\<close>

definition answered :: "('i, 'r) mb_client \<Rightarrow> pystr \<Rightarrow> nat \<Rightarrow> 'i list list \<Rightarrow> 'r list list \<Rightarrow> bool" where
  "answered s call k cs rss \<longleftrightarrow> length rss = length cs \<and> (\<forall>i < length cs.
     ((call, k + i), cs ! i) \<in> set (mc_sent s) \<and> ((call, k + i), rss ! i) \<in> set (mc_answers s))"

lemma answered_Nil [simp]: "answered s call k [] rss \<longleftrightarrow> rss = []"
  by (auto simp: answered_def)

lemma answered_Cons: "((call, k), c) \<in> set (mc_sent s) \<Longrightarrow> ((call, k), rs) \<in> set (mc_answers s)
    \<Longrightarrow> answered s call (Suc k) cs rss \<Longrightarrow> answered s call k (c # cs) (rs # rss)"
  by (auto simp: answered_def nth_Cons split: nat.split)

lemma run_answered:
  assumes "mb_inv s" "run_microbatches send call k cs merged fuel s = (MbReturned rs, s')"
  shows "\<exists>rss. rs = merged @ concat rss \<and> answered s' call k cs rss"
  using assms
proof (induction send call k cs merged fuel s rule: run_microbatches.induct)
  case (2 send call k c cs merged fuel s)
  let ?key = "(call, k)"
  show ?case
  proof (cases "journal_get ?key (mc_journal s)")
    case None
    then obtain rs0 where r: "send (length (mc_sent s)) c = Inr rs0"
      using "2.prems"(2) by (auto simp: Let_def split: if_splits sum.splits)
    define s3 where "s3 = note_mb ?key MbComplete c (Some rs0)
      (note_mb ?key MbRunning c None s\<lparr>mc_sent := mc_sent s @ [(?key, c)],
         mc_answers := mc_answers s @ [(?key, rs0)]\<rparr>)"
    have run: "run_microbatches send call (Suc k) cs (merged @ rs0) (fuel - 3) s3 = (MbReturned rs, s')"
      using "2.prems"(2) None r by (auto simp: Let_def s3_def split: if_splits)
    have inv: "mb_inv s3" using mb_inv_step(5) [OF "2.prems"(1) None, of c rs0] by (simp add: s3_def)
    have "\<exists>rss. rs = (merged @ rs0) @ concat rss \<and> answered s' call (Suc k) cs rss"
      using "2.IH"(1) [OF None _ refl _ refl] r "2.prems"(2) inv run None
      by (auto simp: Let_def s3_def split: if_splits)
    then obtain rss where "rs = merged @ concat (rs0 # rss)" "answered s' call (Suc k) cs rss" by auto
    moreover have "(?key, c) \<in> set (mc_sent s')" "(?key, rs0) \<in> set (mc_answers s')"
      using run_extends [of s3 send call "Suc k" cs "merged @ rs0" "fuel - 3"] run
      by (auto simp: s3_def)
    ultimately show ?thesis using answered_Cons by metis
  next
    case (Some r)
    obtain rs0 where r: "mr_request r = c" "mr_response r = Some rs0" "mr_status r = MbComplete"
      and run: "run_microbatches send call (Suc k) cs (merged @ rs0) fuel s = (MbReturned rs, s')"
      using "2.prems"(2) Some by (auto split: if_splits option.splits)
    obtain rss where "rs = merged @ concat (rs0 # rss)" "answered s' call (Suc k) cs rss"
      using "2.IH"(2) [OF Some _ r(2,3) "2.prems"(1) run] r(1) by auto
    moreover have "(?key, c) \<in> set (mc_sent s)" "(?key, rs0) \<in> set (mc_answers s)"
      using "2.prems"(1) Some r by (auto simp: mb_inv_def answers_recorded_def)
    then have "(?key, c) \<in> set (mc_sent s')" "(?key, rs0) \<in> set (mc_answers s')"
      using run_extends [of s send call "Suc k" cs "merged @ rs0" fuel] run by auto
    ultimately show ?thesis using answered_Cons by metis
  qed
qed simp

text \<open>A client that is not interrupted sends every microbatch and returns.\<close>

lemma run_returns:
  assumes "\<forall>n c. send n c = Inr (f c)" "\<forall>i \<ge> k. journal_get (call, i) (mc_journal s) = None"
    and "3 * length cs \<le> fuel"
  shows "fst (run_microbatches send call k cs merged fuel s) = MbReturned (merged @ concat (map f cs))"
  using assms
proof (induction cs arbitrary: k merged fuel s)
  case (Cons c cs)
  define s3 where "s3 = note_mb (call, k) MbComplete c (Some (f c))
    (note_mb (call, k) MbRunning c None s\<lparr>mc_sent := mc_sent s @ [((call, k), c)],
       mc_answers := mc_answers s @ [((call, k), f c)]\<rparr>)"
  have "\<forall>i \<ge> Suc k. journal_get (call, i) (mc_journal s3) = None"
    using Cons.prems(2) by (simp add: s3_def jn.get_put)
  moreover have "3 * length cs \<le> fuel - 3" using Cons.prems(3) by simp
  ultimately have "fst (run_microbatches send call (Suc k) cs (merged @ f c) (fuel - 3) s3)
      = MbReturned ((merged @ f c) @ concat (map f cs))"
    by (rule Cons.IH [OF Cons.prems(1)])
  then show ?case
    using Cons.prems(1) [rule_format, of "length (mc_sent s)" c] Cons.prems(2) [rule_format, of k] Cons.prems(3)
    by (simp add: Let_def s3_def)
qed simp

section \<open>Properties\<close>

text \<open>
  C24. At most once: over any history of runs, with any deaths of the client between two effects, any
  errors of the server and any batches under any call names, no microbatch is sent twice, and each
  one that was sent is in the journal with the request that was sent.
\<close>

theorem resumable_sends_once:
  fixes runs :: "('i, 'r, 'e) mb_run list"
  defines "s \<equiv> resume_runs runs fresh_client"
  shows "distinct (map fst (mc_sent s)) \<and>
    list_all (\<lambda>(key, c). map_option mr_request (journal_get key (mc_journal s)) = Some c) (mc_sent s)"
  using mb_inv_resume [OF mb_inv_fresh, of runs]
  by (auto simp: s_def mb_inv_def sends_once_def sent_recorded_def list_all_iff)

text \<open>A client that dies with its second microbatch, and the runs after it.\<close>

definition demo_send :: "nat \<Rightarrow> nat list \<Rightarrow> nat + nat list" where
  "demo_send k c = Inr (map (\<lambda>x. 10 * x) c)"

definition demo_client :: "nat \<Rightarrow> (nat, nat) mb_client" where
  "demo_client fuel = resume_runs [(demo_send, lit ''call'', [1, 2, 3, 4, 5], 2, fuel)] fresh_client"

definition demo_second :: "nat \<Rightarrow> (nat, nat) mb_outcome \<times> (nat, nat) mb_client" where
  "demo_second fuel = step_batch_resumable demo_send (lit ''call'') [1, 2, 3, 4, 5] 2 9 (demo_client fuel)"

lemma demo_resume:
  "fst (demo_second 3) = MbReturned [10, 20, 30, 40, 50]"
  "fst (demo_second 4) = MbRaised (UncertainMicrobatch (lit ''call'', 1) MbRunning)"
  by code_simp+

text \<open>
  C25. A run that returns gives what the server answered: whatever runs came before it and however they
  ended, its result is the concatenation, in the order of the items, of the answers to the
  microbatches, each of which was sent exactly once, in this run or in an earlier one.
\<close>

theorem resumed_result_is_answered:
  fixes runs :: "('i, 'r, 'e) mb_run list"
  assumes "step_batch_resumable send call items n fuel (resume_runs runs fresh_client) = (MbReturned rs, s')"
  shows "\<exists>rss. rs = concat rss \<and> concat (chunks (nat n) items) = items \<and>
    distinct (map fst (mc_sent s')) \<and> distinct (map fst (mc_answers s')) \<and>
    answered s' call 0 (chunks (nat n) items) rss"
proof -
  have inv: "mb_inv (resume_runs runs fresh_client)" by (rule mb_inv_resume [OF mb_inv_fresh])
  have n: "0 < n" and run: "run_microbatches send call 0 (chunks (nat n) items) [] fuel
      (resume_runs runs fresh_client) = (MbReturned rs, s')"
    using assms by (auto simp: step_batch_resumable_def split: if_splits)
  have "mb_inv s'" using mb_inv_run [OF inv, of send call 0 "chunks (nat n) items" "[]" fuel] run by simp
  then show ?thesis using run_answered [OF inv run] concat_chunks [of "nat n" items] n
    by (simp add: mb_inv_def sends_once_def)
qed

theorem resumed_result_is_answered_witness:
  "\<exists>rss. [10, 20, 30, 40, 50] = concat rss \<and> answered (snd (demo_second 3)) (lit ''call'') 0 (chunks 2 [1, 2, 3, 4, 5]) rss"
proof -
  have "step_batch_resumable demo_send (lit ''call'') [1, 2, 3, 4, 5] 2 9 (resume_runs
      [(demo_send, lit ''call'', [1, 2, 3, 4, 5], 2, 3)] fresh_client) = (MbReturned [10, 20, 30, 40, 50], snd (demo_second 3))"
    using demo_resume(1) unfolding demo_second_def demo_client_def by (metis prod.collapse)
  from resumed_result_is_answered [OF this] show ?thesis by auto
qed

text \<open>
  A run on an unused call name whose requests are all answered returns, with all the answers in
  order, once it is given the three effects that each microbatch takes.
\<close>

theorem uninterrupted_run_returns:
  assumes "0 < n" "\<forall>k c. send k c = Inr (f c)"
    and "\<forall>i. journal_get (call, i) (mc_journal s) = None" "3 * length (chunks (nat n) items) \<le> fuel"
  shows "fst (step_batch_resumable send call items n fuel s) = MbReturned (concat (map f (chunks (nat n) items)))"
  using run_returns [of send f 0 call s "chunks (nat n) items" fuel "[]"] assms
  by (simp add: step_batch_resumable_def)

theorem uninterrupted_run_returns_witness:
  "fst (step_batch_resumable demo_send (lit ''call'') [1, 2, 3, 4, 5] 2 9 fresh_client)
     = MbReturned (concat (map (map (\<lambda>x. 10 * x)) (chunks 2 [1, 2, 3, 4, 5])))"
proof -
  have "\<forall>i. journal_get (lit ''call'', i) (mc_journal fresh_client) = None"
    by (simp add: fresh_client_def journal_get_def dget_or_def)
  moreover have "3 * length (chunks (nat 2) [1, 2, 3, 4, 5 :: nat]) \<le> 9" by code_simp
  moreover have "\<forall>k c. demo_send k c = Inr (map (\<lambda>x. 10 * x) c)" by (simp add: demo_send_def)
  ultimately show ?thesis
    using uninterrupted_run_returns [OF zero_less_numeral] unfolding nat_numeral by blast
qed

end
