(* ===== verification/Batcher.thy ===== *)
theory Batcher
  imports StepBatch
begin

text \<open>
  \<open>AsyncLeanExecBatcher\<close> of \<open>lean_client/exec_env.py\<close>: single proof steps are queued, sent in batches
  and answered through futures.  This theory models one batch on its way to the server
  (\<open>_send_batch_with_overload_retries\<close>) and the queue with its timer and flushes; the locks that order
  the batches are in \<open>Senders\<close>.  The server is a parameter: it answers, refuses or fails, and its
  results have the model's own type.  Callers may give up their futures during any await.
\<close>

section \<open>Futures\<close>

datatype submit_error = OverloadError pystr | RequestError pystr | MissingNode pystr

datatype future = Waiting | Resolved batch_result | Failed submit_error | Abandoned

record queued =
  qs_item :: batch_item
  qs_future :: nat

type_synonym futures = "(nat, future) pydict"

definition future_of :: "futures \<Rightarrow> nat \<Rightarrow> future" where
  "future_of f i = dget_or f i Waiting"

definition set_future :: "nat \<Rightarrow> future \<Rightarrow> futures \<Rightarrow> futures" where
  "set_future i v f = dset i v f"

lemma future_of_set [simp]: "future_of (set_future i v f) j = (if j = i then v else future_of f j)"
  by (auto simp: future_of_def set_future_def dget_or_dset)

text \<open>Only a future that is not done can be given a value; cancelling one that is done has no effect.\<close>

definition settle_future :: "future \<Rightarrow> futures \<Rightarrow> nat \<Rightarrow> futures" where
  "settle_future v f i = (if future_of f i = Waiting then set_future i v f else f)"

lemma future_of_settle: "future_of (settle_future v f i) j = (if j = i \<and> future_of f i = Waiting then v else future_of f j)"
  by (simp add: settle_future_def)

definition abandon :: "nat list \<Rightarrow> futures \<Rightarrow> futures" where
  "abandon ids f = foldl (settle_future Abandoned) f ids"

definition fail_all :: "submit_error \<Rightarrow> queued list \<Rightarrow> futures \<Rightarrow> futures" where
  "fail_all e qs f = foldl (settle_future (Failed e)) f (map qs_future qs)"

section \<open>One batch\<close>

datatype send_outcome = OverloadedRequest pystr | RequestFailed pystr | Responded "batch_result list"

definition is_overloaded_result :: "batch_result \<Rightarrow> bool" where
  "is_overloaded_result r \<longleftrightarrow> br_results r \<noteq> [] \<and> list_all (\<lambda>s. tr_status s = StOverloaded) (br_results r)"

definition results_by_node :: "batch_result list \<Rightarrow> (pystr, batch_result) pydict" where
  "results_by_node rs = foldl (\<lambda>d r. dset (br_node r) r d) [] rs"

text \<open>The loop over the pending steps: the ones to retry and the futures afterwards.\<close>

fun settle :: "bool \<Rightarrow> (pystr, batch_result) pydict \<Rightarrow> queued list \<Rightarrow> futures \<Rightarrow> queued list \<times> futures" where
  "settle can_retry results [] f = ([], f)"
| "settle can_retry results (q # qs) f =
     (if future_of f (qs_future q) \<noteq> Waiting then settle can_retry results qs f
      else case dget results (bi_node (qs_item q)) of
             None \<Rightarrow> settle can_retry results qs (set_future (qs_future q) (Failed (MissingNode (bi_node (qs_item q)))) f)
           | Some r \<Rightarrow>
               if is_overloaded_result r \<and> can_retry
               then (let (over, f') = settle can_retry results qs f in (q # over, f'))
               else settle can_retry results qs (set_future (qs_future q) (Resolved r) f))"

record send_log =
  sl_futures :: futures
  sl_requests :: "batch_item list list"
  sl_sleeps :: "int list"

text \<open>\<open>await asyncio.sleep(backoff * 2**attempt)\<close>, unless the backoff is zero\<close>

definition back_off :: "int \<Rightarrow> nat \<Rightarrow> nat list \<Rightarrow> send_log \<Rightarrow> send_log" where
  "back_off backoff a gone log =
     (if backoff = 0 then log
      else log\<lparr>sl_sleeps := sl_sleeps log @ [backoff * 2 ^ a], sl_futures := abandon gone (sl_futures log)\<rparr>)"

text \<open>
  Attempt \<open>a\<close> with \<open>left\<close> more to go; \<open>gone a\<close> are the futures given up during its request and during the
  sleep after it.
\<close>

fun send_attempts :: "(nat \<Rightarrow> batch_item list \<Rightarrow> send_outcome) \<Rightarrow> (nat \<Rightarrow> nat list \<times> nat list) \<Rightarrow> int
    \<Rightarrow> nat \<Rightarrow> nat \<Rightarrow> queued list \<Rightarrow> send_log \<Rightarrow> send_log" where
  "send_attempts server gone backoff left a pending log =
     (let items = map qs_item pending;
          log1 = log\<lparr>sl_requests := sl_requests log @ [items],
                     sl_futures := abandon (fst (gone a)) (sl_futures log)\<rparr>;
          f = sl_futures log1
      in case server a items of
           RequestFailed text \<Rightarrow> log1\<lparr>sl_futures := fail_all (RequestError text) pending f\<rparr>
         | OverloadedRequest text \<Rightarrow>
             (case left of
                0 \<Rightarrow> log1\<lparr>sl_futures := fail_all (OverloadError text) pending f\<rparr>
              | Suc l \<Rightarrow>
                  (let rest = filter (\<lambda>q. future_of f (qs_future q) = Waiting) pending
                   in if rest = [] then log1
                      else send_attempts server gone backoff l (Suc a) rest
                             (back_off backoff a (snd (gone a)) log1)))
         | Responded rs \<Rightarrow>
             (let (over, f') = settle (0 < left) (results_by_node rs) pending f;
                  log2 = log1\<lparr>sl_futures := f'\<rparr>
              in if over = [] then log2
                 else (case left of
                         0 \<Rightarrow> log2
                       | Suc l \<Rightarrow> send_attempts server gone backoff l (Suc a) over
                                   (back_off backoff a (snd (gone a)) log2))))"

declare send_attempts.simps [simp del]

definition send_batch :: "(nat \<Rightarrow> batch_item list \<Rightarrow> send_outcome) \<Rightarrow> (nat \<Rightarrow> nat list \<times> nat list) \<Rightarrow> int
    \<Rightarrow> nat \<Rightarrow> queued list \<Rightarrow> futures \<Rightarrow> send_log" where
  "send_batch server gone backoff max_retries batch f =
     send_attempts server gone backoff max_retries 0 batch
       \<lparr>sl_futures = f, sl_requests = [], sl_sleeps = []\<rparr>"

section \<open>Facts about one attempt\<close>

lemma settle_future_done: "future_of f i \<noteq> Waiting \<Longrightarrow> future_of (settle_future v f k) i = future_of f i"
  by (auto simp: future_of_settle)

lemma fold_settle_done: "future_of f i \<noteq> Waiting \<Longrightarrow> future_of (foldl (settle_future v) f ids) i = future_of f i"
  by (induction ids arbitrary: f) (simp_all add: settle_future_done)

lemma fold_settle_value:
  "v \<noteq> Waiting \<Longrightarrow> future_of (foldl (settle_future v) f ids) i =
     (if i \<in> set ids \<and> future_of f i = Waiting then v else future_of f i)"
  by (induction ids arbitrary: f) (auto simp: future_of_settle)

lemma abandon_done: "future_of f i \<noteq> Waiting \<Longrightarrow> future_of (abandon ids f) i = future_of f i"
  unfolding abandon_def by (rule fold_settle_done)

lemma fail_all_value: "future_of (fail_all e qs f) i =
    (if i \<in> qs_future ` set qs \<and> future_of f i = Waiting then Failed e else future_of f i)"
  unfolding fail_all_def by (simp add: fold_settle_value)

lemma back_off_sel [simp]:
  "sl_requests (back_off b a g log) = sl_requests log"
  "future_of (sl_futures log) i \<noteq> Waiting \<Longrightarrow>
     future_of (sl_futures (back_off b a g log)) i = future_of (sl_futures log) i"
  by (simp_all add: back_off_def abandon_done)

lemma settle_done: "future_of f i \<noteq> Waiting \<Longrightarrow> future_of (snd (settle c d qs f)) i = future_of f i"
  by (induction c d qs f rule: settle.induct) (auto simp: case_prod_beta split: option.split)

lemma settle_rest: "set (fst (settle c d qs f)) \<subseteq> set qs"
  by (induction c d qs f rule: settle.induct) (auto simp: case_prod_beta split: option.split)

lemma settle_settles:
  "q \<in> set qs \<Longrightarrow> future_of (snd (settle c d qs f)) (qs_future q) \<noteq> Waiting \<or> c \<and> q \<in> set (fst (settle c d qs f))"
proof (induction c d qs f rule: settle.induct)
  case (2 c d p qs f)
  show ?case
  proof (cases "q = p")
    case True
    then show ?thesis
      using settle_done [of _ "qs_future p" c d qs]
      by (cases "dget d (bi_node (qs_item p))") (auto simp: case_prod_beta)
  next
    case False
    then have "q \<in> set qs" using "2.prems" by simp
    then show ?thesis using "2.IH" by (auto simp: case_prod_beta split: option.split)
  qed
qed simp

section \<open>All futures are settled\<close>

text \<open>The log after the request, and what follows each outcome of it.\<close>

definition asked :: "(nat \<Rightarrow> nat list \<times> nat list) \<Rightarrow> nat \<Rightarrow> queued list \<Rightarrow> send_log \<Rightarrow> send_log" where
  "asked gone a pending log = log\<lparr>sl_requests := sl_requests log @ [map qs_item pending],
     sl_futures := abandon (fst (gone a)) (sl_futures log)\<rparr>"

lemma send_failed:
  "server a (map qs_item pending) = RequestFailed t \<Longrightarrow> send_attempts server gone b left a pending log =
     (asked gone a pending log)\<lparr>sl_futures := fail_all (RequestError t) pending (abandon (fst (gone a)) (sl_futures log))\<rparr>"
  by (subst send_attempts.simps) (simp add: Let_def asked_def)

lemma send_overloaded:
  "server a (map qs_item pending) = OverloadedRequest t \<Longrightarrow> send_attempts server gone b 0 a pending log =
     (asked gone a pending log)\<lparr>sl_futures := fail_all (OverloadError t) pending (abandon (fst (gone a)) (sl_futures log))\<rparr>"
  "server a (map qs_item pending) = OverloadedRequest t \<Longrightarrow> send_attempts server gone b (Suc l) a pending log =
     (let rest = filter (\<lambda>q. future_of (abandon (fst (gone a)) (sl_futures log)) (qs_future q) = Waiting) pending
      in if rest = [] then asked gone a pending log
         else send_attempts server gone b l (Suc a) rest (back_off b a (snd (gone a)) (asked gone a pending log)))"
  by (subst send_attempts.simps, simp add: Let_def asked_def)+

lemma send_responded:
  "server a (map qs_item pending) = Responded rs \<Longrightarrow>
   settle (0 < left) (results_by_node rs) pending (abandon (fst (gone a)) (sl_futures log)) = (over, f') \<Longrightarrow>
   send_attempts server gone b left a pending log =
     (if over = [] \<or> left = 0 then (asked gone a pending log)\<lparr>sl_futures := f'\<rparr>
      else send_attempts server gone b (left - 1) (Suc a) over
             (back_off b a (snd (gone a)) ((asked gone a pending log)\<lparr>sl_futures := f'\<rparr>)))"
  by (subst send_attempts.simps) (simp add: Let_def asked_def split: nat.split)

lemma asked_sel [simp]:
  "sl_futures (asked gone a pending log) = abandon (fst (gone a)) (sl_futures log)"
  "sl_requests (asked gone a pending log) = sl_requests log @ [map qs_item pending]"
  by (simp_all add: asked_def)

text \<open>Induction over the attempts: how the loop can end, and how it can go on.\<close>

definition still_waiting :: "(nat \<Rightarrow> nat list \<times> nat list) \<Rightarrow> nat \<Rightarrow> queued list \<Rightarrow> send_log \<Rightarrow> queued list" where
  "still_waiting gone a pending log =
     filter (\<lambda>q. future_of (abandon (fst (gone a)) (sl_futures log)) (qs_future q) = Waiting) pending"

lemma send_attempts_rule [case_names failed abandoned answered retry more]:
  assumes failed: "\<And>left a pending log e. P left a pending log
      ((asked gone a pending log)\<lparr>sl_futures := fail_all e pending (abandon (fst (gone a)) (sl_futures log))\<rparr>)"
    and abandoned: "\<And>l a pending log. still_waiting gone a pending log = [] \<Longrightarrow>
      P (Suc l) a pending log (asked gone a pending log)"
    and answered: "\<And>left a pending log rs over f'. server a (map qs_item pending) = Responded rs \<Longrightarrow>
      settle (0 < left) (results_by_node rs) pending (abandon (fst (gone a)) (sl_futures log)) = (over, f') \<Longrightarrow>
      over = [] \<or> left = 0 \<Longrightarrow> P left a pending log ((asked gone a pending log)\<lparr>sl_futures := f'\<rparr>)"
    and retry: "\<And>l a pending log final. P l (Suc a) (still_waiting gone a pending log)
      (back_off b a (snd (gone a)) (asked gone a pending log)) final \<Longrightarrow> P (Suc l) a pending log final"
    and more: "\<And>l a pending log rs over f' final. server a (map qs_item pending) = Responded rs \<Longrightarrow>
      settle True (results_by_node rs) pending (abandon (fst (gone a)) (sl_futures log)) = (over, f') \<Longrightarrow>
      P l (Suc a) over (back_off b a (snd (gone a)) ((asked gone a pending log)\<lparr>sl_futures := f'\<rparr>)) final \<Longrightarrow>
      P (Suc l) a pending log final"
  shows "P left a pending log (send_attempts server gone b left a pending log)"
proof (induction left arbitrary: a pending log)
  case 0
  show ?case
  proof (cases "server a (map qs_item pending)")
    case (Responded rs)
    obtain over f' where s: "settle False (results_by_node rs) pending
        (abandon (fst (gone a)) (sl_futures log)) = (over, f')" by force
    then show ?thesis using answered [of a pending rs 0 log over f'] send_responded [of server a pending rs 0] Responded
      by simp
  qed (simp_all add: send_failed send_overloaded failed)
next
  case (Suc l)
  show ?case
  proof (cases "server a (map qs_item pending)")
    case (OverloadedRequest t)
    show ?thesis
      unfolding send_overloaded(2) [of server, OF OverloadedRequest] Let_def still_waiting_def [symmetric]
      using abandoned [of a pending log l] retry [OF Suc.IH] by simp
  next
    case (RequestFailed t)
    then show ?thesis by (simp add: send_failed failed)
  next
    case (Responded rs)
    obtain over f' where s: "settle True (results_by_node rs) pending
        (abandon (fst (gone a)) (sl_futures log)) = (over, f')" by force
    then show ?thesis using answered [of a pending rs "Suc l" log over f'] more [OF Responded s Suc.IH]
        send_responded [of server a pending rs "Suc l"] Responded
      by simp
  qed
qed

lemma asked_done: "future_of (sl_futures log) i \<noteq> Waiting \<Longrightarrow>
    future_of (abandon (fst (gone a)) (sl_futures log)) i = future_of (sl_futures log) i"
  by (rule abandon_done)

lemma send_attempts_done:
  "future_of (sl_futures log) i \<noteq> Waiting \<longrightarrow>
     future_of (sl_futures (send_attempts server gone b left a pending log)) i = future_of (sl_futures log) i"
proof (rule send_attempts_rule [where server = server and gone = gone and b = b and P =
    "\<lambda>left a pending log final. future_of (sl_futures log) i \<noteq> Waiting \<longrightarrow>
      future_of (sl_futures final) i = future_of (sl_futures log) i"], goal_cases failed abandoned answered retry more)
  case (answered left a pending log rs over f')
  then show ?case using settle_done [of "abandon (fst (gone a)) (sl_futures log)" i "0 < left" "results_by_node rs" pending]
    by (simp add: asked_done)
next
  case (more l a pending log rs over f' final)
  then show ?case using settle_done [of "abandon (fst (gone a)) (sl_futures log)" i True "results_by_node rs" pending]
    by (simp add: asked_done)
qed (simp_all add: asked_done fail_all_value)

lemma send_attempts_settles:
  "(\<forall>q \<in> set pending. future_of (sl_futures (send_attempts server gone b left a pending log)) (qs_future q) \<noteq> Waiting)
   \<and> (\<forall>i. future_of (sl_futures log) i \<noteq> Waiting \<longrightarrow>
       future_of (sl_futures (send_attempts server gone b left a pending log)) i \<noteq> Waiting)"
proof (rule send_attempts_rule [where server = server and gone = gone and b = b and P =
    "\<lambda>left a pending log final. (\<forall>q \<in> set pending. future_of (sl_futures final) (qs_future q) \<noteq> Waiting) \<and>
      (\<forall>i. future_of (sl_futures log) i \<noteq> Waiting \<longrightarrow> future_of (sl_futures final) i \<noteq> Waiting)"], goal_cases failed abandoned answered retry more)
  case (answered left a pending log rs over f')
  then show ?case
    using settle_settles [of _ pending "0 < left" "results_by_node rs" "abandon (fst (gone a)) (sl_futures log)"]
      settle_done [of "abandon (fst (gone a)) (sl_futures log)" _ "0 < left" "results_by_node rs" pending]
    by (auto simp: asked_done)
next
  case (more l a pending log rs over f' final)
  then show ?case
    using settle_settles [of _ pending True "results_by_node rs" "abandon (fst (gone a)) (sl_futures log)"]
      settle_done [of "abandon (fst (gone a)) (sl_futures log)" _ True "results_by_node rs" pending]
    by (fastforce simp: asked_done)
next
  case (retry l a pending log final)
  then show ?case by (fastforce simp: asked_done still_waiting_def)
qed (auto simp: asked_done fail_all_value still_waiting_def filter_empty_conv)

lemma send_attempts_requests:
  "\<exists>rs. sl_requests (send_attempts server gone b left a pending log) = sl_requests log @ rs \<and>
     rs \<noteq> [] \<and> length rs \<le> Suc left"
proof (rule send_attempts_rule [where server = server and gone = gone and b = b and P =
    "\<lambda>left a pending log final. \<exists>rs. sl_requests final = sl_requests log @ rs \<and> rs \<noteq> [] \<and> length rs \<le> Suc left"], goal_cases failed abandoned answered retry more)
  case (more l a pending log rs over f' final)
  then show ?case by auto
next
  case (retry l a pending log final)
  then show ?case by auto
qed auto

section \<open>Every step gets its own result\<close>

lemma results_by_node_sound:
  "dget (results_by_node rs) n = Some r \<Longrightarrow> r \<in> set rs \<and> br_node r = n"
proof -
  have "r \<in> set rs \<and> br_node r = n \<or> dget d n = Some r"
    if "dget (foldl (\<lambda>d r. dset (br_node r) r d) d rs) n = Some r" for d
    using that
  proof (induction rs arbitrary: d)
    case (Cons x rs)
    then have "r \<in> set rs \<and> br_node r = n \<or> dget (dset (br_node x) x d) n = Some r"
      by (simp del: dget_dset)
    then show ?case by (auto split: if_splits)
  qed simp
  from this [of "[]"] show "dget (results_by_node rs) n = Some r \<Longrightarrow> r \<in> set rs \<and> br_node r = n"
    by (simp add: results_by_node_def)
qed

lemma settle_value:
  "distinct (map qs_future qs) \<Longrightarrow> q \<in> set qs \<Longrightarrow> future_of f (qs_future q) = Waiting \<Longrightarrow>
     future_of (snd (settle c d qs f)) (qs_future q) = Resolved r \<Longrightarrow>
     dget d (bi_node (qs_item q)) = Some r \<and> \<not> (is_overloaded_result r \<and> c)"
proof (induction c d qs f rule: settle.induct)
  case (2 c d p qs f)
  show ?case
  proof (cases "q = p")
    case True
    have untouched: "future_of g (qs_future p) = Waiting \<Longrightarrow> future_of (snd (settle c d qs g)) (qs_future p) = Waiting" for g
      using "2.prems"(1) by (induction c d qs g rule: settle.induct)
        (auto simp: case_prod_beta split: option.split)
    then show ?thesis using True "2.prems" settle_done [of _ "qs_future p" c d qs]
      by (cases "dget d (bi_node (qs_item p))") (auto simp: case_prod_beta split: if_splits)
  next
    case False
    then have q: "q \<in> set qs" using "2.prems"(2) by simp
    then have "qs_future q \<in> set (map qs_future qs)" by simp
    with "2.prems"(1) have "qs_future q \<noteq> qs_future p" by (metis distinct.simps(2) list.map(2))
    with q have "q \<in> set qs" "qs_future q \<noteq> qs_future p" .
    then show ?thesis using "2.IH" "2.prems"(1,3,4) by (auto simp: case_prod_beta split: option.splits if_splits)
  qed
qed simp

lemma settle_distinct: "distinct (map g qs) \<Longrightarrow> distinct (map g (fst (settle c d qs f)))"
proof (induction c d qs f rule: settle.induct)
  case (2 c d p qs f)
  then show ?case using settle_rest [of c d qs f] by (auto simp: case_prod_beta split: option.split)
qed simp

lemma zip_own:
  assumes "map br_node rs = map bi_node (map qs_item qs)" "distinct (map (\<lambda>q. bi_node (qs_item q)) qs)"
    and "q \<in> set qs" "r \<in> set rs" "br_node r = bi_node (qs_item q)"
  shows "(qs_item q, r) \<in> set (zip (map qs_item qs) rs)"
proof -
  have len: "length rs = length qs" using arg_cong [OF assms(1), of length] by simp
  obtain k where k: "k < length qs" "rs ! k = r" using assms(4) len by (auto simp: in_set_conv_nth)
  obtain m where m: "m < length qs" "qs ! m = q" using assms(3) by (auto simp: in_set_conv_nth)
  have "map br_node rs ! k = bi_node (qs_item (qs ! k))" unfolding assms(1) using k(1) by simp
  then have "bi_node (qs_item (qs ! k)) = bi_node (qs_item (qs ! m))" using k m len assms(5) by simp
  then have "k = m" using assms(2) k(1) m(1) by (simp add: distinct_conv_nth) metis
  then show ?thesis using k m len by (force simp: set_zip)
qed

lemma back_off_value:
  "future_of (sl_futures (back_off b a g log)) i \<in> {future_of (sl_futures log) i, Abandoned}"
  by (simp add: back_off_def abandon_def fold_settle_value)

lemma abandon_value: "future_of (abandon ids f) i \<in> {future_of f i, Abandoned}"
  by (simp add: abandon_def fold_settle_value)

lemma abandon_resolved [simp]: "future_of (abandon ids f) i = Resolved r \<longleftrightarrow> future_of f i = Resolved r"
  by (simp add: abandon_def fold_settle_value)

text \<open>The server answered item \<open>it\<close> with \<open>r\<close> in one of the attempts that were made.\<close>

definition answered_by :: "(nat \<Rightarrow> batch_item list \<Rightarrow> send_outcome) \<Rightarrow> batch_item list list \<Rightarrow> nat \<Rightarrow> batch_item
    \<Rightarrow> batch_result \<Rightarrow> bool" where
  "answered_by server requests lastn it r \<longleftrightarrow> (\<exists>a its rs. its \<in> set requests \<and> server a its = Responded rs \<and>
     (it, r) \<in> set (zip its rs) \<and> (is_overloaded_result r \<longrightarrow> a = lastn))"

definition own_results :: "(nat \<Rightarrow> batch_item list \<Rightarrow> send_outcome) \<Rightarrow> nat \<Rightarrow> queued list \<Rightarrow> send_log \<Rightarrow> send_log \<Rightarrow> bool" where
  "own_results server lastn pending log final \<longleftrightarrow>
     distinct (map qs_future pending) \<longrightarrow> distinct (map (\<lambda>q. bi_node (qs_item q)) pending) \<longrightarrow>
     (\<forall>q \<in> set pending. \<forall>r. future_of (sl_futures log) (qs_future q) = Waiting \<longrightarrow>
        future_of (sl_futures final) (qs_future q) = Resolved r \<longrightarrow>
        answered_by server (sl_requests final) lastn (qs_item q) r)"

lemma own_answered:
  assumes "server a (map qs_item pending) = Responded rs" "map br_node rs = map bi_node (map qs_item pending)"
    and "settle c (results_by_node rs) pending (abandon ids f) = (over, f')"
    and "distinct (map qs_future pending)" "distinct (map (\<lambda>q. bi_node (qs_item q)) pending)"
    and "q \<in> set pending" "future_of f (qs_future q) = Waiting" "future_of f' (qs_future q) = Resolved r"
    and "map qs_item pending \<in> set requests" "\<not> c \<longrightarrow> a = lastn"
  shows "answered_by server requests lastn (qs_item q) r"
proof -
  have w: "future_of (abandon ids f) (qs_future q) = Waiting"
    using abandon_value [of ids f "qs_future q"] assms(3,7,8)
      settle_done [of "abandon ids f" "qs_future q" c "results_by_node rs" pending] by auto
  have r: "dget (results_by_node rs) (bi_node (qs_item q)) = Some r" "\<not> (is_overloaded_result r \<and> c)"
    using settle_value [OF assms(4,6) w, of c "results_by_node rs" r] assms(3,8) by auto
  have "(qs_item q, r) \<in> set (zip (map qs_item pending) rs)"
    using zip_own [OF assms(2,5,6)] results_by_node_sound [OF r(1)] by blast
  then show ?thesis using assms(1,9,10) r(2) unfolding answered_by_def by blast
qed

lemma send_attempts_own:
  assumes "\<forall>a its rs. server a its = Responded rs \<longrightarrow> map br_node rs = map bi_node its"
  shows "own_results server (a + left) pending log (send_attempts server gone b left a pending log)
    \<and> set (sl_requests log) \<subseteq> set (sl_requests (send_attempts server gone b left a pending log))
    \<and> (\<forall>i. future_of (sl_futures log) i \<noteq> Waiting \<longrightarrow>
         future_of (sl_futures (send_attempts server gone b left a pending log)) i = future_of (sl_futures log) i)"
proof (rule send_attempts_rule [where server = server and gone = gone and b = b and P =
    "\<lambda>left a pending log final. own_results server (a + left) pending log final
       \<and> set (sl_requests log) \<subseteq> set (sl_requests final)
       \<and> (\<forall>i. future_of (sl_futures log) i \<noteq> Waiting \<longrightarrow> future_of (sl_futures final) i = future_of (sl_futures log) i)"],
    goal_cases failed abandoned answered retry more)
  case (failed left a pending log e)
  then show ?case by (auto simp: own_results_def fail_all_value asked_done split: if_splits)
next
  case (abandoned l a pending log)
  then show ?case by (auto simp: own_results_def asked_done)
next
  case (answered left a pending log rs over f')
  have keep: "\<forall>i. future_of (sl_futures log) i \<noteq> Waiting \<longrightarrow> future_of f' i = future_of (sl_futures log) i"
    using settle_done [of "abandon (fst (gone a)) (sl_futures log)" _ "0 < left" "results_by_node rs" pending]
      answered(2) by (simp add: asked_done)
  have "own_results server (a + left) pending log ((asked gone a pending log)\<lparr>sl_futures := f'\<rparr>)"
    unfolding own_results_def
    using own_answered [of server a pending rs "0 < left" "fst (gone a)" "sl_futures log" over f' _ _ _ "a + left",
        OF answered(1) assms [rule_format, OF answered(1)] answered(2)] by simp
  with keep show ?case by auto
next
  case (retry l a pending log final)
  let ?r = "still_waiting gone a pending log"
  have "answered_by server (sl_requests final) (a + Suc l) (qs_item q) r"
    if d: "distinct (map qs_future pending)" "distinct (map (\<lambda>q. bi_node (qs_item q)) pending)"
      and q: "q \<in> set pending" "future_of (sl_futures log) (qs_future q) = Waiting"
        "future_of (sl_futures final) (qs_future q) = Resolved r" for q r
  proof -
    have "future_of (sl_futures (back_off b a (snd (gone a)) (asked gone a pending log))) (qs_future q) = Waiting"
      "future_of (abandon (fst (gone a)) (sl_futures log)) (qs_future q) = Waiting"
      using retry q abandon_value [of "fst (gone a)" "sl_futures log" "qs_future q"]
        back_off_value [of b a "snd (gone a)" "asked gone a pending log" "qs_future q"] by auto
    then show ?thesis
      using retry q d unfolding own_results_def still_waiting_def
      by (simp add: distinct_map_filter)
  qed
  then show ?case using retry by (auto simp: own_results_def asked_done)
next
  case (more l a pending log rs over f' final)
  let ?b = "back_off b a (snd (gone a)) ((asked gone a pending log)\<lparr>sl_futures := f'\<rparr>)"
  note fin = more(3)
  have keep: "\<forall>i. future_of (sl_futures log) i \<noteq> Waiting \<longrightarrow> future_of f' i = future_of (sl_futures log) i"
    using settle_done [of "abandon (fst (gone a)) (sl_futures log)" _ True "results_by_node rs" pending]
      more(2) by (simp add: asked_done)
  have "answered_by server (sl_requests final) (a + Suc l) (qs_item q) r"
    if d: "distinct (map qs_future pending)" "distinct (map (\<lambda>q. bi_node (qs_item q)) pending)"
      and q: "q \<in> set pending" "future_of (sl_futures log) (qs_future q) = Waiting"
        "future_of (sl_futures final) (qs_future q) = Resolved r" for q r
  proof (cases "future_of f' (qs_future q) = Waiting")
    case True
    have "q \<in> set over"
      using settle_settles [OF q(1), of True "results_by_node rs" "abandon (fst (gone a)) (sl_futures log)"] more(2) True
      by simp
    moreover have "future_of (sl_futures ?b) (qs_future q) = Waiting"
      using fin q(3) True back_off_value [of b a "snd (gone a)" "(asked gone a pending log)\<lparr>sl_futures := f'\<rparr>" "qs_future q"]
      by auto
    moreover have "distinct (map qs_future over)" "distinct (map (\<lambda>q. bi_node (qs_item q)) over)"
      using settle_distinct [OF d(1)] settle_distinct [OF d(2)] more(2) by (metis fst_conv)+
    ultimately show ?thesis using fin q(3) unfolding own_results_def by simp
  next
    case False
    then have "future_of f' (qs_future q) = Resolved r" using fin q(3) by simp
    moreover have "map qs_item pending \<in> set (sl_requests final)" using fin by auto
    ultimately show ?thesis
      using own_answered [of server a pending rs True "fst (gone a)" "sl_futures log" over f',
          OF more(1) assms [rule_format, OF more(1)] more(2) d q(1,2)] by simp
  qed
  then show ?case using fin keep by (auto simp: own_results_def)
qed

section \<open>The queue\<close>

text \<open>
  The part of the batcher between a submission and the batches.  Each operation is one section under
  the lock, which is never held across an await.  A flush task may be scheduled; a timer may run.
\<close>

record batcher =
  bt_max_items :: nat
  bt_max_wait :: int
  bt_queue :: "queued list"
  bt_timer :: bool
  bt_flushes :: nat
  bt_closed :: bool
  bt_batches :: "queued list list"

datatype batcher_error = BatcherClosed | BadBatcher pystr

definition new_batcher :: "int \<Rightarrow> int \<Rightarrow> int \<Rightarrow> int \<Rightarrow> int \<Rightarrow> batcher_error + batcher" where
  "new_batcher max_items max_wait max_in_flight max_retries backoff =
     (if max_items \<le> 0 then Inl (BadBatcher (lit ''max_items must be positive''))
      else if max_wait < 0 then Inl (BadBatcher (lit ''max_wait_ms must be non-negative''))
      else if max_in_flight \<le> 0 then Inl (BadBatcher (lit ''max_in_flight_batches must be positive''))
      else if max_retries < 0 then Inl (BadBatcher (lit ''max_overloaded_retries must be non-negative''))
      else if backoff < 0 then Inl (BadBatcher (lit ''overload_backoff_seconds must be non-negative''))
      else Inr \<lparr>bt_max_items = nat max_items, bt_max_wait = max_wait, bt_queue = [], bt_timer = False,
             bt_flushes = 0, bt_closed = False, bt_batches = []\<rparr>)"

text \<open>\<open>submit_step\<close>, up to the wait for its future\<close>

definition submit :: "queued \<Rightarrow> batcher \<Rightarrow> batcher_error + batcher" where
  "submit q b =
     (if bt_closed b then Inl BatcherClosed
      else let b1 = b\<lparr>bt_queue := bt_queue b @ [q]\<rparr>
           in Inr (if bt_max_items b \<le> length (bt_queue b1) \<or> bt_max_wait b = 0
                   then b1\<lparr>bt_timer := False, bt_flushes := bt_flushes b1 + 1\<rparr>
                   else b1\<lparr>bt_timer := True\<rparr>))"

text \<open>The locked section of \<open>flush\<close>: the whole queue is cut into batches of \<open>max_items\<close>.\<close>

definition flush :: "batcher \<Rightarrow> batcher" where
  "flush b = b\<lparr>bt_timer := False, bt_queue := [], bt_batches := bt_batches b @ chunks (bt_max_items b) (bt_queue b)\<rparr>"

definition run_flush :: "batcher \<Rightarrow> batcher" where
  "run_flush b = (flush b)\<lparr>bt_flushes := bt_flushes b - 1\<rparr>"

definition close_batcher :: "batcher \<Rightarrow> batcher" where
  "close_batcher b = flush (b\<lparr>bt_closed := True\<rparr>)"

datatype batcher_op = OpSubmit queued | OpFlush | OpTimer | OpFlushTask | OpClose

fun batcher_step :: "batcher \<Rightarrow> batcher_op \<Rightarrow> batcher" where
  "batcher_step b (OpSubmit q) = (case submit q b of Inl e \<Rightarrow> b | Inr b' \<Rightarrow> b')"
| "batcher_step b OpFlush = flush b"
| "batcher_step b OpTimer = (if bt_timer b then flush b else b)"
| "batcher_step b OpFlushTask = (if 0 < bt_flushes b then run_flush b else b)"
| "batcher_step b OpClose = close_batcher b"

text \<open>The submissions that a history accepts.\<close>

fun accepted :: "batcher \<Rightarrow> batcher_op list \<Rightarrow> queued list" where
  "accepted b [] = []"
| "accepted b (op # ops) =
     (case op of OpSubmit q \<Rightarrow> if bt_closed b then [] else [q] | _ \<Rightarrow> []) @ accepted (batcher_step b op) ops"

definition batcher_inv :: "batcher \<Rightarrow> bool" where
  "batcher_inv b \<longleftrightarrow> 0 < bt_max_items b \<and> list_all (\<lambda>c. c \<noteq> [] \<and> length c \<le> bt_max_items b) (bt_batches b) \<and>
     (bt_queue b = [] \<or> bt_timer b \<or> 0 < bt_flushes b) \<and> (bt_closed b \<longrightarrow> bt_queue b = [])"

lemma flush_inv [inv_intros]: "batcher_inv b \<Longrightarrow> batcher_inv (flush b)"
  using chunks_bounds by (fastforce simp: batcher_inv_def flush_def list_all_iff)

lemma batcher_step_inv: "batcher_inv b \<Longrightarrow> batcher_inv (batcher_step b op)"
proof (cases op)
  case OpFlushTask
  assume "batcher_inv b"
  then have "batcher_inv (flush b)" by (rule flush_inv)
  then show ?thesis using OpFlushTask \<open>batcher_inv b\<close> by (auto simp: batcher_inv_def run_flush_def flush_def)
next
  case OpClose
  assume "batcher_inv b"
  then have "batcher_inv (flush b)" by (rule flush_inv)
  then show ?thesis using OpClose by (simp add: batcher_inv_def close_batcher_def flush_def)
qed (auto simp: flush_inv submit_def Let_def, auto simp: batcher_inv_def)

lemma batcher_step_items:
  assumes "batcher_inv b"
  shows "concat (bt_batches (batcher_step b op)) @ bt_queue (batcher_step b op) =
    concat (bt_batches b) @ bt_queue b @ accepted b [op]" "bt_max_items (batcher_step b op) = bt_max_items b"
  using assms concat_chunks [of "bt_max_items b" "bt_queue b"]
  by (cases op; simp add: batcher_inv_def submit_def flush_def run_flush_def close_batcher_def Let_def)+

lemma batcher_run:
  "batcher_inv b \<Longrightarrow> batcher_inv (foldl batcher_step b ops) \<and> bt_max_items (foldl batcher_step b ops) = bt_max_items b \<and>
     concat (bt_batches (foldl batcher_step b ops)) @ bt_queue (foldl batcher_step b ops)
       = concat (bt_batches b) @ bt_queue b @ accepted b ops"
proof (induction ops arbitrary: b)
  case (Cons op ops)
  show ?case
    using Cons.IH [OF batcher_step_inv [OF Cons.prems, of op]] batcher_step_items [OF Cons.prems, of op] by simp
qed simp

section \<open>Properties\<close>


text \<open>Steps on one node and on two nodes; a server that is overloaded at first.\<close>

definition demo_step_item :: "string \<Rightarrow> string \<Rightarrow> batch_item" where
  "demo_step_item node tactic = \<lparr>bi_node = lit node, bi_token = lit ''st_a'', bi_tactics = [lit tactic],
     bi_acquire_ms = 10, bi_step_ms = 10, bi_goal_id = None, bi_resume = None, bi_group = None\<rparr>"

definition demo_queued :: "nat \<Rightarrow> string \<Rightarrow> string \<Rightarrow> queued" where
  "demo_queued i node tactic = \<lparr>qs_item = demo_step_item node tactic, qs_future = i\<rparr>"

definition demo_server :: "nat \<Rightarrow> batch_item list \<Rightarrow> send_outcome" where
  "demo_server a its = (if a = 0 then OverloadedRequest (lit ''busy'')
     else Responded (map (\<lambda>it. item_status_result it (if a = 1 then StOverloaded else StError) []) its))"

definition demo_log :: send_log where
  "demo_log = send_batch demo_server (\<lambda>a. ([], [])) 100 3 [demo_queued 0 ''n1'' ''simp'', demo_queued 1 ''n2'' ''ring''] []"



text \<open>
  The distinctness matters: the answers are looked up by node, so of two steps queued for one node both
  callers receive the result of the second, although the server answered both.
\<close>

lemma shared_node_gets_last_result:
  "let f = sl_futures (send_batch (\<lambda>a its. Responded (map (\<lambda>it. item_status_result it StError []) its)) (\<lambda>a. ([], []))
       0 0 [demo_queued 0 ''n'' ''simp'', demo_queued 1 ''n'' ''ring''] [])
   in future_of f 0 = Resolved (item_status_result (demo_step_item ''n'' ''ring'') StError []) \<and>
      future_of f 1 = Resolved (item_status_result (demo_step_item ''n'' ''ring'') StError [])"
  by code_simp

text \<open>
  The queue loses nothing: whatever submissions, flushes, timers, scheduled flush tasks and closing
  do, in any order, the batches and the queue together are exactly the accepted submissions in their
  order, each batch has between one and \<open>max_items\<close> steps, a step that is queued has a timer or a flush
  task on its way, and after closing nothing is accepted and nothing is queued.
\<close>

theorem queue_loses_nothing:
  fixes ops :: "batcher_op list"
  assumes "new_batcher max_items max_wait max_in_flight max_retries backoff = Inr b0"
  defines "b \<equiv> foldl batcher_step b0 ops"
  shows "concat (bt_batches b) @ bt_queue b = accepted b0 ops \<and>
    list_all (\<lambda>c. c \<noteq> [] \<and> int (length c) \<le> max_items) (bt_batches b) \<and>
    (bt_queue b = [] \<or> bt_timer b \<or> 0 < bt_flushes b) \<and> (bt_closed b \<longrightarrow> bt_queue b = [] \<and> submit q b = Inl BatcherClosed)"
proof -
  have b0: "batcher_inv b0" "int (bt_max_items b0) = max_items" "bt_batches b0 = []" "bt_queue b0 = []"
    using assms(1) by (auto simp: new_batcher_def batcher_inv_def split: if_splits)
  have run: "batcher_inv b" "bt_max_items b = bt_max_items b0"
    "concat (bt_batches b) @ bt_queue b = accepted b0 ops"
    using batcher_run [OF b0(1), of ops] b0(3,4) unfolding b_def by simp_all
  have "int (length c) \<le> max_items \<longleftrightarrow> length c \<le> bt_max_items b" for c :: "queued list"
    using b0(2) run(2) by (metis of_nat_le_iff)
  with run show ?thesis by (simp add: batcher_inv_def submit_def)
qed

theorem queue_loses_nothing_witness:
  "\<exists>b0. new_batcher 2 5 2 3 100 = Inr b0 \<and>
     concat (bt_batches (foldl batcher_step b0 [OpSubmit (demo_queued 0 ''a'' ''simp''), OpClose])) = [demo_queued 0 ''a'' ''simp'']"
proof -
  obtain b0 where b0: "new_batcher 2 5 2 3 100 = Inr b0" "bt_closed b0 = False" by (simp add: new_batcher_def)
  then have "bt_queue (foldl batcher_step b0 [OpSubmit (demo_queued 0 ''a'' ''simp''), OpClose]) = []"
    "accepted b0 [OpSubmit (demo_queued 0 ''a'' ''simp''), OpClose] = [demo_queued 0 ''a'' ''simp'']"
    by (simp_all add: close_batcher_def flush_def)
  with b0(1) show ?thesis
    using queue_loses_nothing [OF b0(1), of "[OpSubmit (demo_queued 0 ''a'' ''simp''), OpClose]"] by auto
qed

end
