(* ===== verification/Senders.thy ===== *)
theory Senders
  imports Batcher "HOL-Library.List_Lexorder"
begin

text \<open>
  \<open>_send_batch\<close> of \<open>lean_client/exec_env.py\<close>: batches are sent concurrently, but the steps of one item
  go out in order, so a batch takes the lock of each of its items, in sorted order, then one of the
  \<open>max_in_flight_batches\<close> slots of a semaphore, sends, and gives everything back.  A lock that is free
  may go to any batch that asks for it.
\<close>

section \<open>Senders\<close>

datatype sender_phase = Locking | Queueing | Sending | Finished

record sender =
  sd_locks :: "pystr list"
  sd_held :: nat
  sd_phase :: sender_phase

record send_sys =
  sy_max :: nat
  sy_senders :: "sender list"

text \<open>\<open>node_id.rpartition(":")\<close>: what is before the last colon, or all of it.\<close>

definition default_item_id :: "pystr \<Rightarrow> pystr" where
  "default_item_id node = (if 58 \<in> set node then rev (drop 1 (dropWhile (\<lambda>c. c \<noteq> 58) (rev node))) else node)"

definition item_locks :: "(pystr \<Rightarrow> pystr) \<Rightarrow> queued list \<Rightarrow> pystr list" where
  "item_locks item_id batch = sort (remdups (map (\<lambda>q. item_id (bi_node (qs_item q))) batch))"

definition new_sender :: "(pystr \<Rightarrow> pystr) \<Rightarrow> queued list \<Rightarrow> sender" where
  "new_sender item_id batch = \<lparr>sd_locks = item_locks item_id batch, sd_held = 0, sd_phase = Locking\<rparr>"

definition holds :: "sender \<Rightarrow> pystr \<Rightarrow> bool" where
  "holds s i \<longleftrightarrow> sd_phase s \<noteq> Finished \<and> i \<in> set (take (sd_held s) (sd_locks s))"

definition lock_free :: "pystr \<Rightarrow> send_sys \<Rightarrow> bool" where
  "lock_free i sys = list_all (\<lambda>s. \<not> holds s i) (sy_senders sys)"

definition sending :: "send_sys \<Rightarrow> nat" where
  "sending sys = length (filter (\<lambda>s. sd_phase s = Sending) (sy_senders sys))"

text \<open>What the sender at a position does next; \<open>None\<close> when it has to wait or is finished.\<close>

definition next_phase :: "sender \<Rightarrow> send_sys \<Rightarrow> sender option" where
  "next_phase s sys =
     (case sd_phase s of
        Locking \<Rightarrow>
          if sd_held s < length (sd_locks s)
          then (if lock_free (sd_locks s ! sd_held s) sys then Some (s\<lparr>sd_held := sd_held s + 1\<rparr>) else None)
          else Some (s\<lparr>sd_phase := Queueing\<rparr>)
      | Queueing \<Rightarrow> if sending sys < sy_max sys then Some (s\<lparr>sd_phase := Sending\<rparr>) else None
      | Sending \<Rightarrow> Some (s\<lparr>sd_phase := Finished\<rparr>)
      | Finished \<Rightarrow> None)"

definition advance :: "nat \<Rightarrow> send_sys \<Rightarrow> send_sys option" where
  "advance k sys = map_option (\<lambda>s. sys\<lparr>sy_senders := (sy_senders sys)[k := s]\<rparr>)
     (next_phase (sy_senders sys ! k) sys)"

inductive sender_moves :: "send_sys \<Rightarrow> send_sys \<Rightarrow> bool" where
  "k < length (sy_senders sys) \<Longrightarrow> advance k sys = Some sys' \<Longrightarrow> sender_moves sys sys'"

inductive_cases sender_movesE: "sender_moves sys sys'"

inductive send_step :: "(pystr \<Rightarrow> pystr) \<Rightarrow> send_sys \<Rightarrow> send_sys \<Rightarrow> bool" for item_id where
  step_new: "send_step item_id sys (sys\<lparr>sy_senders := sy_senders sys @ [new_sender item_id batch]\<rparr>)"
| step_move: "sender_moves sys sys' \<Longrightarrow> send_step item_id sys sys'"

inductive_cases send_stepE: "send_step item_id sys sys'"

section \<open>Invariant\<close>

definition sender_ok :: "sender \<Rightarrow> bool" where
  "sender_ok s \<longleftrightarrow> sorted_wrt (<) (sd_locks s) \<and> sd_held s \<le> length (sd_locks s) \<and>
     (sd_phase s \<noteq> Locking \<longrightarrow> sd_held s = length (sd_locks s))"

definition exclusive :: "sender list \<Rightarrow> bool" where
  "exclusive ss \<longleftrightarrow> (\<forall>i j x. i < length ss \<longrightarrow> j < length ss \<longrightarrow> i \<noteq> j \<longrightarrow> holds (ss ! i) x \<longrightarrow> \<not> holds (ss ! j) x)"

definition send_inv :: "send_sys \<Rightarrow> bool" where
  "send_inv sys \<longleftrightarrow> list_all sender_ok (sy_senders sys) \<and> exclusive (sy_senders sys) \<and> sending sys \<le> sy_max sys"

lemma new_sender_ok: "sender_ok (new_sender item_id batch)" "\<not> holds (new_sender item_id batch) x"
  by (simp_all add: sender_ok_def new_sender_def item_locks_def holds_def strict_sorted_iff)

lemma exclusiveD: "exclusive ss \<Longrightarrow> i < length ss \<Longrightarrow> j < length ss \<Longrightarrow> i \<noteq> j \<Longrightarrow> holds (ss ! i) x \<Longrightarrow> \<not> holds (ss ! j) x"
  unfolding exclusive_def by blast

lemma exclusive_append:
  assumes "exclusive ss" "\<And>x. \<not> holds s x"
  shows "exclusive (ss @ [s])"
  unfolding exclusive_def
proof (intro allI impI)
  fix i j x
  assume h: "i < length (ss @ [s])" "j < length (ss @ [s])" "i \<noteq> j" "holds ((ss @ [s]) ! i) x"
  then have "i < length ss" using assms(2) by (cases "i = length ss") simp_all
  then show "\<not> holds ((ss @ [s]) ! j) x"
    using h assms(2) exclusiveD [OF assms(1)] by (cases "j = length ss") (simp_all add: nth_append)
qed

lemma exclusive_update:
  assumes "exclusive ss" "k < length ss"
    and new: "\<And>x. holds s x \<Longrightarrow> holds (ss ! k) x \<or> list_all (\<lambda>t. \<not> holds t x) ss"
  shows "exclusive (ss[k := s])"
  unfolding exclusive_def
proof (intro allI impI)
  have other: "\<not> holds (ss ! m) x" if "holds s x" "m < length ss" "m \<noteq> k" for m x
    using new [OF that(1)] that(2,3) exclusiveD [OF assms(1,2), of m x] by (auto simp: list_all_length)
  fix i j x
  assume h: "i < length (ss[k := s])" "j < length (ss[k := s])" "i \<noteq> j" "holds (ss[k := s] ! i) x"
  show "\<not> holds (ss[k := s] ! j) x"
  proof (cases "i = k")
    case True
    then show ?thesis using h other [of x j] by simp
  next
    case False
    then have "holds (ss ! i) x" using h by simp
    then show ?thesis using h False other [of x i] exclusiveD [OF assms(1), of i j x] by (cases "j = k") auto
  qed
qed

lemma next_phase_ok:
  assumes "sender_ok s" "next_phase s sys = Some t"
  shows "sender_ok t" "holds t x \<Longrightarrow> holds s x \<or> lock_free x sys"
  using assms
  by (auto simp: next_phase_def sender_ok_def holds_def take_Suc_conv_app_nth split: sender_phase.splits if_splits)

lemma sending_update:
  assumes "k < length (sy_senders sys)" "next_phase (sy_senders sys ! k) sys = Some t" "sending sys \<le> sy_max sys"
  shows "sending (sys\<lparr>sy_senders := (sy_senders sys)[k := t]\<rparr>) \<le> sy_max sys"
proof -
  let ?P = "\<lambda>s. sd_phase s = Sending" and ?s = "sy_senders sys ! k"
  have "sending (sys\<lparr>sy_senders := (sy_senders sys)[k := t]\<rparr>) + (if ?P ?s then 1 else 0)
      = sending sys + (if ?P t then 1 else 0)"
  proof -
    have "sending sys = length (filter ?P (take k (sy_senders sys) @ ?s # drop (Suc k) (sy_senders sys)))"
      using id_take_nth_drop [OF assms(1)] by (simp add: sending_def)
    then show ?thesis using assms(1) by (simp add: sending_def upd_conv_take_nth_drop)
  qed
  then show ?thesis using assms(2,3)
    by (cases "sd_phase ?s") (auto simp: next_phase_def split: if_splits)
qed

lemma move_inv:
  assumes "send_inv sys" "sender_moves sys sys'"
  shows "send_inv sys'" "sy_max sys' = sy_max sys"
proof -
  obtain k t where k: "k < length (sy_senders sys)" "next_phase (sy_senders sys ! k) sys = Some t"
    and sys': "sys' = sys\<lparr>sy_senders := (sy_senders sys)[k := t]\<rparr>"
    using assms(2) by (auto elim!: sender_movesE simp: advance_def)
  have ok: "sender_ok (sy_senders sys ! k)" using assms(1) k(1) by (simp add: send_inv_def list_all_length)
  have "list_all sender_ok (sy_senders sys')"
    using assms(1) next_phase_ok(1) [OF ok k(2)] by (auto simp: sys' send_inv_def list_all_iff dest: set_update_subset_insert [THEN subsetD])
  moreover have "exclusive (sy_senders sys')"
    using exclusive_update [of "sy_senders sys" k t] assms(1) k(1) next_phase_ok(2) [OF ok k(2)]
    by (simp add: sys' send_inv_def lock_free_def)
  moreover have "sending sys' \<le> sy_max sys'"
    using sending_update [OF k] assms(1) by (simp add: sys' send_inv_def)
  ultimately show "send_inv sys'" "sy_max sys' = sy_max sys" by (simp_all add: send_inv_def sys')
qed

lemma new_inv: "send_inv sys \<Longrightarrow> send_inv (sys\<lparr>sy_senders := sy_senders sys @ [new_sender item_id batch]\<rparr>)"
  using new_sender_ok exclusive_append [of "sy_senders sys" "new_sender item_id batch"]
  by (simp add: send_inv_def sending_def) (simp add: new_sender_def)

lemma step_inv:
  assumes "send_step item_id sys sys'" "send_inv sys"
  shows "send_inv sys' \<and> sy_max sys' = sy_max sys"
  using assms(1)
proof cases
  case (step_new batch)
  then show ?thesis using new_inv [OF assms(2)] by simp
next
  case step_move
  then show ?thesis using move_inv [OF assms(2)] by simp
qed

interpretation sends: step_system "send_step item_id" send_inv sy_max for item_id
  by unfold_locales (rule step_inv)

section \<open>No deadlock\<close>

definition unfinished :: "send_sys \<Rightarrow> bool" where
  "unfinished sys = list_ex (\<lambda>s. sd_phase s \<noteq> Finished) (sy_senders sys)"

text \<open>The lock a sender asks for; the locks it holds come before it in the order.\<close>

lemma held_below:
  assumes "sender_ok s" "sd_held s < length (sd_locks s)" "holds s x"
  shows "x < sd_locks s ! sd_held s"
  using assms by (auto simp: sender_ok_def holds_def in_set_conv_nth sorted_wrt_iff_nth_less)

lemma blocked_sender:
  assumes "sender_ok s" "sd_phase s \<noteq> Finished" "next_phase s sys = None" "sending sys = 0" "0 < sy_max sys"
  shows "sd_phase s = Locking" "sd_held s < length (sd_locks s)" "\<not> lock_free (sd_locks s ! sd_held s) sys"
  using assms by (auto simp: next_phase_def split: sender_phase.splits if_splits)

lemma progress:
  assumes inv: "send_inv sys" "0 < sy_max sys" and busy: "unfinished sys"
  shows "\<exists>sys'. sender_moves sys sys'"
proof (rule ccontr)
  assume stuck: "\<not> ?thesis"
  let ?U = "{s \<in> set (sy_senders sys). sd_phase s \<noteq> Finished}"
  have none: "next_phase s sys = None" if s: "s \<in> set (sy_senders sys)" for s
  proof -
    obtain k where k: "k < length (sy_senders sys)" "sy_senders sys ! k = s" using s by (auto simp: in_set_conv_nth)
    have "advance k sys \<noteq> Some u" for u using stuck sender_moves.intros [OF k(1)] by blast
    then show ?thesis using k(2) by (cases "next_phase s sys") (auto simp: advance_def)
  qed
  have "sd_phase s \<noteq> Sending" if "s \<in> set (sy_senders sys)" for s
    using none [OF that] by (auto simp: next_phase_def)
  then have idle: "sending sys = 0" by (simp add: sending_def filter_empty_conv)
  have ok: "sender_ok s" if "s \<in> set (sy_senders sys)" for s using inv(1) that by (simp add: send_inv_def list_all_iff)
  have blocked: "sd_held s < length (sd_locks s)" "\<not> lock_free (sd_locks s ! sd_held s) sys" if "s \<in> ?U" for s
    using blocked_sender [OF ok _ none idle inv(2)] that by auto
  define wants where "wants = (\<lambda>s :: sender. sd_locks s ! sd_held s)"
  have ne: "finite (wants ` ?U)" "wants ` ?U \<noteq> {}" using busy by (auto simp: unfinished_def list_ex_iff)
  obtain s where s: "s \<in> ?U" "wants s = Max (wants ` ?U)" using Max_in [OF ne] unfolding image_iff by metis
  then have top: "wants t \<le> wants s" if "t \<in> ?U" for t using Max_ge [OF ne(1)] that by simp
  obtain t where t: "t \<in> ?U" "holds t (wants s)"
    using blocked(2) [OF s(1)] by (auto simp: lock_free_def list_all_iff wants_def holds_def)
  have "wants s < wants t" using held_below [OF ok blocked(1) t(2)] t(1) by (simp add: wants_def)
  then show False using top [OF t(1)] by simp
qed

text \<open>The moves that are left; each move takes one.\<close>

definition sender_work :: "sender \<Rightarrow> nat" where
  "sender_work s = (case sd_phase s of Locking \<Rightarrow> length (sd_locks s) - sd_held s + 3
     | Queueing \<Rightarrow> 2 | Sending \<Rightarrow> 1 | Finished \<Rightarrow> 0)"

definition work_left :: "send_sys \<Rightarrow> nat" where
  "work_left sys = sum_list (map sender_work (sy_senders sys))"

lemma move_work: "sender_moves sys sys' \<Longrightarrow> work_left sys' < work_left sys"
proof (elim sender_movesE)
  fix k
  assume k: "k < length (sy_senders sys)" "advance k sys = Some sys'"
  then obtain t where t: "next_phase (sy_senders sys ! k) sys = Some t"
    "sys' = sys\<lparr>sy_senders := (sy_senders sys)[k := t]\<rparr>" by (auto simp: advance_def)
  have "sender_work t < sender_work (sy_senders sys ! k)"
    using t(1) by (auto simp: next_phase_def sender_work_def split: sender_phase.splits if_splits)
  moreover have "work_left sys = sum_list (map sender_work (take k (sy_senders sys)
      @ sy_senders sys ! k # drop (Suc k) (sy_senders sys)))"
    using id_take_nth_drop [OF k(1)] by (simp add: work_left_def)
  ultimately show ?thesis using k(1) by (simp add: work_left_def t(2) upd_conv_take_nth_drop)
qed

lemma drains:
  assumes "send_inv sys" "0 < sy_max sys"
  shows "\<exists>sys'. reaches sender_moves sys sys' \<and> \<not> unfinished sys'"
  using assms
proof (induction "work_left sys" arbitrary: sys rule: less_induct)
  case less
  show ?case
  proof (cases "unfinished sys")
    case True
    then obtain s1 where s1: "sender_moves sys s1" using progress less.prems by blast
    then obtain s2 where s2: "reaches sender_moves s1 s2" "\<not> unfinished s2"
      using less.hyps [OF move_work [OF s1]] move_inv [OF less.prems(1) s1] less.prems(2) by auto
    have "reaches sender_moves sys s1" using reaches_refl s1 by (rule reaches_step)
    with s2(1) have "reaches sender_moves sys s2" by (rule reaches_trans)
    with s2(2) show ?thesis by blast
  qed blast
qed

section \<open>Properties\<close>

definition no_senders :: "nat \<Rightarrow> send_sys" where
  "no_senders m = \<lparr>sy_max = m, sy_senders = []\<rparr>"

lemma no_senders_inv: "send_inv (no_senders m)"
  by (simp add: no_senders_def send_inv_def exclusive_def sending_def)

text \<open>
  C29. The locks cannot deadlock: from every state that arrivals and moves reach, the batches under way
  can all finish without any further arrival; as long as one is unfinished some batch can move; and a
  move uses up one of the finitely many that are left, so any order of moves gets there.
\<close>

theorem senders_never_deadlock:
  assumes "reaches (send_step item_id) (no_senders m) sys" "0 < m"
  shows "(\<exists>sys'. reaches sender_moves sys sys' \<and> \<not> unfinished sys') \<and>
    (unfinished sys \<longrightarrow> (\<exists>sys'. sender_moves sys sys')) \<and>
    (sender_moves sys next_sys \<longrightarrow> work_left next_sys < work_left sys)"
proof -
  have "send_inv sys" "sy_max sys = m" using sends.reached [OF assms(1) no_senders_inv] by (simp_all add: no_senders_def)
  then show ?thesis using drains progress assms(2) move_work by blast
qed

text \<open>Two batches about two items in common, taken in opposite orders of their steps.\<close>

definition demo_senders :: send_sys where
  "demo_senders = \<lparr>sy_max = 1, sy_senders =
     [new_sender default_item_id [demo_queued 0 ''a:1'' ''simp'', demo_queued 1 ''b:1'' ''simp''],
      new_sender default_item_id [demo_queued 2 ''b:2'' ''simp'', demo_queued 3 ''a:2'' ''simp'']]\<rparr>"

lemma demo_senders_reached: "reaches (send_step default_item_id) (no_senders 1) demo_senders"
proof -
  let ?b1 = "[demo_queued 0 ''a:1'' ''simp'', demo_queued 1 ''b:1'' ''simp'']"
  let ?b2 = "[demo_queued 2 ''b:2'' ''simp'', demo_queued 3 ''a:2'' ''simp'']"
  let ?s1 = "\<lparr>sy_max = 1, sy_senders = [new_sender default_item_id ?b1]\<rparr>"
  have "send_step default_item_id (no_senders 1) ?s1" "send_step default_item_id ?s1 demo_senders"
    using step_new [of default_item_id "no_senders 1" ?b1] step_new [of default_item_id ?s1 ?b2]
    by (simp_all add: no_senders_def demo_senders_def)
  then show ?thesis by (meson reaches_refl reaches_step)
qed

theorem senders_never_deadlock_witness:
  "\<exists>sys'. reaches sender_moves demo_senders sys' \<and> \<not> unfinished sys'"
  using senders_never_deadlock [OF demo_senders_reached] by simp

text \<open>
  C30. One batch per item at a time: in every reachable state at most \<open>max_in_flight_batches\<close> batches are
  being sent, and two of them have no item in common, so the steps of an item reach the server in the
  order in which their batches took its lock.
\<close>

theorem items_sent_one_at_a_time:
  assumes "reaches (send_step item_id) (no_senders m) sys"
    and "i < length (sy_senders sys)" "j < length (sy_senders sys)" "i \<noteq> j"
    and "sd_phase (sy_senders sys ! i) = Sending" "sd_phase (sy_senders sys ! j) = Sending"
  shows "sending sys \<le> m \<and> set (sd_locks (sy_senders sys ! i)) \<inter> set (sd_locks (sy_senders sys ! j)) = {}"
proof -
  have inv: "send_inv sys" "sy_max sys = m" using sends.reached [OF assms(1) no_senders_inv] by (simp_all add: no_senders_def)
  have "holds (sy_senders sys ! k) x" if "x \<in> set (sd_locks (sy_senders sys ! k))" "k < length (sy_senders sys)"
    "sd_phase (sy_senders sys ! k) = Sending" for k x
    using inv(1) that by (auto simp: send_inv_def list_all_length sender_ok_def holds_def)
  then have "holds (sy_senders sys ! i) x" "holds (sy_senders sys ! j) x"
    if "x \<in> set (sd_locks (sy_senders sys ! i))" "x \<in> set (sd_locks (sy_senders sys ! j))" for x
    using that assms(2,3,5,6) by blast+
  moreover have "exclusive (sy_senders sys)" "sending sys \<le> m" using inv by (simp_all add: send_inv_def)
  ultimately show ?thesis using exclusiveD [OF _ assms(2-4)] by blast
qed

text \<open>Three batches, the second of which shares an item with the first: the first and the third are sent.\<close>

fun move_all :: "nat list \<Rightarrow> send_sys \<Rightarrow> send_sys option" where
  "move_all [] sys = Some sys"
| "move_all (k # ks) sys =
     (if k < length (sy_senders sys) then Option.bind (advance k sys) (move_all ks) else None)"

lemma move_all_reaches: "move_all ks sys = Some t \<Longrightarrow> reaches (send_step item_id) s0 sys \<Longrightarrow> reaches (send_step item_id) s0 t"
proof (induction ks arbitrary: sys)
  case (Cons k ks)
  then obtain u where u: "k < length (sy_senders sys)" "advance k sys = Some u" "move_all ks u = Some t"
    by (auto split: if_splits Option.bind_splits)
  have "send_step item_id sys u" using sender_moves.intros [OF u(1,2)] by (rule step_move)
  then show ?case using Cons.IH [OF u(3)] reaches_step [OF Cons.prems(2)] by blast
qed simp

definition demo_waiting :: send_sys where
  "demo_waiting = \<lparr>sy_max = 2, sy_senders = map (\<lambda>node. new_sender default_item_id [demo_queued 0 node ''simp''])
     [''a:1'', ''a:2'', ''b:1'']\<rparr>"

definition demo_two :: send_sys where
  "demo_two = the (move_all [0, 0, 0, 2, 2, 2] demo_waiting)"

lemma demo_two_reached: "reaches (send_step default_item_id) (no_senders 2) demo_two"
proof -
  have w: "reaches (send_step default_item_id) (no_senders 2) demo_waiting"
    using reaches_step [OF reaches_step [OF reaches_step [OF reaches_refl [of "send_step default_item_id" "no_senders 2"] step_new] step_new] step_new,
        of "[demo_queued 0 ''a:1'' ''simp'']" "[demo_queued 0 ''a:2'' ''simp'']" "[demo_queued 0 ''b:1'' ''simp'']"]
    by (simp add: no_senders_def demo_waiting_def)
  have "move_all [0, 0, 0, 2, 2, 2] demo_waiting \<noteq> None" by code_simp
  then have "move_all [0, 0, 0, 2, 2, 2] demo_waiting = Some demo_two" by (simp add: demo_two_def)
  then show ?thesis using w by (rule move_all_reaches)
qed

theorem items_sent_one_at_a_time_witness:
  "sending demo_two \<le> 2 \<and> set (sd_locks (sy_senders demo_two ! 0)) \<inter> set (sd_locks (sy_senders demo_two ! 2)) = {}"
proof -
  have "0 < length (sy_senders demo_two)" "2 < length (sy_senders demo_two)" "(0::nat) \<noteq> 2"
    "sd_phase (sy_senders demo_two ! 0) = Sending" "sd_phase (sy_senders demo_two ! 2) = Sending"
    by code_simp+
  then show ?thesis by (rule items_sent_one_at_a_time [OF demo_two_reached])
qed

end
