(* ===== verification/ExecEnv.thy ===== *)
theory ExecEnv
  imports ServerConfig Batcher
begin

text \<open>
  The route \<open>/exec/limits\<close> of \<open>server/routers/exec.py\<close> with the client side that reads it:
  \<open>from_server_limits\<close>, \<open>AsyncLeanExecEnv\<close> and \<open>_exec_env_utils.py\<close> of the client library.
\<close>

section \<open>Limits\<close>

record limits_response =
  lr_items :: int
  lr_tactics :: int
  lr_attempts :: int
  lr_creates :: int
  lr_workers :: int
  lr_lean_processes :: int
  lr_in_flight :: int
  lr_queued :: int
  lr_store_bytes :: int
  lr_unbounded :: bool
  lr_acquire :: int
  lr_step :: int
  lr_rec_items :: int
  lr_rec_batches :: int
  lr_single :: bool
  lr_pipelining :: bool
  lr_policy :: pystr

definition limits_of :: "exec_config \<Rightarrow> limits_response" where
  "limits_of c = \<lparr>lr_items = xc_items c, lr_tactics = xc_tactics c, lr_attempts = xc_attempts c,
     lr_creates = xc_creates c, lr_workers = xc_workers c, lr_lean_processes = xc_lean_processes c,
     lr_in_flight = xc_in_flight c, lr_queued = xc_queued c, lr_store_bytes = xc_store_bytes c,
     lr_unbounded = xc_unbounded c, lr_acquire = xc_acquire c, lr_step = xc_step c,
     lr_rec_items = xc_rec_items c, lr_rec_batches = xc_rec_batches c, lr_single = xc_single c,
     lr_pipelining = False, lr_policy = lit ''defer_while_in_flight''\<rparr>"

text \<open>The names of the caps that are advertised as unbounded; any of them is an error.\<close>

definition unbounded_limits :: "limits_response \<Rightarrow> pystr list" where
  "unbounded_limits l = map fst (filter (\<lambda>p. snd p = - 1)
     [(lit ''max_in_flight_exec_requests'', lr_in_flight l), (lit ''max_queued_exec_requests'', lr_queued l),
      (lit ''max_state_store_bytes'', lr_store_bytes l)])"

datatype env_error = UnsafeServer "pystr list" | BadBatcherSize batcher_error | NodeMissing pystr

definition validate_finite_exec_limits :: "limits_response \<Rightarrow> env_error + unit" where
  "validate_finite_exec_limits l =
     (let names = unbounded_limits l in if names = [] then Inr () else Inl (UnsafeServer names))"

definition from_server_limits :: "limits_response \<Rightarrow> int \<Rightarrow> int \<Rightarrow> env_error + batcher" where
  "from_server_limits l retries backoff =
     ebind (validate_finite_exec_limits l) (\<lambda>_.
       case new_batcher (lr_rec_items l) 0 (lr_rec_batches l) retries backoff of
         Inl e \<Rightarrow> Inl (BadBatcherSize e)
       | Inr b \<Rightarrow> Inr b)"

section \<open>The environment\<close>

text \<open>\<open>a or b\<close> on an optional number: zero counts as absent.\<close>

definition or_else :: "int option \<Rightarrow> int option \<Rightarrow> int option" where
  "or_else a b = (case a of Some n \<Rightarrow> if n \<noteq> 0 then Some n else b | None \<Rightarrow> b)"

record exec_env =
  ee_profile :: pystr
  ee_acquire :: int
  ee_step :: int
  ee_timeout :: int

definition new_exec_env :: "pystr \<Rightarrow> int \<Rightarrow> int option \<Rightarrow> int option \<Rightarrow> exec_env" where
  "new_exec_env profile timeout acq step =
     (let a = the (or_else acq (Some timeout)); s = the (or_else step (Some timeout))
      in \<lparr>ee_profile = profile, ee_acquire = a, ee_step = s, ee_timeout = s\<rparr>)"

definition item_timeouts :: "exec_env \<Rightarrow> int option \<Rightarrow> int option \<Rightarrow> int option \<Rightarrow> int \<times> int" where
  "item_timeouts env timeout acq step =
     (the (or_else acq (or_else timeout (Some (ee_acquire env)))),
      the (or_else step (or_else timeout (Some (ee_step env)))))"

definition step_item :: "exec_env \<Rightarrow> pystr \<Rightarrow> pystr \<Rightarrow> pystr list \<Rightarrow> int option \<Rightarrow> int option \<Rightarrow> int option
    \<Rightarrow> int list option \<Rightarrow> batch_item" where
  "step_item env node token tactics timeout acq step goal_group =
     (let (a, s) = item_timeouts env timeout acq step
      in \<lparr>bi_node = node, bi_token = token, bi_tactics = tactics, bi_acquire_ms = a, bi_step_ms = s,
          bi_goal_id = None, bi_resume = None, bi_group = goal_group\<rparr>)"

definition env_profile_of :: "exec_env \<Rightarrow> pystr option \<Rightarrow> pystr" where
  "env_profile_of env profile = (case profile of None \<Rightarrow> ee_profile env
     | Some p \<Rightarrow> if p = [] then ee_profile env else p)"

definition single_step_result :: "batch_result list \<Rightarrow> pystr \<Rightarrow> env_error + batch_result" where
  "single_step_result items node =
     (case find (\<lambda>r. br_node r = node) items of None \<Rightarrow> Inl (NodeMissing node) | Some r \<Rightarrow> Inr r)"

text \<open>\<open>step_node\<close> over a server that answers a batch.\<close>

definition step_node :: "(batch_item list \<Rightarrow> batch_result list) \<Rightarrow> batch_item \<Rightarrow> env_error + batch_result" where
  "step_node server it = single_step_result (server [it]) (bi_node it)"

lemma item_timeouts_given:
  "a \<noteq> 0 \<Longrightarrow> s \<noteq> 0 \<Longrightarrow> item_timeouts env t (Some a) (Some s) = (a, s)"
  "item_timeouts env (Some 0) None None = (ee_acquire env, ee_step env)"
  by (simp_all add: item_timeouts_def or_else_def)

lemma step_node_own:
  "map br_node (server [it]) = [bi_node it] \<Longrightarrow> step_node server it = Inr (hd (server [it]))"
  by (auto simp: step_node_def single_step_result_def)

section \<open>Sizing a batcher from a server\<close>

lemma unbounded_limits_Nil:
  "unbounded_limits l = [] \<longleftrightarrow> lr_in_flight l \<noteq> - 1 \<and> lr_queued l \<noteq> - 1 \<and> lr_store_bytes l \<noteq> - 1"
  by (simp add: unbounded_limits_def)

lemma new_batcher_ok:
  "0 < n \<Longrightarrow> 0 \<le> retries \<Longrightarrow> 0 \<le> backoff \<Longrightarrow> 0 < k \<Longrightarrow> \<exists>b. new_batcher n 0 k retries backoff = Inr b \<and> int (bt_max_items b) = n"
  "k \<le> 0 \<Longrightarrow> \<exists>e. new_batcher n 0 k retries backoff = Inl e"
  by (auto simp: new_batcher_def)

text \<open>
  A batcher can be sized from the limits of a server whose configuration passes the server's checks
  exactly when none of the caps is unbounded and the recommended number of batches is positive; it then
  sends batches of at most the recommended number of items, which a server accepts when that number
  does not exceed its own maximum.
\<close>

theorem batcher_sized_from_server:
  assumes "check_server_config c = Inr ()" "0 \<le> retries" "0 \<le> backoff"
  shows "case from_server_limits (limits_of c) retries backoff of
      Inr b \<Rightarrow> (xc_in_flight c \<noteq> - 1 \<and> xc_queued c \<noteq> - 1 \<and> xc_store_bytes c \<noteq> - 1) \<and> 0 < xc_rec_batches c \<and>
        int (bt_max_items b) = xc_rec_items c
    | Inl e \<Rightarrow> xc_in_flight c = - 1 \<or> xc_queued c = - 1 \<or> xc_store_bytes c = - 1 \<or> xc_rec_batches c \<le> 0"
proof -
  have pos: "0 < xc_rec_items c"
    using assms(1) by (auto simp: check_server_config_def positive_fields_def split: if_splits)
  show ?thesis
  proof (cases "unbounded_limits (limits_of c) = []")
    case True
    then have caps: "xc_in_flight c \<noteq> - 1" "xc_queued c \<noteq> - 1" "xc_store_bytes c \<noteq> - 1"
      by (simp_all add: unbounded_limits_Nil limits_of_def)
    have v: "validate_finite_exec_limits (limits_of c) = Inr ()" using True by (simp add: validate_finite_exec_limits_def)
    show ?thesis
    proof (cases "0 < xc_rec_batches c")
      case True
      obtain b where "new_batcher (xc_rec_items c) 0 (xc_rec_batches c) retries backoff = Inr b"
        "int (bt_max_items b) = xc_rec_items c" using new_batcher_ok(1) pos assms(2,3) True by blast
      then show ?thesis using v caps True by (simp add: from_server_limits_def limits_of_def)
    next
      case False
      then obtain e where "new_batcher (xc_rec_items c) 0 (xc_rec_batches c) retries backoff = Inl e"
        using new_batcher_ok(2) by (meson not_less)
      then show ?thesis using v False by (simp add: from_server_limits_def limits_of_def)
    qed
  next
    case False
    then have "xc_in_flight c = - 1 \<or> xc_queued c = - 1 \<or> xc_store_bytes c = - 1"
      by (simp add: unbounded_limits_Nil limits_of_def)
    then show ?thesis using False by (auto simp: from_server_limits_def validate_finite_exec_limits_def Let_def)
  qed
qed

theorem batcher_sized_from_server_witness:
  "\<exists>b. from_server_limits (limits_of sample_config) 3 100 = Inr b \<and> int (bt_max_items b) = 4"
proof -
  have "check_server_config sample_config = Inr ()" "xc_in_flight sample_config = 4" "xc_queued sample_config = 16"
    "xc_store_bytes sample_config = 16 * 2 ^ 30" "xc_rec_batches sample_config = 8" "xc_rec_items sample_config = 4"
    by code_simp+
  then show ?thesis using batcher_sized_from_server [of sample_config 3 100] by (auto split: sum.splits)
qed

text \<open>
  Neither side compares the recommended number of items with the maximum: with more workers than
  \<open>max_items_per_step_batch\<close> the defaults recommend batches that the server rejects.
\<close>

lemma recommended_batch_too_large:
  "check_server_config (fill_config 2000 []) = Inr ()"
  "xc_items (fill_config 2000 []) < xc_rec_items (fill_config 2000 [])"
  by code_simp+

end
