(* ===== verification/ServerLock.thy ===== *)
theory ServerLock
  imports StoreRuns ServerConfig
begin

text \<open>
  \<open>server/single_process_lock.py\<close> and its use by the start and the end of the \<open>/exec\<close> server
  (\<open>server/main.py\<close>).  The lock is a file in the directory of the state store, locked with \<open>flock\<close>: what
  is locked is the file that was opened (an inode), not its name.  Processes are numbered.
\<close>

section \<open>The lock file\<close>

definition lock_name :: pystr where
  "lock_name = lit ''.kimina-lean-server.lock''"

text \<open>
  The directory, the inode that the name of the lock file stands for (when there is such a file), the
  next new inode, and the process that has each inode locked.
\<close>

record lock_fs =
  lf_files :: directory
  lf_inode :: nat
  lf_fresh :: nat
  lf_owner :: "(nat, nat) pydict"

text \<open>\<open>open("a+")\<close>, which makes the file if there is none\<close>

definition open_lock :: "int \<Rightarrow> lock_fs \<Rightarrow> nat \<times> lock_fs" where
  "open_lock now fs =
     (if dget (lf_files fs) lock_name = None
      then (lf_fresh fs, fs\<lparr>lf_files := dset lock_name \<lparr>fl_content = Unreadable, fl_mtime = now\<rparr> (lf_files fs),
                            lf_inode := lf_fresh fs, lf_fresh := Suc (lf_fresh fs)\<rparr>)
      else (lf_inode fs, fs))"

text \<open>\<open>flock(LOCK_EX | LOCK_NB)\<close> and the process number written to the file, wherever its name is by then\<close>

definition flock_lock :: "nat \<Rightarrow> int \<Rightarrow> nat \<Rightarrow> lock_fs \<Rightarrow> lock_fs option" where
  "flock_lock p now i fs =
     (if dget (lf_owner fs) i \<noteq> None then None
      else Some (fs\<lparr>lf_owner := dset i p (lf_owner fs),
             lf_files := (if dget (lf_files fs) lock_name \<noteq> None \<and> lf_inode fs = i
                          then dset lock_name \<lparr>fl_content = Unreadable, fl_mtime = now\<rparr> (lf_files fs)
                          else lf_files fs)\<rparr>))"

definition unlock_lock :: "nat \<Rightarrow> lock_fs \<Rightarrow> lock_fs" where
  "unlock_lock i fs = fs\<lparr>lf_owner := dpop i (lf_owner fs)\<rparr>"

text \<open>\<open>lock_path.unlink(missing_ok=True)\<close>\<close>

definition unlink_lock :: "lock_fs \<Rightarrow> lock_fs" where
  "unlink_lock fs = fs\<lparr>lf_files := dpop lock_name (lf_files fs)\<rparr>"

section \<open>The lock object\<close>

text \<open>\<open>_file\<close> is the locked inode, if any; \<open>None\<close> as result is \<open>SingleProcessLockError\<close>.\<close>

definition acquire_lock :: "nat \<Rightarrow> int \<Rightarrow> nat option \<Rightarrow> lock_fs \<Rightarrow> nat option \<times> lock_fs" where
  "acquire_lock p now file fs =
     (case file of
        Some i \<Rightarrow> (Some i, fs)
      | None \<Rightarrow>
          (let (i, fs1) = open_lock now fs
           in case flock_lock p now i fs1 of
                None \<Rightarrow> (None, fs1)
              | Some fs2 \<Rightarrow> (Some i, fs2)))"

definition release_lock :: "nat option \<Rightarrow> lock_fs \<Rightarrow> lock_fs" where
  "release_lock file fs = (case file of None \<Rightarrow> fs | Some i \<Rightarrow> unlink_lock (unlock_lock i fs))"

section \<open>Start and end of the server\<close>

text \<open>The directory after the loop of \<open>_rehydrate\<close>, which may end with an exception.\<close>

fun rehydrated_files :: "pystr list \<Rightarrow> directory \<Rightarrow> directory" where
  "rehydrated_files [] files = files"
| "rehydrated_files (name # names) files =
     (case read_metadata name files of
        Inl e \<Rightarrow> files
      | Inr (r, files') \<Rightarrow> rehydrated_files names files')"

definition opened_files :: "int \<Rightarrow> int \<Rightarrow> directory \<Rightarrow> directory" where
  "opened_files ttl max_bytes files =
     (if ttl \<le> 0 \<or> max_bytes < - 1 then files
      else rehydrated_files (filter (ends_with (lit ''.json'')) (map fst files)) files)"

datatype start_error = CapsRefused config_error | AlreadyRunning | StoreFailed store_error

text \<open>
  \<open>lifespan\<close> in exec mode up to the store, and its \<open>finally\<close> when one of these steps raises.  The result
  is the store and the lock's \<open>_file\<close>.
\<close>

definition start_server ::
  "nat \<Rightarrow> int \<Rightarrow> int \<Rightarrow> settings \<Rightarrow> lock_fs \<Rightarrow> (start_error + store \<times> nat option) \<times> lock_fs" where
  "start_server p now ttl s fs =
     (case validate_bounded_exec_caps (sg_config s) of
        Inl e \<Rightarrow> (Inl (CapsRefused e), fs)
      | Inr _ \<Rightarrow>
          (let (file, fs1) = (if xc_single (sg_config s) then acquire_lock p now None fs else (None, fs))
           in if xc_single (sg_config s) \<and> file = None then (Inl AlreadyRunning, release_lock None fs1)
              else (let max_bytes = xc_store_bytes (sg_config s);
                        fs2 = fs1\<lparr>lf_files := opened_files ttl max_bytes (lf_files fs1)\<rparr>
                    in case new_store ttl max_bytes (lf_files fs1) of
                         Inl e \<Rightarrow> (Inl (StoreFailed e), release_lock file fs2)
                       | Inr st \<Rightarrow> (Inr (st, file), fs2))))"

definition stop_server :: "nat option \<Rightarrow> lock_fs \<Rightarrow> lock_fs" where
  "stop_server file fs = release_lock file fs"

text \<open>One round of \<open>run_state_gc\<close> in a server with store \<open>st\<close>, on the directory as it is.\<close>

definition gc_directory :: "int \<Rightarrow> store \<Rightarrow> lock_fs \<Rightarrow> lock_fs" where
  "gc_directory now st fs =
     fs\<lparr>lf_files := st_files (fst (gc_expired now (st\<lparr>st_files := lf_files fs\<rparr>)))\<rparr>"

section \<open>Processes\<close>

text \<open>Where a process is: outside, between \<open>open\<close> and \<open>flock\<close>, holding, or between unlocking and \<open>unlink\<close>.\<close>

datatype lock_phase = Outside | Opened nat | Locked nat | Closing

record lock_sys =
  ls_fs :: lock_fs
  ls_phase :: "nat \<Rightarrow> lock_phase"

definition enter :: "nat \<Rightarrow> lock_phase \<Rightarrow> lock_fs \<Rightarrow> lock_sys \<Rightarrow> lock_sys" where
  "enter p ph fs s = s\<lparr>ls_fs := fs, ls_phase := (ls_phase s)(p := ph)\<rparr>"

text \<open>Every system call of every process, in any order.  The kernel unlocks the file of a process that dies.\<close>

inductive lock_step :: "lock_sys \<Rightarrow> lock_sys \<Rightarrow> bool" where
  step_open: "ls_phase s p = Outside \<Longrightarrow> open_lock now (ls_fs s) = (i, fs) \<Longrightarrow> lock_step s (enter p (Opened i) fs s)"
| step_locked: "ls_phase s p = Opened i \<Longrightarrow> flock_lock p now i (ls_fs s) = Some fs \<Longrightarrow> lock_step s (enter p (Locked i) fs s)"
| step_refused: "ls_phase s p = Opened i \<Longrightarrow> flock_lock p now i (ls_fs s) = None \<Longrightarrow> lock_step s (enter p Outside (ls_fs s) s)"
| step_unlock: "ls_phase s p = Locked i \<Longrightarrow> lock_step s (enter p Closing (unlock_lock i (ls_fs s)) s)"
| step_unlink: "ls_phase s p = Closing \<Longrightarrow> lock_step s (enter p Outside (unlink_lock (ls_fs s)) s)"
| step_died: "ls_phase s p = Locked i \<Longrightarrow> lock_step s (enter p Outside (unlock_lock i (ls_fs s)) s)"

text \<open>The same with \<open>acquire\<close> and \<open>release\<close> run without interruption.\<close>

inductive serial_lock_step :: "lock_sys \<Rightarrow> lock_sys \<Rightarrow> bool" where
  serial_acquire: "ls_phase s p = Outside \<Longrightarrow> acquire_lock p now None (ls_fs s) = (Some i, fs) \<Longrightarrow>
     serial_lock_step s (enter p (Locked i) fs s)"
| serial_refused: "ls_phase s p = Outside \<Longrightarrow> acquire_lock p now None (ls_fs s) = (None, fs) \<Longrightarrow>
     serial_lock_step s (enter p Outside fs s)"
| serial_release: "ls_phase s p = Locked i \<Longrightarrow> serial_lock_step s (enter p Outside (release_lock (Some i) (ls_fs s)) s)"
| serial_died: "ls_phase s p = Locked i \<Longrightarrow> serial_lock_step s (enter p Outside (unlock_lock i (ls_fs s)) s)"

text \<open>No process, no lock; other files may be there, and a lock file left by a process that died.\<close>

definition no_locks :: "directory \<Rightarrow> lock_sys" where
  "no_locks files = \<lparr>ls_fs = \<lparr>lf_files = files, lf_inode = 0, lf_fresh = 1, lf_owner = []\<rparr>, ls_phase = (\<lambda>p. Outside)\<rparr>"

section \<open>Facts\<close>

lemmas lock_defs = open_lock_def flock_lock_def unlock_lock_def unlink_lock_def

text \<open>Between serial steps: inodes in use are old, a locked inode is its owner's, and it has the name.\<close>

definition serial_inv :: "lock_sys \<Rightarrow> bool" where
  "serial_inv s \<longleftrightarrow> dwf (lf_owner (ls_fs s)) \<and> lf_inode (ls_fs s) < lf_fresh (ls_fs s) \<and>
     (\<forall>p i. ls_phase s p = Locked i \<longrightarrow> dget (lf_owner (ls_fs s)) i = Some p \<and> i = lf_inode (ls_fs s) \<and>
        dget (lf_files (ls_fs s)) lock_name \<noteq> None) \<and>
     (\<forall>i p. dget (lf_owner (ls_fs s)) i = Some p \<longrightarrow> ls_phase s p = Locked i)"

lemma serial_invD:
  assumes "serial_inv s"
  shows "dwf (lf_owner (ls_fs s))" "lf_inode (ls_fs s) < lf_fresh (ls_fs s)"
    and "ls_phase s p = Locked i \<Longrightarrow> dget (lf_owner (ls_fs s)) i = Some p"
    and "ls_phase s p = Locked i \<Longrightarrow> i = lf_inode (ls_fs s)"
    and "ls_phase s p = Locked i \<Longrightarrow> dget (lf_files (ls_fs s)) lock_name \<noteq> None"
    and "dget (lf_owner (ls_fs s)) i = Some p \<Longrightarrow> ls_phase s p = Locked i"
  using assms unfolding serial_inv_def by blast+

lemma serial_holder_unique:
  assumes "serial_inv s" "ls_phase s p = Locked i" "ls_phase s q = Locked j"
  shows "p = q"
  using serial_invD(3,4) [OF assms(1,2)] serial_invD(3,4) [OF assms(1,3)] by simp

lemma acquire_result:
  assumes "acquire_lock p now None fs = (Some i, fs')" "lf_inode fs < lf_fresh fs"
  shows "lf_owner fs' = dset i p (lf_owner fs)" "i = lf_inode fs'" "dget (lf_files fs') lock_name \<noteq> None"
    "lf_inode fs' < lf_fresh fs'" "dget (lf_owner fs) i = None"
    "dget (lf_files fs) lock_name = None \<or> lf_inode fs' = lf_inode fs"
  using assms by (auto simp: acquire_lock_def lock_defs split: if_splits)

lemma acquire_refused:
  assumes "acquire_lock p now None fs = (None, fs')"
  shows "\<exists>i. dget (lf_owner fs) i \<noteq> None \<and>
    (dget (lf_files fs) lock_name = None \<and> i = lf_fresh fs \<or> fs' = fs \<and> i = lf_inode fs)"
  using assms by (auto simp: acquire_lock_def lock_defs split: if_splits)

text \<open>A successful acquire finds nobody holding the lock.\<close>

lemma acquire_free:
  assumes "serial_inv s" "acquire_lock p now None (ls_fs s) = (Some i, fs)"
  shows "ls_phase s q \<noteq> Locked k" "dget (lf_owner (ls_fs s)) k = None"
proof -
  note res = acquire_result [OF assms(2) serial_invD(2) [OF assms(1)]]
  show "ls_phase s q \<noteq> Locked k" for q k
  proof
    assume l: "ls_phase s q = Locked k"
    note d = serial_invD(3-5) [OF assms(1) l]
    have "lf_inode fs = lf_inode (ls_fs s)" using res(6) d(3) by blast
    then have "i = k" using res(2) d(2) by simp
    then show False using res(5) d(1) by simp
  qed
  then show "dget (lf_owner (ls_fs s)) k = None"
    using serial_invD(6) [OF assms(1)] by (cases "dget (lf_owner (ls_fs s)) k") blast+
qed

lemma serial_inv_free:
  assumes "dwf (lf_owner fs)" "lf_inode fs < lf_fresh fs" "\<And>q k. ph q \<noteq> Locked k" "\<And>k. dget (lf_owner fs) k = None"
  shows "serial_inv (s\<lparr>ls_fs := fs, ls_phase := ph\<rparr>)"
  using assms by (simp add: serial_inv_def)

lemma serial_inv_leave:
  assumes "serial_inv s" "ls_phase s p = Locked i" "lf_owner fs = dpop i (lf_owner (ls_fs s))"
    "lf_inode fs = lf_inode (ls_fs s)" "lf_fresh fs = lf_fresh (ls_fs s)"
  shows "serial_inv (enter p Outside fs s)"
  unfolding enter_def
proof (rule serial_inv_free)
  show "((ls_phase s)(p := Outside)) q \<noteq> Locked k" for q k
    using serial_holder_unique [OF assms(1,2)] by auto
  show "dget (lf_owner fs) k = None" for k
  proof (cases "k = i")
    case False
    have "dget (lf_owner (ls_fs s)) k = None"
    proof (rule ccontr)
      assume "dget (lf_owner (ls_fs s)) k \<noteq> None"
      then obtain q where "ls_phase s q = Locked k" using serial_invD(6) [OF assms(1)] by blast
      then show False using serial_invD(4) [OF assms(1)] assms(2) False by metis
    qed
    then show ?thesis using assms(3) by simp
  qed (simp add: assms(3))
  show "dwf (lf_owner fs)" unfolding assms(3) by (rule dwf_dpop [OF serial_invD(1) [OF assms(1)]])
  show "lf_inode fs < lf_fresh fs" unfolding assms(4,5) by (rule serial_invD(2) [OF assms(1)])
qed

lemma serial_step_inv:
  assumes "serial_lock_step s t" "serial_inv s"
  shows "serial_inv t"
  using assms(1)
proof (cases rule: serial_lock_step.cases)
  case (serial_acquire p now i fs)
  note res = acquire_result [OF serial_acquire(3) serial_invD(2) [OF assms(2)]]
  note free = acquire_free [OF assms(2) serial_acquire(3)]
  show ?thesis
    using res(1,3,4) serial_invD(1) [OF assms(2)] free
    by (simp add: serial_acquire(1) enter_def serial_inv_def res(2) [symmetric])
next
  case (serial_refused p now fs)
  obtain i where i: "dget (lf_owner (ls_fs s)) i \<noteq> None"
      "dget (lf_files (ls_fs s)) lock_name = None \<and> i = lf_fresh (ls_fs s) \<or> fs = ls_fs s"
    using acquire_refused [OF serial_refused(3)] by blast
  then obtain q where q: "ls_phase s q = Locked i" using serial_invD(6) [OF assms(2)] by blast
  have "fs = ls_fs s" using serial_invD(5) [OF assms(2) q] i(2) by auto
  then show ?thesis
    using assms(2) serial_refused(2) by (simp add: serial_refused(1) enter_def fun_upd_idem)
next
  case (serial_release p i)
  show ?thesis unfolding serial_release(1)
    by (rule serial_inv_leave [OF assms(2) serial_release(2)]) (simp_all add: release_lock_def lock_defs)
next
  case (serial_died p i)
  show ?thesis unfolding serial_died(1)
    by (rule serial_inv_leave [OF assms(2) serial_died(2)]) (simp_all add: lock_defs)
qed

interpretation locks: step_system serial_lock_step serial_inv "\<lambda>s. ()"
  by unfold_locales (blast intro: serial_step_inv)

lemma no_locks_inv: "serial_inv (no_locks files)"
  by (simp add: no_locks_def serial_inv_def)

text \<open>The store of a started server has the directory as it is, and the lock file is still there.\<close>

lemma rehydrate_keeps_files:
  "rehydrate_files names st = Inr st' \<Longrightarrow> st_files st' = rehydrated_files names (st_files st)"
proof (induction names arbitrary: st)
  case (Cons n names)
  then show ?case
    by (cases "read_metadata n (st_files st)") (auto simp: index_record_def split: option.splits)
qed simp

lemma read_metadata_other:
  "read_metadata name files = Inr (r, files') \<Longrightarrow> name \<noteq> k \<Longrightarrow> dget files' k = dget files k"
  by (auto simp: read_metadata_def split: option.splits content.splits if_splits)

lemma rehydrated_other: "k \<notin> set names \<Longrightarrow> dget (rehydrated_files names files) k = dget files k"
  by (induction names files rule: rehydrated_files.induct)
    (auto split: sum.split simp: read_metadata_other)

lemma lock_not_json: "\<not> ends_with (lit ''.json'') lock_name"
  by code_simp

lemma opened_lock: "dget (opened_files ttl m files) lock_name = dget files lock_name"
  by (simp add: opened_files_def rehydrated_other lock_not_json)

lemma new_store_files: "new_store ttl m files = Inr st \<Longrightarrow> st_files st = opened_files ttl m files"
  by (auto simp: new_store_def opened_files_def rehydrate_def dest!: rehydrate_keeps_files split: if_splits)

section \<open>Exclusion\<close>

text \<open>Process 0 stops and starts again; process 1 starts in between, before the file is unlinked.\<close>

definition open_by :: "nat \<Rightarrow> lock_sys \<Rightarrow> lock_sys" where
  "open_by p s = (let (i, fs) = open_lock 0 (ls_fs s) in enter p (Opened i) fs s)"

definition lock_by :: "nat \<Rightarrow> nat \<Rightarrow> lock_sys \<Rightarrow> lock_sys" where
  "lock_by p i s = enter p (Locked i) (the (flock_lock p 0 i (ls_fs s))) s"

definition first_lock :: lock_sys where
  "first_lock = lock_by 0 1 (open_by 0 (no_locks []))"

definition stopping :: lock_sys where
  "stopping = enter 0 Closing (unlock_lock 1 (ls_fs first_lock)) first_lock"

definition second_lock :: lock_sys where
  "second_lock = lock_by 1 1 (open_by 1 stopping)"

definition stopped :: lock_sys where
  "stopped = enter 0 Outside (unlink_lock (ls_fs second_lock)) second_lock"

definition restart_race :: lock_sys where
  "restart_race = lock_by 0 2 (open_by 0 stopped)"

lemma take_step:
  assumes "reaches lock_step r s" "ls_phase s p = Outside" "fst (open_lock 0 (ls_fs s)) = i"
    "dget (lf_owner (ls_fs s)) i = None"
  shows "reaches lock_step r (lock_by p i (open_by p s))"
proof -
  have s1: "open_by p s = enter p (Opened i) (snd (open_lock 0 (ls_fs s))) s"
    using assms(3) by (simp add: open_by_def case_prod_beta)
  have "reaches lock_step r (open_by p s)"
    unfolding s1 by (rule reaches_step [OF assms(1) step_open]) (use assms(2,3) in \<open>simp_all add: prod_eq_iff\<close>)
  moreover have "lock_step (open_by p s) (lock_by p i (open_by p s))"
    unfolding lock_by_def
    by (rule step_locked [of _ _ _ 0])
      (use assms(4) in \<open>simp_all add: s1 enter_def flock_lock_def open_lock_def\<close>)
  ultimately show ?thesis by (rule reaches_step)
qed

lemmas race_defs = open_by_def lock_by_def lock_defs enter_def

lemma first_lock_state:
  "ls_phase first_lock = (\<lambda>p. Outside)(0 := Locked 1)"
  "ls_fs first_lock =
     \<lparr>lf_files = [(lock_name, \<lparr>fl_content = Unreadable, fl_mtime = 0\<rparr>)], lf_inode = 1, lf_fresh = 2, lf_owner = [(1, 0)]\<rparr>"
  by (simp_all add: no_locks_def first_lock_def race_defs)

lemma stopping_state:
  "ls_phase stopping = (\<lambda>p. Outside)(0 := Closing)"
  "ls_fs stopping = (ls_fs first_lock)\<lparr>lf_owner := []\<rparr>"
  by (simp_all add: stopping_def race_defs first_lock_state)

lemma second_lock_state:
  "ls_phase second_lock = (\<lambda>p. Outside)(0 := Closing, 1 := Locked 1)"
  "ls_fs second_lock = (ls_fs first_lock)\<lparr>lf_owner := [(1, 1)]\<rparr>"
  by (simp_all add: second_lock_def race_defs stopping_state first_lock_state)

lemma stopped_state:
  "ls_phase stopped = (\<lambda>p. Outside)(1 := Locked 1)"
  "ls_fs stopped = \<lparr>lf_files = [], lf_inode = 1, lf_fresh = 2, lf_owner = [(1, 1)]\<rparr>"
  by (auto simp: stopped_def race_defs second_lock_state first_lock_state)

lemma restart_race_reached:
  "reaches lock_step (no_locks []) restart_race" "ls_phase restart_race 0 = Locked 2" "ls_phase restart_race 1 = Locked 1"
proof -
  have "reaches lock_step (no_locks []) first_lock"
    unfolding first_lock_def
    by (rule take_step [OF reaches_refl]) (simp_all add: no_locks_def open_lock_def)
  then have "reaches lock_step (no_locks []) stopping"
    unfolding stopping_def
    by (rule reaches_step) (rule step_unlock, simp add: first_lock_state)
  then have "reaches lock_step (no_locks []) second_lock"
    unfolding second_lock_def
    by (rule take_step) (simp_all add: stopping_state first_lock_state open_lock_def)
  then have "reaches lock_step (no_locks []) stopped"
    unfolding stopped_def
    by (rule reaches_step) (rule step_unlink, simp add: second_lock_state)
  then show "reaches lock_step (no_locks []) restart_race"
    unfolding restart_race_def
    by (rule take_step) (simp_all add: stopped_state open_lock_def)
qed (simp_all add: restart_race_def race_defs stopped_state)



lemma sweep_orphans_files:
  "dget (st_files (fst (sweep_orphans c st))) n =
     (case dget (st_files st) n of
        None \<Rightarrow> None
      | Some f \<Rightarrow> if fl_mtime f < c \<and> dget (st_records st) (path_stem n) = None then None else Some f)"
  using dget_keys [of n "st_files st"]
  by (auto simp: sweep_orphans_def sweep_names_files split: option.split)

lemma delete_only_deletes:
  "dget (st_files st) n = None \<or> dget (st_files st) n = Some f \<Longrightarrow>
   dget (st_files (fst (delete_tokens ts st))) n = None \<or> dget (st_files (fst (delete_tokens ts st))) n = Some f"
  by (induction ts st rule: delete_tokens.induct)
    (auto simp: delete_record_def split: option.splits prod.splits)

lemma budget_only_deletes:
  "dget (st_files st) n = None \<or> dget (st_files st) n = Some f \<Longrightarrow>
   dget (st_files (fst (gc_over_budget st))) n = None \<or> dget (st_files (fst (gc_over_budget st))) n = Some f"
  by (simp add: gc_over_budget_def delete_only_deletes)

text \<open>
  The garbage collection of the running server takes its own lock away: the lock file is written
  once, at the start, so when it is older than the states may be the sweep unlinks it like any other
  old file without a record, whoever holds the lock.  The next process then gets a lock of its own on
  a new file, while the first still has its: two servers share the store.
\<close>

theorem gc_unlinks_the_lock:
  assumes "dget (lf_files fs) lock_name = Some f" "fl_mtime f < now - st_ttl st"
    "dget (st_records st) (path_stem lock_name) = None" "dget (lf_owner fs) (lf_fresh fs) = None"
  shows "dget (lf_files (gc_directory now st fs)) lock_name = None \<and>
    (\<exists>fs'. acquire_lock q later None (gc_directory now st fs) = (Some (lf_fresh fs), fs') \<and>
      dget (lf_owner fs') (lf_fresh fs) = Some q \<and>
      (\<forall>i p. dget (lf_owner fs) i = Some p \<longrightarrow> dget (lf_owner fs') i = Some p))"
proof -
  let ?st = "fst (gc_over_budget (fst (delete_tokens (map fst (filter (\<lambda>p. rec_accessed (snd p) < now - st_ttl st)
    (st_records st))) (st\<lparr>st_files := lf_files fs\<rparr>))))"
  have files: "dget (st_files ?st) lock_name = None \<or> dget (st_files ?st) lock_name = Some f"
    by (rule budget_only_deletes) (use assms(1,3) in \<open>auto intro!: delete_only_deletes\<close>)
  have recs: "dget (st_records ?st) (path_stem lock_name) = None"
    using assms(3) by (simp add: gc_over_budget_def delete_tokens_records)
  have gone: "dget (lf_files (gc_directory now st fs)) lock_name = None"
    unfolding gc_directory_def using files recs assms(2)
    by (auto simp: gc_expired_fst sweep_orphans_files split: option.splits)
  then show ?thesis
    using assms(4) by (auto simp: acquire_lock_def lock_defs gc_directory_def)
qed

text \<open>An hour after the start of a server with an empty store, its lock is gone.\<close>

definition demo_locked_store :: store where
  "demo_locked_store = \<lparr>st_ttl = 3600, st_max_bytes = 100, st_records = [], st_by_item = [], st_pins = [],
     st_files = [(lock_name, \<lparr>fl_content = Unreadable, fl_mtime = 0\<rparr>)]\<rparr>"

theorem gc_unlinks_the_lock_witness:
  "let fs = \<lparr>lf_files = st_files demo_locked_store, lf_inode = 1, lf_fresh = 2, lf_owner = [(1, 4)]\<rparr>
   in \<exists>fs'. acquire_lock 5 3700 None (gc_directory 3601 demo_locked_store fs) = (Some 2, fs') \<and>
        dget (lf_owner fs') 1 = Some 4 \<and> dget (lf_owner fs') 2 = Some 5"
proof -
  let ?fs = "\<lparr>lf_files = st_files demo_locked_store, lf_inode = 1, lf_fresh = 2, lf_owner = [(1::nat, 4::nat)]\<rparr>"
  have "\<exists>fs'. acquire_lock 5 3700 None (gc_directory 3601 demo_locked_store ?fs) = (Some (lf_fresh ?fs), fs') \<and>
      dget (lf_owner fs') (lf_fresh ?fs) = Some 5 \<and>
      (\<forall>i p. dget (lf_owner ?fs) i = Some p \<longrightarrow> dget (lf_owner fs') i = Some p)"
    using gc_unlinks_the_lock [of ?fs "\<lparr>fl_content = Unreadable, fl_mtime = 0\<rparr>" 3601 demo_locked_store 5 3700]
    by (simp add: demo_locked_store_def)
  then show ?thesis by (auto simp: Let_def)
qed

section \<open>Start\<close>

lemma acquire_kept:
  assumes "acquire_lock p now None fs = (out, fs')" "dget (lf_owner fs) (lf_fresh fs) = None"
  shows "out = None \<Longrightarrow> fs' = fs \<and> dget (lf_owner fs) (lf_inode fs) \<noteq> None"
    and "out = Some i \<Longrightarrow> i = lf_inode fs' \<and> lf_owner fs' = dset i p (lf_owner fs) \<and> dget (lf_owner fs) i = None \<and>
      dget (lf_files fs') lock_name \<noteq> None"
  using assms by (auto simp: acquire_lock_def lock_defs split: if_splits)

text \<open>
  Starting a server takes the lock or leaves everything as it was: settings without the required
  caps and a lock that is held change nothing, in particular not the other server's lock file; a
  store that cannot be opened gives the lock back and removes the file; and a server that starts
  holds the lock on the file of that name, and its store has the directory as it is.
\<close>

theorem start_takes_the_lock_or_nothing:
  assumes "start_server p now ttl s fs = (out, fs')" "xc_single (sg_config s)"
    "dget (lf_owner fs) (lf_fresh fs) = None"
  shows "case out of
      Inl (CapsRefused e) \<Rightarrow> fs' = fs
    | Inl AlreadyRunning \<Rightarrow> fs' = fs \<and> dget (lf_owner fs) (lf_inode fs) \<noteq> None
    | Inl (StoreFailed e) \<Rightarrow> (\<forall>i. dget (lf_owner fs') i = dget (lf_owner fs) i) \<and> dget (lf_files fs') lock_name = None
    | Inr (st, lk) \<Rightarrow> lk = Some (lf_inode fs') \<and> dget (lf_owner fs') (lf_inode fs') = Some p \<and>
        dget (lf_files fs') lock_name \<noteq> None \<and> st_files st = lf_files fs'"
proof (cases "validate_bounded_exec_caps (sg_config s)")
  case (Inl e)
  with assms(1) show ?thesis by (auto simp: start_server_def)
next
  case (Inr u)
  obtain lk fs1 where acq: "acquire_lock p now None fs = (lk, fs1)" by fastforce
  note kept = acquire_kept [OF acq assms(3)]
  show ?thesis
  proof (cases lk)
    case None
    with assms(1,2) Inr acq kept(1) show ?thesis
      by (auto simp: start_server_def release_lock_def)
  next
    case (Some i)
    then have i: "i = lf_inode fs1" "lf_owner fs1 = dset i p (lf_owner fs)" "dget (lf_owner fs) i = None"
      "dget (lf_files fs1) lock_name \<noteq> None"
      using kept(2) by auto
    let ?m = "xc_store_bytes (sg_config s)"
    show ?thesis
    proof (cases "new_store ttl ?m (lf_files fs1)")
      case (Inl e)
      with assms(1,2) Inr acq Some i show ?thesis
        by (auto simp: start_server_def release_lock_def unlock_lock_def unlink_lock_def)
    next
      case st: (Inr st)
      with assms(1,2) Inr acq Some i show ?thesis
        by (auto simp: start_server_def opened_lock new_store_files [OF st])
    qed
  qed
qed

theorem start_takes_the_lock_or_nothing_witness:
  "\<exists>st fs'. start_server 9 0 3600 \<lparr>sg_mode = ModeExec, sg_config = fill_config 4 []\<rparr> (ls_fs (no_locks [])) =
       (Inr (st, Some 1), fs') \<and> dget (lf_owner fs') (lf_inode fs') = Some 9"
proof -
  let ?s = "\<lparr>sg_mode = ModeExec, sg_config = fill_config 4 []\<rparr>"
  obtain st fs' where run: "start_server 9 0 3600 ?s (ls_fs (no_locks [])) = (Inr (st, Some 1), fs')"
    by (simp add: start_server_def no_locks_def acquire_lock_def lock_defs validate_bounded_exec_caps_def
        check_cap_def fill_config_def get_int_def get_bool_def Let_def new_store_def rehydrate_def lock_not_json
        default_max_in_flight_def default_max_queued_def default_max_state_store_bytes_def)
  moreover have "xc_single (sg_config ?s)" by (simp add: fill_config_def get_bool_def Let_def)
  ultimately have "dget (lf_owner fs') (lf_inode fs') = Some 9"
    using start_takes_the_lock_or_nothing [OF run] by (simp add: no_locks_def)
  with run show ?thesis by blast
qed

end
