(* ===== verification/CheckPool.thy ===== *)
theory CheckPool
  imports Split
begin

text \<open>
  The \<open>/check\<close> side of the server: the pool of Lean REPL processes (\<open>server/manager.py\<close>), the protocol
  of one process (\<open>server/repl.py\<close>), and the route that runs a snippet on it
  (\<open>server/routers/check.py\<close>).  What a process answers, and what happens to the task while it waits, are
  values; what the rest of the server does to the pool during an await is a function.
\<close>

section \<open>Answers\<close>

record lean_pos =
  lp_line :: int
  lp_column :: int

record lean_message =
  lm_severity :: pystr
  lm_pos :: "lean_pos option"
  lm_end :: "lean_pos option"
  lm_data :: pystr

record lean_sorry =
  so_pos :: "lean_pos option"
  so_end :: "lean_pos option"
  so_goal :: pystr

record command_response =
  co_env :: "int option"
  co_messages :: "lean_message list option"
  co_sorries :: "lean_sorry list option"

datatype repl_payload = CommandDone command_response | CommandError pystr

text \<open>\<open>ReplResponse\<close> with its validator: exactly one of an error and a payload.\<close>

record check_response =
  ck_id :: pystr
  ck_time :: int
  ck_error :: "pystr option"
  ck_response :: "repl_payload option"
  ck_repl :: "nat option"

definition response_valid :: "check_response \<Rightarrow> bool" where
  "response_valid r \<longleftrightarrow> \<not> ((ck_error r = None \<or> ck_error r = Some []) \<and> ck_response r = None) \<and>
     \<not> (ck_error r \<noteq> None \<and> ck_response r \<noteq> None)"

definition shift_line :: "int \<Rightarrow> lean_pos option \<Rightarrow> lean_pos option" where
  "shift_line n p = map_option (\<lambda>p. p\<lparr>lp_line := lp_line p + n\<rparr>) p"

text \<open>\<open>_apply_header_offset\<close>: without messages it returns before the sorries.\<close>

definition apply_header_offset :: "check_response \<Rightarrow> int \<Rightarrow> check_response" where
  "apply_header_offset r n =
     (if n \<le> 0 \<or> ck_error r \<noteq> None then r
      else case ck_response r of
             Some (CommandDone c) \<Rightarrow>
               (case co_messages c of
                  Some (m # ms) \<Rightarrow>
                    r\<lparr>ck_response := Some (CommandDone (c\<lparr>
                       co_messages := Some (map (\<lambda>m. m\<lparr>lm_pos := shift_line n (lm_pos m), lm_end := shift_line n (lm_end m)\<rparr>) (m # ms)),
                       co_sorries := map_option (map (\<lambda>s. s\<lparr>so_pos := shift_line n (so_pos s), so_end := shift_line n (so_end s)\<rparr>))
                         (co_sorries c)\<rparr>))\<rparr>
                | _ \<Rightarrow> r)
           | _ \<Rightarrow> r)"

section \<open>One process\<close>

record repl =
  rp_id :: nat
  rp_header :: pystr
  rp_uses :: int
  rp_max_uses :: int
  rp_last :: int
  rp_running :: bool
  rp_header_response :: "check_response option"

definition is_blank :: "pystr \<Rightarrow> bool" where
  "is_blank s \<longleftrightarrow> strip s = []"

definition new_repl :: "nat \<Rightarrow> pystr \<Rightarrow> int \<Rightarrow> int \<Rightarrow> repl" where
  "new_repl i header max_uses now = \<lparr>rp_id = i, rp_header = header, rp_uses = 0, rp_max_uses = max_uses,
     rp_last = now, rp_running = False, rp_header_response = None\<rparr>"

definition repl_exhausted :: "repl \<Rightarrow> bool" where
  "repl_exhausted r \<longleftrightarrow> 0 \<le> rp_max_uses r \<and>
     (if is_blank (rp_header r) then rp_max_uses r \<le> rp_uses r else rp_max_uses r + 1 \<le> rp_uses r)"

record repl_command =
  rc_cmd :: pystr
  rc_env :: "int option"
  rc_infotree :: "pystr option"
  rc_gc :: bool

text \<open>The command that \<open>send\<close> writes: after the first one, environment 0, unless it is the header.\<close>

definition command_of :: "repl \<Rightarrow> bool \<Rightarrow> pystr option \<Rightarrow> pystr \<Rightarrow> repl_command" where
  "command_of r is_header infotree code =
     (let again = rp_uses r \<noteq> 0 \<and> \<not> is_header
      in \<lparr>rc_cmd = code, rc_env = (if again then Some 0 else None),
          rc_infotree = (if infotree = Some [] then None else infotree), rc_gc = again\<rparr>)"

text \<open>What comes of a command: an answer, a timeout, an exception with its text, or cancellation.\<close>

datatype repl_reply = Replied repl_payload int | ReplTimeout | ReplBroken pystr | ReplCancelled

text \<open>\<open>send_timeout\<close>: an answer counts as a use; \<open>sent\<close> collects the commands.\<close>

datatype repl_exn = TimeoutExn | ReplExn pystr | CancelledExn

definition send_timeout :: "pystr \<Rightarrow> bool \<Rightarrow> pystr \<Rightarrow> repl_reply \<Rightarrow> repl \<Rightarrow> (repl_exn + check_response) \<times> repl" where
  "send_timeout snippet is_header code reply r =
     (if \<not> rp_running r then (Inl (ReplExn (lit ''REPL process not started or shut down'')), r)
      else case reply of
             Replied p t \<Rightarrow> (Inr \<lparr>ck_id = snippet, ck_time = t, ck_error = None, ck_response = Some p,
                               ck_repl = Some (rp_id r)\<rparr>, r\<lparr>rp_uses := rp_uses r + 1\<rparr>)
           | ReplTimeout \<Rightarrow> (Inl TimeoutExn, r)
           | ReplBroken text \<Rightarrow> (Inl (ReplExn text), r)
           | ReplCancelled \<Rightarrow> (Inl CancelledExn, r))"

section \<open>The pool\<close>

record manager =
  mg_max :: int
  mg_max_uses :: int
  mg_free :: "repl list"
  mg_busy :: "repl list"

definition total_repls :: "manager \<Rightarrow> int" where
  "total_repls m = int (length (mg_free m)) + int (length (mg_busy m))"

fun pop_header :: "pystr \<Rightarrow> repl list \<Rightarrow> (repl \<times> repl list) option" where
  "pop_header header [] = None"
| "pop_header header (r # rs) =
     (if rp_header r = header then Some (r, rs)
      else map_option (\<lambda>(x, rest). (x, r # rest)) (pop_header header rs))"

fun oldest :: "repl list \<Rightarrow> repl option" where
  "oldest [] = None"
| "oldest (r # rs) = (case oldest rs of None \<Rightarrow> Some r
     | Some m \<Rightarrow> if rp_last r \<le> rp_last m then Some r else Some m)"

datatype repl_decision = Reuse repl | StartRepl "repl option" | WaitForRepl | NoAvailableRepl

text \<open>One pass of the loop of \<open>get_repl\<close> under the condition; a start reserves nothing.\<close>

definition try_get_repl :: "pystr \<Rightarrow> bool \<Rightarrow> int \<Rightarrow> int \<Rightarrow> manager \<Rightarrow> repl_decision \<times> manager" where
  "try_get_repl header reuse deadline now m =
     (case (if reuse then pop_header header (mg_free m) else None) of
        Some (r, rest) \<Rightarrow> (Reuse r, m\<lparr>mg_free := rest, mg_busy := r # mg_busy m\<rparr>)
      | None \<Rightarrow>
          if total_repls m < mg_max m then (StartRepl None, m)
          else (case oldest (mg_free m) of
                  Some r \<Rightarrow> (StartRepl (Some r), m\<lparr>mg_free := remove1 r (mg_free m)\<rparr>)
                | None \<Rightarrow> if deadline - now \<le> 0 then (NoAvailableRepl, m) else (WaitForRepl, m)))"

definition start_repl :: "repl \<Rightarrow> manager \<Rightarrow> manager" where
  "start_repl r m = m\<lparr>mg_busy := r # mg_busy m\<rparr>"

definition without_repl :: "nat \<Rightarrow> repl list \<Rightarrow> repl list" where
  "without_repl i rs = filter (\<lambda>r. rp_id r \<noteq> i) rs"

definition destroy_repl :: "nat \<Rightarrow> manager \<Rightarrow> manager" where
  "destroy_repl i m = m\<lparr>mg_busy := without_repl i (mg_busy m), mg_free := without_repl i (mg_free m)\<rparr>"

text \<open>The process object is shared: \<open>r\<close> is the busy process as it is now.\<close>

definition release_repl :: "repl \<Rightarrow> int \<Rightarrow> manager \<Rightarrow> manager" where
  "release_repl r now m =
     (if rp_id r \<notin> rp_id ` set (mg_busy m) then m
      else if repl_exhausted r then m\<lparr>mg_busy := without_repl (rp_id r) (mg_busy m)\<rparr>
      else m\<lparr>mg_busy := without_repl (rp_id r) (mg_busy m), mg_free := mg_free m @ [r\<lparr>rp_last := now\<rparr>]\<rparr>)"

definition cleanup_repls :: "manager \<Rightarrow> manager" where
  "cleanup_repls m = m\<lparr>mg_free := [], mg_busy := []\<rparr>"

text \<open>\<open>prep\<close>: start the process and run its header; \<open>started\<close> is \<open>None\<close> if starting succeeds.\<close>

datatype prep_result = Prepared "check_response option" | PrepTimeout | PrepFailed pystr | PrepCancelled

definition truthy :: "pystr option \<Rightarrow> bool" where
  "truthy s \<longleftrightarrow> s \<noteq> None \<and> s \<noteq> Some []"

text \<open>The flag says that \<open>prep\<close> itself destroyed the process.\<close>

definition prep :: "pystr \<Rightarrow> bool \<Rightarrow> pystr option \<Rightarrow> repl_reply \<Rightarrow> repl \<Rightarrow> prep_result \<times> repl \<times> bool" where
  "prep snippet debug started reply r =
     (if rp_running r then (Prepared None, r, False)
      else case started of
             Some text \<Rightarrow> (PrepFailed (lit ''Failed to start REPL''), r, False)
           | None \<Rightarrow>
               (let r1 = r\<lparr>rp_running := True\<rparr>
                in if is_blank (rp_header r) then (Prepared (rp_header_response r1), r1, False)
                   else (case send_timeout (snippet @ lit ''-header'') True (rp_header r) reply r1 of
                           (Inl TimeoutExn, r2) \<Rightarrow> (PrepTimeout, r2, False)
                         | (Inl CancelledExn, r2) \<Rightarrow> (PrepCancelled, r2, False)
                         | (Inl (ReplExn text), r2) \<Rightarrow> (PrepFailed (lit ''Failed to run header on REPL''), r2, False)
                         | (Inr resp0, r2) \<Rightarrow>
                             (let resp = (if debug then resp0 else resp0\<lparr>ck_repl := None\<rparr>)
                              in (Prepared (Some resp), r2\<lparr>rp_header_response := Some resp\<rparr>, truthy (ck_error resp))))))"

section \<open>The route\<close>

text \<open>
  What one check meets: the outcome of \<open>get_repl\<close>, of starting the process, of the header and of the
  body, of the write to the database after the release, and what the rest of the server does to the
  pool during the four awaits.  (The database writes after a timeout happen once the process is
  destroyed and touch no state modelled here.)
\<close>

datatype repl_lease = LeaseGot repl | LeaseNone | LeaseError pystr | LeaseCancelled

datatype db_write = DbDone | DbFailed pystr | DbCancelled

record check_world =
  cw_lease :: repl_lease
  cw_started :: "pystr option"
  cw_header :: repl_reply
  cw_body :: repl_reply
  cw_db :: db_write
  cw_env1 :: "manager \<Rightarrow> manager"
  cw_env2 :: "manager \<Rightarrow> manager"
  cw_env3 :: "manager \<Rightarrow> manager"
  cw_env4 :: "manager \<Rightarrow> manager"

datatype check_outcome = Answered check_response | HttpFailed int pystr | CheckCancelled

definition timeout_response :: "pystr \<Rightarrow> pystr \<Rightarrow> pystr \<Rightarrow> int \<Rightarrow> repl \<Rightarrow> check_response" where
  "timeout_response snippet what shown timeout r = \<lparr>ck_id = snippet, ck_time = timeout,
     ck_error = Some (what @ lit '' timed out in '' @ shown @ lit '' seconds''), ck_response = None,
     ck_repl = Some (rp_id r)\<rparr>"

text \<open>\<open>shown\<close> is the printed timeout.\<close>

definition run_one :: "pystr \<Rightarrow> pystr \<Rightarrow> int \<Rightarrow> pystr \<Rightarrow> bool \<Rightarrow> int \<Rightarrow> check_world \<Rightarrow> manager \<Rightarrow> check_outcome \<times> manager" where
  "run_one snippet code timeout shown debug now w m =
     (let sp = split_snippet code; m1 = cw_env1 w m
      in case cw_lease w of
           LeaseNone \<Rightarrow> (HttpFailed 429 (lit ''No available REPLs''), m1)
         | LeaseError text \<Rightarrow> (HttpFailed 500 text, m1)
         | LeaseCancelled \<Rightarrow> (CheckCancelled, m1)
         | LeaseGot r \<Rightarrow>
             (let (res, r1, destroyed) = prep snippet debug (cw_started w) (cw_header w) r;
                  m2 = (if destroyed then destroy_repl (rp_id r) (cw_env2 w m1) else cw_env2 w m1);
                  gone = destroy_repl (rp_id r)
              in case res of
                   PrepTimeout \<Rightarrow>
                     (Answered (timeout_response snippet (lit ''Lean REPL header command'') shown timeout r), gone m2)
                 | PrepFailed text \<Rightarrow> (HttpFailed 500 text, gone m2)
                 | PrepCancelled \<Rightarrow> (CheckCancelled, gone m2)
                 | Prepared resp \<Rightarrow>
                     if (case resp of Some h \<Rightarrow> truthy (ck_error h) | None \<Rightarrow> False) then (Answered (the resp), m2)
                     else (case send_timeout snippet False (sr_body sp) (cw_body w) r1 of
                             (Inl TimeoutExn, r2) \<Rightarrow>
                               (Answered (timeout_response snippet (lit ''Lean REPL command'') shown timeout r), gone (cw_env3 w m2))
                           | (Inl (ReplExn text), r2) \<Rightarrow> (HttpFailed 500 text, gone (cw_env3 w m2))
                           | (Inl CancelledExn, r2) \<Rightarrow> (CheckCancelled, gone (cw_env3 w m2))
                           | (Inr body, r2) \<Rightarrow>
                               (let answer = apply_header_offset body (int (sr_header_line_count sp));
                                    m3 = release_repl r2 now (cw_env3 w m2)
                                in case cw_db w of
                                     DbDone \<Rightarrow> (Answered (if debug then answer else answer\<lparr>ck_repl := None\<rparr>), m3)
                                   | DbFailed text \<Rightarrow> (HttpFailed 500 text, m3)
                                   | DbCancelled \<Rightarrow> (CheckCancelled, gone (cw_env4 w m3))))))"

section \<open>Facts\<close>

lemma send_timeout_ok:
  assumes "send_timeout snippet h code reply r = (Inr resp, r')"
  shows "ck_error resp = None" "rp_id r' = rp_id r" "\<exists>p t. reply = Replied p t \<and> ck_response resp = Some p \<and> ck_time resp = t"
  using assms by (auto simp: send_timeout_def split: if_splits repl_reply.splits)

lemma send_timeout_id: "rp_id (snd (send_timeout snippet h code reply r)) = rp_id r"
  by (auto simp: send_timeout_def split: repl_reply.split)

text \<open>A process only ever keeps header responses that carry no error.\<close>

definition header_clean :: "repl \<Rightarrow> bool" where
  "header_clean r \<longleftrightarrow> (case rp_header_response r of None \<Rightarrow> True | Some h \<Rightarrow> ck_error h = None)"

lemma prep_facts:
  assumes "prep snippet debug started reply r = (res, r', destroyed)" "header_clean r"
  shows "rp_id r' = rp_id r" "\<not> destroyed" "res = Prepared (Some resp) \<Longrightarrow> ck_error resp = None" "header_clean r'"
  using assms
  by (auto simp: prep_def Let_def truthy_def header_clean_def send_timeout_def
      split: if_splits option.splits prod.splits sum.splits repl_exn.splits repl_reply.splits)

lemma without_repl_gone [simp]: "i \<notin> rp_id ` set (without_repl i rs)"
  by (auto simp: without_repl_def)

lemma destroy_gone [simp]: "i \<notin> rp_id ` set (mg_busy (destroy_repl i m))" "i \<notin> rp_id ` set (mg_free (destroy_repl i m))"
  by (simp_all add: destroy_repl_def)

lemma release_not_busy: "rp_id r \<notin> rp_id ` set (mg_busy (release_repl r now m))"
  by (auto simp: release_repl_def without_repl_def)

text \<open>The commands that a new process receives for its header and then for answered bodies.\<close>

fun body_commands :: "repl \<Rightarrow> (pystr option \<times> pystr) list \<Rightarrow> repl_command list" where
  "body_commands r [] = []"
| "body_commands r (b # bs) = command_of r False (fst b) (snd b) # body_commands (r\<lparr>rp_uses := rp_uses r + 1\<rparr>) bs"

definition process_commands :: "repl \<Rightarrow> (pystr option \<times> pystr) list \<Rightarrow> repl_command list" where
  "process_commands r bodies =
     (if is_blank (rp_header r) then body_commands r bodies
      else command_of r True None (rp_header r) # body_commands (r\<lparr>rp_uses := rp_uses r + 1\<rparr>) bodies)"

text \<open>What a body is sent as once the process has answered something.\<close>

definition later_command :: "pystr option \<times> pystr \<Rightarrow> repl_command" where
  "later_command b = \<lparr>rc_cmd = snd b, rc_env = Some 0,
     rc_infotree = (if fst b = Some [] then None else fst b), rc_gc = True\<rparr>"

lemma body_commands_used:
  "0 < rp_uses r \<Longrightarrow> body_commands r bs = map later_command bs"
  by (induction bs arbitrary: r) (simp_all add: command_of_def later_command_def)

section \<open>The cap\<close>

text \<open>The pool with the tasks that have left the loop of \<open>get_repl\<close> to start a process.\<close>

record mgr_sys =
  ms_pool :: manager
  ms_starting :: "pystr list"

definition get_repl_pass :: "pystr \<Rightarrow> bool \<Rightarrow> int \<Rightarrow> int \<Rightarrow> mgr_sys \<Rightarrow> mgr_sys" where
  "get_repl_pass header reuse deadline now s =
     (let (d, m) = try_get_repl header reuse deadline now (ms_pool s)
      in case d of
           StartRepl old \<Rightarrow> s\<lparr>ms_pool := m, ms_starting := header # ms_starting s\<rparr>
         | _ \<Rightarrow> s\<lparr>ms_pool := m\<rparr>)"

inductive mgr_step :: "mgr_sys \<Rightarrow> mgr_sys \<Rightarrow> bool" where
  mgr_request: "mgr_step s (get_repl_pass header reuse deadline now s)"
| mgr_started: "header \<in> set (ms_starting s) \<Longrightarrow> mgr_step s
     (s\<lparr>ms_pool := start_repl (new_repl i header (mg_max_uses (ms_pool s)) now) (ms_pool s),
        ms_starting := remove1 header (ms_starting s)\<rparr>)"
| mgr_release: "mgr_step s (s\<lparr>ms_pool := release_repl r now (ms_pool s)\<rparr>)"
| mgr_destroy: "mgr_step s (s\<lparr>ms_pool := destroy_repl i (ms_pool s)\<rparr>)"

text \<open>The same steps, with a new request only when no other one is starting a process.\<close>

inductive serial_step :: "mgr_sys \<Rightarrow> mgr_sys \<Rightarrow> bool" where
  "mgr_step s s' \<Longrightarrow> ms_starting s = [] \<or> length (ms_starting s') \<le> length (ms_starting s) \<Longrightarrow> serial_step s s'"

definition new_manager :: "int \<Rightarrow> int \<Rightarrow> mgr_sys" where
  "new_manager k uses = \<lparr>ms_pool = \<lparr>mg_max = k, mg_max_uses = uses, mg_free = [], mg_busy = []\<rparr>, ms_starting = []\<rparr>"

definition within_cap :: "mgr_sys \<Rightarrow> bool" where
  "within_cap s \<longleftrightarrow> total_repls (ms_pool s) + int (length (ms_starting s)) \<le> max (mg_max (ms_pool s)) 0 \<and>
     length (ms_starting s) \<le> 1"

lemma pop_header_length: "pop_header header rs = Some (r, rest) \<Longrightarrow> length rs = Suc (length rest)"
  by (induction rs arbitrary: rest) (auto split: if_splits)

lemma oldest_in: "oldest rs = Some r \<Longrightarrow> r \<in> set rs"
  by (induction rs arbitrary: r) (auto split: option.splits if_splits)

lemma oldest_None: "oldest rs = None \<longleftrightarrow> rs = []"
  by (cases rs) (auto split: option.splits)

lemma try_get_total:
  assumes "try_get_repl header reuse deadline now m = (d, m')"
  shows "mg_max m' = mg_max m" "case d of StartRepl old \<Rightarrow> total_repls m' + 1 \<le> max (total_repls m) (mg_max m) | _ \<Rightarrow> total_repls m' \<le> total_repls m"
proof -
  have one: "total_repls (m\<lparr>mg_free := remove1 r (mg_free m)\<rparr>) = total_repls m - 1" if "oldest (mg_free m) = Some r" for r
    using oldest_in [OF that] by (simp add: total_repls_def remove1_facts)
  have two: "total_repls (m\<lparr>mg_free := rest, mg_busy := r # mg_busy m\<rparr>) = total_repls m"
    if "pop_header header (mg_free m) = Some (r, rest)" for r rest
    using pop_header_length [OF that] by (simp add: total_repls_def)
  show "mg_max m' = mg_max m" using assms by (auto simp: try_get_repl_def split: option.splits if_splits)
  show "case d of StartRepl old \<Rightarrow> total_repls m' + 1 \<le> max (total_repls m) (mg_max m) | _ \<Rightarrow> total_repls m' \<le> total_repls m"
    using assms one two by (auto simp: try_get_repl_def split: option.splits if_splits)
qed

lemma without_repl_length: "length (without_repl i rs) \<le> length rs" "i \<in> rp_id ` set rs \<Longrightarrow> length (without_repl i rs) < length rs"
  by (auto simp: without_repl_def length_filter_less)

lemma total_less:
  "total_repls (destroy_repl i m) \<le> total_repls m" "total_repls (release_repl r now m) \<le> total_repls m"
  "mg_max (destroy_repl i m) = mg_max m" "mg_max (release_repl r now m) = mg_max m"
proof -
  show "total_repls (destroy_repl i m) \<le> total_repls m"
    using without_repl_length(1) [of i "mg_busy m"] without_repl_length(1) [of i "mg_free m"]
    by (simp add: total_repls_def destroy_repl_def)
  show "total_repls (release_repl r now m) \<le> total_repls m"
    using without_repl_length(1) [of "rp_id r" "mg_busy m"] without_repl_length(2) [of "rp_id r" "mg_busy m"]
    by (auto simp: total_repls_def release_repl_def)
qed (simp_all add: destroy_repl_def release_repl_def)

lemma serial_within:
  assumes "within_cap s" "serial_step s s'"
  shows "within_cap s'" "mg_max (ms_pool s') = mg_max (ms_pool s)"
proof -
  have "within_cap s' \<and> mg_max (ms_pool s') = mg_max (ms_pool s)"
    using assms(2)
  proof cases
    case 1
    from 1(1) show ?thesis
    proof cases
      case (mgr_request header reuse deadline now)
      obtain d m where d: "try_get_repl header reuse deadline now (ms_pool s) = (d, m)" by force
      show ?thesis using try_get_total [OF d] d mgr_request 1(2) assms(1)
        by (cases d) (auto simp: get_repl_pass_def within_cap_def)
    next
      case (mgr_started header i now)
      then show ?thesis using assms(1)
        by (cases "ms_starting s") (auto simp: within_cap_def start_repl_def total_repls_def)
    next
      case (mgr_release r now)
      then show ?thesis using assms(1) total_less(2) [of r now "ms_pool s"] by (simp add: within_cap_def total_less(3,4))
    next
      case (mgr_destroy i)
      then show ?thesis using assms(1) total_less(1) [of i "ms_pool s"] by (simp add: within_cap_def total_less(3,4))
    qed
  qed
  then show "within_cap s'" "mg_max (ms_pool s') = mg_max (ms_pool s)" by simp_all
qed

interpretation repls: step_system serial_step within_cap "\<lambda>s. mg_max (ms_pool s)"
  by unfold_locales (simp add: serial_within)

section \<open>Properties\<close>

lemma run_one_answer:
  assumes "run_one snippet code timeout shown debug now w m = (Answered resp, m')"
    and "cw_lease w = LeaseGot r" "header_clean r" "ck_error resp = None" "cw_body w = Replied p t"
  shows "ck_response resp = ck_response (apply_header_offset \<lparr>ck_id = snippet, ck_time = t, ck_error = None,
    ck_response = Some p, ck_repl = Some (rp_id r)\<rparr> (int (sr_header_line_count (split_snippet code))))"
proof -
  obtain res r1 des where p: "prep snippet debug (cw_started w) (cw_header w) r = (res, r1, des)" by (metis prod_cases3)
  note pf = prep_facts [OF p assms(3)]
  show ?thesis
  proof (cases res)
    case (Prepared h)
    have clean: "\<not> (case h of Some h \<Rightarrow> truthy (ck_error h) | None \<Rightarrow> False)"
      using pf(3) Prepared by (auto simp: truthy_def split: option.split)
    show ?thesis
    proof (cases "rp_running r1")
      case True
      then show ?thesis using assms p Prepared clean pf
        by (cases "cw_db w") (auto simp: run_one_def Let_def send_timeout_def split: if_splits)
    next
      case False
      then show ?thesis using assms(1,2) p Prepared clean by (simp add: run_one_def Let_def send_timeout_def)
    qed
  next
    case PrepTimeout
    then show ?thesis using assms(1,2,4) p by (auto simp: run_one_def Let_def timeout_response_def)
  qed (use assms(1,2) p in \<open>simp_all add: run_one_def Let_def\<close>)
qed


text \<open>
  C33. The pool of REPLs keeps to its maximum only while requests start their processes one after
  another: then free, busy and starting processes never exceed \<open>max_repls\<close>; but the pass that decides to
  start a process reserves nothing before the lock is given up, so for every maximum two requests that
  arrive together when one place is left end with one process too many.
\<close>

theorem repl_cap_holds_only_serially:
  assumes "reaches serial_step (new_manager k uses) s"
  shows "total_repls (ms_pool s) + int (length (ms_starting s)) \<le> max k 0 \<and>
   (\<exists>s. reaches mgr_step (new_manager 1 uses) s \<and> ms_starting s = [] \<and> total_repls (ms_pool s) = 2)"
proof
  have "within_cap (new_manager k uses)" by (simp add: within_cap_def new_manager_def total_repls_def)
  then show "total_repls (ms_pool s) + int (length (ms_starting s)) \<le> max k 0"
    using repls.reached [OF assms] by (auto simp: within_cap_def new_manager_def)
  let ?m = "\<lambda>busy. \<lparr>mg_max = 1, mg_max_uses = uses, mg_free = [], mg_busy = busy\<rparr>"
  let ?r = "new_repl 0 [] uses 0" and ?q = "new_repl 1 [] uses 0"
  have "mgr_step (new_manager 1 uses) \<lparr>ms_pool = ?m [], ms_starting = [[]]\<rparr>"
    using mgr_request [of "new_manager 1 uses" "[]" True 10 0]
    by (simp add: get_repl_pass_def try_get_repl_def new_manager_def total_repls_def)
  moreover have "mgr_step \<lparr>ms_pool = ?m [], ms_starting = [[]]\<rparr> \<lparr>ms_pool = ?m [], ms_starting = [[], []]\<rparr>"
    using mgr_request [of "\<lparr>ms_pool = ?m [], ms_starting = [[]]\<rparr>" "[]" True 10 0]
    by (simp add: get_repl_pass_def try_get_repl_def total_repls_def)
  moreover have "mgr_step \<lparr>ms_pool = ?m [], ms_starting = [[], []]\<rparr> \<lparr>ms_pool = ?m [?r], ms_starting = [[]]\<rparr>"
    using mgr_started [of "[]" "\<lparr>ms_pool = ?m [], ms_starting = [[], []]\<rparr>" 0 0] by (simp add: start_repl_def)
  moreover have "mgr_step \<lparr>ms_pool = ?m [?r], ms_starting = [[]]\<rparr> \<lparr>ms_pool = ?m [?q, ?r], ms_starting = []\<rparr>"
    using mgr_started [of "[]" "\<lparr>ms_pool = ?m [?r], ms_starting = [[]]\<rparr>" 1 0] by (simp add: start_repl_def)
  ultimately have "reaches mgr_step (new_manager 1 uses) \<lparr>ms_pool = ?m [?q, ?r], ms_starting = []\<rparr>"
    by (meson reaches_refl reaches_step)
  then show "\<exists>s. reaches mgr_step (new_manager 1 uses) s \<and> ms_starting s = [] \<and> total_repls (ms_pool s) = 2"
    by (rule_tac x = "\<lparr>ms_pool = ?m [?q, ?r], ms_starting = []\<rparr>" in exI) (simp add: total_repls_def)
qed

theorem repl_cap_holds_only_serially_witness:
  "\<exists>s. reaches serial_step (new_manager 3 5) s \<and> ms_starting s = [[]] \<and>
     total_repls (ms_pool s) + int (length (ms_starting s)) \<le> 3"
proof -
  let ?s = "\<lparr>ms_pool = \<lparr>mg_max = 3, mg_max_uses = 5, mg_free = [], mg_busy = []\<rparr>, ms_starting = [[]]\<rparr>"
  have "mgr_step (new_manager 3 5) ?s"
    using mgr_request [of "new_manager 3 5" "[]" True 10 0]
    by (simp add: get_repl_pass_def try_get_repl_def new_manager_def total_repls_def)
  then have "serial_step (new_manager 3 5) ?s" by (rule serial_step.intros) (simp add: new_manager_def)
  then have "reaches serial_step (new_manager 3 5) ?s" by (rule reaches_step [OF reaches_refl])
  moreover from repl_cap_holds_only_serially [OF this] have "total_repls (ms_pool ?s) + int (length (ms_starting ?s)) \<le> 3"
    by simp
  ultimately show ?thesis by force
qed

text \<open>A check of a snippet with a header of two lines, an answer with one message, and a quiet pool.\<close>

definition demo_check_repl :: repl where
  "demo_check_repl = new_repl 7 (lit ''import Lean'') 5 0"

definition demo_check_code :: pystr where
  "demo_check_code = lit ''import Lean'' @ 10 # 10 # lit ''example'' @ 10 # lit ''done''"

definition demo_answer :: repl_payload where
  "demo_answer = CommandDone \<lparr>co_env = Some 1, co_messages = Some [\<lparr>lm_severity = lit ''error'',
     lm_pos = Some \<lparr>lp_line = 2, lp_column = 0\<rparr>, lm_end = None, lm_data = lit ''bad''\<rparr>], co_sorries = None\<rparr>"

definition demo_check_world :: "repl_payload \<Rightarrow> repl_reply \<Rightarrow> db_write \<Rightarrow> check_world" where
  "demo_check_world header body db = \<lparr>cw_lease = LeaseGot demo_check_repl, cw_started = None,
     cw_header = Replied header 1, cw_body = body, cw_db = db,
     cw_env1 = start_repl demo_check_repl, cw_env2 = (\<lambda>m. m), cw_env3 = (\<lambda>m. m),
     cw_env4 = (\<lambda>m. snd (try_get_repl (lit ''import Lean'') True 10 0 m))\<rparr>"

definition demo_manager :: manager where
  "demo_manager = \<lparr>mg_max = 1, mg_max_uses = 5, mg_free = [], mg_busy = []\<rparr>"

definition demo_check :: "repl_payload \<Rightarrow> repl_reply \<Rightarrow> db_write \<Rightarrow> check_outcome \<times> manager" where
  "demo_check header body db =
     run_one (lit ''a'') demo_check_code 30 (lit ''30.0'') False 9 (demo_check_world header body db) demo_manager"


text \<open>
  The lines that a check reports are lines of the submitted snippet: when a body is answered with
  messages, line \<open>k + 1\<close> of the body comes back as the line of the snippet that holds the same text.
\<close>

theorem check_reports_source_lines:
  assumes "run_one snippet code timeout shown debug now w m = (Answered resp, m')"
    and "cw_lease w = LeaseGot r" "header_clean r" "ck_error resp = None"
    and "cw_body w = Replied (CommandDone c) t" "co_messages c = Some ms" "msg \<in> set ms"
    and "lm_pos msg = Some \<lparr>lp_line = int k + 1, lp_column = col\<rparr>"
    and "k < length (splitlines (sr_body (split_snippet code)))"
  shows "\<exists>c' ms' msg' n. ck_response resp = Some (CommandDone c') \<and> co_messages c' = Some ms' \<and> msg' \<in> set ms' \<and>
    lm_data msg' = lm_data msg \<and> lm_pos msg' = Some \<lparr>lp_line = int n + 1, lp_column = col\<rparr> \<and>
    n < length (splitlines code) \<and> splitlines code ! n = splitlines (sr_body (split_snippet code)) ! k"
proof -
  let ?sp = "split_snippet code" and ?n = "sr_header_line_count (split_snippet code)"
  let ?body = "\<lparr>ck_id = snippet, ck_time = t, ck_error = None, ck_response = Some (CommandDone c), ck_repl = Some (rp_id r)\<rparr>"
  have resp: "ck_response resp = ck_response (apply_header_offset ?body (int ?n))"
    using run_one_answer [OF assms(1-5)] by simp
  have line: "k + ?n < length (splitlines code)" "splitlines (sr_body ?sp) ! k = splitlines code ! (k + ?n)"
    using body_line_offset [OF assms(9)] by simp_all
  show ?thesis
  proof (cases "?n = 0")
    case True
    then show ?thesis using resp assms(6-8) line by (auto simp: apply_header_offset_def)
  next
    case False
    obtain m0 ms0 where ms: "ms = m0 # ms0" using assms(7) by (cases ms) auto
    let ?f = "\<lambda>m. m\<lparr>lm_pos := shift_line (int ?n) (lm_pos m), lm_end := shift_line (int ?n) (lm_end m)\<rparr>"
    obtain c' where c': "ck_response resp = Some (CommandDone c')" "co_messages c' = Some (map ?f ms)"
      using resp False assms(6) ms by (simp add: apply_header_offset_def)
    have "?f msg \<in> set (map ?f ms)" using assms(7) by simp
    moreover have "lm_pos (?f msg) = Some \<lparr>lp_line = int (k + ?n) + 1, lp_column = col\<rparr>" "lm_data (?f msg) = lm_data msg"
      using assms(8) by (simp_all add: shift_line_def)
    ultimately show ?thesis using c' line(1) line(2) [symmetric] by (intro exI conjI)
  qed
qed

theorem check_reports_source_lines_witness:
  "\<exists>resp m' n. demo_check demo_answer (Replied demo_answer 2) DbDone = (Answered resp, m') \<and>
     n < length (splitlines demo_check_code) \<and> splitlines demo_check_code ! n = lit ''done''"
proof -
  let ?w = "demo_check_world demo_answer (Replied demo_answer 2) DbDone"
  obtain out m' where d: "demo_check demo_answer (Replied demo_answer 2) DbDone = (out, m')" by force
  have "case fst (demo_check demo_answer (Replied demo_answer 2) DbDone) of Answered resp \<Rightarrow> ck_error resp = None
      | HttpFailed n s \<Rightarrow> False | CheckCancelled \<Rightarrow> False"
    by code_simp
  then obtain resp where r: "demo_check demo_answer (Replied demo_answer 2) DbDone = (Answered resp, m')" "ck_error resp = None"
    using d by (cases out) simp_all
  let ?m = "\<lparr>lm_severity = lit ''error'', lm_pos = Some \<lparr>lp_line = 2, lp_column = 0\<rparr>, lm_end = None, lm_data = lit ''bad''\<rparr>"
  have "splitlines (sr_body (split_snippet demo_check_code)) = [lit ''example'', lit ''done'']" by code_simp
  moreover have "cw_lease ?w = LeaseGot demo_check_repl" "header_clean demo_check_repl"
    "cw_body ?w = Replied (CommandDone \<lparr>co_env = Some 1, co_messages = Some [?m], co_sorries = None\<rparr>) 2"
    by (simp_all add: demo_check_world_def header_clean_def demo_check_repl_def new_repl_def demo_answer_def)
  ultimately have "\<exists>n < length (splitlines demo_check_code). splitlines demo_check_code ! n = lit ''done''"
    using check_reports_source_lines [OF r(1) [unfolded demo_check_def], of demo_check_repl _ 2 "[?m]" ?m 1 0] r(2) by auto
  with r(1) show ?thesis by blast
qed

text \<open>
  Isolation of the snippets on one process: with a header, every body is sent to environment 0, which
  the header made; without a header the first body is sent without an environment and makes
  environment 0 itself, so every later snippet on that process runs in what the first one left.
\<close>

theorem bodies_share_environment_zero:
  assumes "rp_uses r = 0"
  shows "process_commands r (b # bs) =
    (if is_blank (rp_header r)
     then \<lparr>rc_cmd = snd b, rc_env = None, rc_infotree = (if fst b = Some [] then None else fst b), rc_gc = False\<rparr> # map later_command bs
     else \<lparr>rc_cmd = rp_header r, rc_env = None, rc_infotree = None, rc_gc = False\<rparr>
            # map later_command (b # bs))"
  using assms by (auto simp: process_commands_def command_of_def body_commands_used later_command_def)

theorem bodies_share_environment_zero_witness:
  "process_commands (new_repl 0 [] 5 0) [(None, lit ''def f := 1''), (None, lit ''def f := 2'')] =
     [\<lparr>rc_cmd = lit ''def f := 1'', rc_env = None, rc_infotree = None, rc_gc = False\<rparr>,
      \<lparr>rc_cmd = lit ''def f := 2'', rc_env = Some 0, rc_infotree = None, rc_gc = True\<rparr>]"
proof -
  have "rp_uses (new_repl 0 [] 5 0) = 0" "is_blank (rp_header (new_repl 0 [] 5 0))"
    by (simp_all add: new_repl_def is_blank_def) code_simp
  then show ?thesis using bodies_share_environment_zero [of "new_repl 0 [] 5 0"] by (simp add: later_command_def)
qed

text \<open>
  \<open>send_timeout\<close> never sets the error of its response, so the branch of \<open>prep\<close> for a failed header is
  never taken: a process whose header the REPL refused runs the body and goes back to the pool.
\<close>

lemma failed_header_goes_unnoticed:
  "case demo_check (CommandError (lit ''unknown package'')) (Replied demo_answer 2) DbDone of
     (Answered resp, m) \<Rightarrow> ck_response resp \<noteq> None \<and> map rp_id (mg_free m) = [7] | _ \<Rightarrow> False"
  by code_simp

text \<open>
  A check that is cancelled while it writes to the database has already released its process, and
  destroys it nevertheless: here the process had just been leased to the next request.
\<close>

lemma late_cancel_kills_leased_process:
  "let m3 = snd (demo_check demo_answer (Replied demo_answer 2) DbDone);
       m4 = snd (try_get_repl (lit ''import Lean'') True 10 0 m3)
   in map rp_id (mg_busy m4) = [7] \<and>
      demo_check demo_answer (Replied demo_answer 2) DbCancelled = (CheckCancelled, destroy_repl 7 m4) \<and>
      mg_busy (destroy_repl 7 m4) = []"
  by code_simp

text \<open>Without messages the lines of the sorries stay lines of the body.\<close>

lemma sorries_alone_are_not_shifted:
  "co_messages c = None \<or> co_messages c = Some [] \<Longrightarrow>
     apply_header_offset \<lparr>ck_id = i, ck_time = t, ck_error = None, ck_response = Some (CommandDone c), ck_repl = None\<rparr> n
     = \<lparr>ck_id = i, ck_time = t, ck_error = None, ck_response = Some (CommandDone c), ck_repl = None\<rparr>"
  by (auto simp: apply_header_offset_def)

end
