(* ===== verification/CheckModels.thy ===== *)
theory CheckModels
  imports CheckPool
begin

text \<open>
  What clients make of the answers of \<open>/check\<close> and \<open>/verify\<close>: the request and response models of
  \<open>lean_client/models.py\<close>, the older readers of \<open>lean_client/proof_utils.py\<close>, and the compatibility route
  \<open>server/routers/backward.py\<close>.  An optional list that is absent is \<open>None\<close>; the server's responses leave
  such keys out.
\<close>

section \<open>Requests\<close>

record code_item =
  cd_custom_id :: pystr
  cd_proof :: "pystr option"
  cd_code :: "pystr option"

definition get_proof_content :: "code_item \<Rightarrow> pystr option" where
  "get_proof_content c = (case cd_proof c of Some p \<Rightarrow> Some p | None \<Rightarrow> cd_code c)"

record snippet =
  sn_id :: pystr
  sn_code :: pystr

datatype request_error = NoSnippets | DuplicateIds | NegativeTimeout | NoContent pystr

definition check_request :: "snippet list \<Rightarrow> int \<Rightarrow> request_error + unit" where
  "check_request snippets timeout =
     (if timeout < 0 then Inl NegativeTimeout
      else if snippets = [] then Inl NoSnippets
      else if card (set (map sn_id snippets)) \<noteq> length snippets then Inl DuplicateIds
      else Inr ())"

text \<open>\<open>one_pass_verify_batch\<close>, up to the checks.\<close>

definition snippets_of :: "code_item list \<Rightarrow> request_error + snippet list" where
  "snippets_of codes = emap (\<lambda>c. case get_proof_content c of
      None \<Rightarrow> Inl (NoContent (cd_custom_id c))
    | Some p \<Rightarrow> Inr \<lparr>sn_id = cd_custom_id c, sn_code = p\<rparr>) codes"

section \<open>Verdicts on a response\<close>

definition is_error :: "command_response \<Rightarrow> bool" where
  "is_error c = (case co_messages c of None \<Rightarrow> False
     | Some ms \<Rightarrow> list_ex (\<lambda>m. lm_severity m = lit ''error'') ms)"

definition has_sorry :: "command_response \<Rightarrow> bool" where
  "has_sorry c = (case co_sorries c of None \<Rightarrow> False | Some ss \<Rightarrow> ss \<noteq> [])"

definition is_valid :: "command_response \<Rightarrow> bool" where
  "is_valid c \<longleftrightarrow> \<not> is_error c \<and> \<not> has_sorry c"

definition is_sorry :: "command_response \<Rightarrow> bool" where
  "is_sorry c \<longleftrightarrow> \<not> is_error c \<and> has_sorry c"

datatype snippet_status = StValid | StSorry | StLeanError | StReplError | StTimeoutError | StServerError

text \<open>\<open>ReplResponse.analyze\<close>; \<open>None\<close> is one of its two exceptions that should not happen.\<close>

definition analyze :: "check_response \<Rightarrow> (snippet_status \<times> int option) option" where
  "analyze r =
     (case ck_error r of
        Some e \<Rightarrow> Some (if contains (lit ''timed out'') e then StTimeoutError else StServerError, None)
      | None \<Rightarrow>
          (case ck_response r of
             None \<Rightarrow> None
           | Some (CommandError text) \<Rightarrow> Some (StReplError, Some (ck_time r))
           | Some (CommandDone c) \<Rightarrow>
               if is_error c then Some (StLeanError, Some (ck_time r))
               else if is_valid c then Some (StValid, Some (ck_time r))
               else if is_sorry c then Some (StSorry, Some (ck_time r))
               else None))"

definition count_with :: "snippet_status \<Rightarrow> (snippet_status \<times> int option) list \<Rightarrow> nat" where
  "count_with s as = length (filter (\<lambda>a. fst a = s) as)"

record check_summary =
  su_valid :: nat
  su_sorry :: nat
  su_lean :: nat
  su_timeout :: nat
  su_repl :: nat
  su_server :: nat
  su_total_time :: int
  su_timed :: nat

text \<open>\<open>CheckResponse.merge\<close>, and \<open>CheckResponse.analyze\<close> up to printing; the average is total over timed.\<close>

definition merge_responses :: "check_response list list \<Rightarrow> check_response list" where
  "merge_responses = concat"

fun analyze_all :: "check_response list \<Rightarrow> (snippet_status \<times> int option) list option" where
  "analyze_all [] = Some []"
| "analyze_all (r # rs) =
     (case analyze r of None \<Rightarrow> None | Some a \<Rightarrow> map_option ((#) a) (analyze_all rs))"

definition summarize :: "check_response list \<Rightarrow> check_summary option" where
  "summarize rs = map_option (\<lambda>as. \<lparr>su_valid = count_with StValid as, su_sorry = count_with StSorry as,
     su_lean = count_with StLeanError as, su_timeout = count_with StTimeoutError as,
     su_repl = count_with StReplError as, su_server = count_with StServerError as,
     su_total_time = sum_list (List.map_filter snd as),
     su_timed = length (List.map_filter snd as)\<rparr>) (analyze_all rs)"

section \<open>The compatible response\<close>

datatype extended_payload = ExtendedDone command_response "int option" | ExtendedError pystr "int option"

definition extend_response :: "repl_payload option \<Rightarrow> int option \<Rightarrow> extended_payload option" where
  "extend_response p t = map_option (\<lambda>p. case p of CommandError text \<Rightarrow> ExtendedError text t
     | CommandDone c \<Rightarrow> ExtendedDone c t) p"

record backward_response =
  bk_id :: pystr
  bk_error :: "pystr option"
  bk_response :: "extended_payload option"

definition backward_of :: "check_response \<Rightarrow> backward_response" where
  "backward_of r = \<lparr>bk_id = ck_id r, bk_error = ck_error r, bk_response = extend_response (ck_response r) (Some (ck_time r))\<rparr>"

section \<open>The older readers\<close>

definition sorry_warning :: pystr where
  "sorry_warning = lit ''declaration uses '' @ 39 # lit ''sorry'' @ [39]"

definition error_data :: "extended_payload \<Rightarrow> pystr list" where
  "error_data p = (case p of
      ExtendedDone c t \<Rightarrow> (case co_messages c of None \<Rightarrow> []
        | Some ms \<Rightarrow> map lm_data (filter (\<lambda>m. lm_severity m = lit ''error'') ms))
    | ExtendedError text t \<Rightarrow> [])"

definition sorry_data :: "extended_payload \<Rightarrow> pystr list" where
  "sorry_data p = (case p of
      ExtendedDone c t \<Rightarrow> (case co_messages c of None \<Rightarrow> []
        | Some ms \<Rightarrow> filter (contains sorry_warning)
            (map lm_data (filter (\<lambda>m. lm_severity m = lit ''warning'') ms)))
    | ExtendedError text t \<Rightarrow> [])"

text \<open>\<open>None\<close> feedback raises, so the result is optional.\<close>

definition has_error_response :: "extended_payload option \<Rightarrow> bool \<Rightarrow> bool option" where
  "has_error_response p accept_sorry =
     map_option (\<lambda>p. error_data p \<noteq> [] \<or> (\<not> accept_sorry \<and> sorry_data p \<noteq> [])) p"

record parsed_response =
  pr_has_error :: bool
  pr_valid_no_sorry :: bool
  pr_valid_with_sorry :: bool
  pr_time :: "int option"

text \<open>\<open>or\<close> and \<open>and\<close> do not look at the feedback when there is an error message.\<close>

definition parse_client_response :: "backward_response \<Rightarrow> parsed_response option" where
  "parse_client_response b =
     (let time = (case bk_response b of None \<Rightarrow> None | Some (ExtendedDone c t) \<Rightarrow> t | Some (ExtendedError text t) \<Rightarrow> t)
      in if truthy (bk_error b)
         then Some \<lparr>pr_has_error = True, pr_valid_no_sorry = False, pr_valid_with_sorry = False, pr_time = time\<rparr>
         else (case (has_error_response (bk_response b) True, has_error_response (bk_response b) False) of
                 (Some e, Some e') \<Rightarrow> Some \<lparr>pr_has_error = e, pr_valid_no_sorry = \<not> e', pr_valid_with_sorry = \<not> e,
                                         pr_time = time\<rparr>
               | _ \<Rightarrow> None))"

text \<open>\<open>analyze_sample\<close>: the parsed response with the connection error, and no time after a timeout.\<close>

definition analyze_sample :: "backward_response \<Rightarrow> (parsed_response \<times> bool) option" where
  "analyze_sample b = map_option (\<lambda>p.
     (if (case bk_error b of Some e \<Rightarrow> contains (lit ''timed out'') e | None \<Rightarrow> False) then p\<lparr>pr_time := None\<rparr> else p,
      truthy (bk_error b))) (parse_client_response b)"

section \<open>Messages by line\<close>

record final_message =
  fm_severity :: pystr
  fm_text :: pystr
  fm_pos :: lean_pos
  fm_end :: "lean_pos option"

definition origin :: lean_pos where
  "origin = \<lparr>lp_line = 0, lp_column = 0\<rparr>"

definition parse_message :: "lean_message \<Rightarrow> final_message" where
  "parse_message m = \<lparr>fm_severity = lm_severity m, fm_text = lm_data m,
     fm_pos = (case lm_pos m of None \<Rightarrow> origin | Some p \<Rightarrow> p),
     fm_end = (case lm_end m of None \<Rightarrow> Some origin | Some p \<Rightarrow> Some p)\<rparr>"

text \<open>The pattern \<open>^([^:]+):\n(.*)\<close>: what is before the first colon, if a line break follows it.\<close>

definition parse_error_message :: "pystr \<Rightarrow> final_message" where
  "parse_error_message s =
     (let sev = takeWhile (\<lambda>c. c \<noteq> 58) s; rest = dropWhile (\<lambda>c. c \<noteq> 58) s
      in if sev \<noteq> [] \<and> starts_with [58, 10] rest
         then \<lparr>fm_severity = sev, fm_text = drop 2 rest, fm_pos = origin, fm_end = Some origin\<rparr>
         else \<lparr>fm_severity = lit ''error'', fm_text = s, fm_pos = origin, fm_end = Some origin\<rparr>)"

definition parsed_messages :: "repl_payload \<Rightarrow> final_message list" where
  "parsed_messages p = (case p of
      CommandDone c \<Rightarrow> (case co_messages c of None \<Rightarrow> [] | Some ms \<Rightarrow> map parse_message ms)
    | CommandError text \<Rightarrow> [parse_error_message text])"

text \<open>\<open>{line: m for m in reversed(messages)}\<close>\<close>

definition parse_lean_response :: "repl_payload \<Rightarrow> (int, final_message) pydict" where
  "parse_lean_response p = foldl (\<lambda>d m. dset (lp_line (fm_pos m)) m d) [] (rev (parsed_messages p))"

definition messages_for_lines :: "(int, final_message) pydict \<Rightarrow> int \<Rightarrow> int \<Rightarrow> final_message list \<times> bool \<times> bool" where
  "messages_for_lines d first_line last_line =
     (let ms = List.map_filter (dget d) [first_line..last_line]
      in (ms, list_ex (\<lambda>m. fm_severity m = lit ''error'') ms,
          list_ex (\<lambda>m. contains (lit ''unsolved goals'') (fm_text m)) ms))"

section \<open>Facts\<close>

lemma statuses: "is_error c \<or> is_valid c \<or> is_sorry c" "\<not> (is_error c \<and> is_valid c)"
  "\<not> (is_error c \<and> is_sorry c)" "\<not> (is_valid c \<and> is_sorry c)"
  by (auto simp: is_valid_def is_sorry_def)

lemma analyze_total: "response_valid r \<Longrightarrow> analyze r \<noteq> None"
  using statuses(1) by (auto simp: response_valid_def analyze_def split: option.splits repl_payload.split)

lemma analyze_all_total: "list_all response_valid rs \<Longrightarrow> \<exists>as. analyze_all rs = Some as \<and> length as = length rs"
  by (induction rs) (use analyze_total in \<open>fastforce split: option.split\<close>)+

lemma counts_partition:
  "count_with StValid as + count_with StSorry as + count_with StLeanError as + count_with StTimeoutError as
     + count_with StReplError as + count_with StServerError as = length as"
proof (induction as)
  case (Cons a as)
  then show ?case by (cases "fst a") (simp_all add: count_with_def)
qed (simp add: count_with_def)

lemma first_on_line:
  "dget (parse_lean_response p) l = find (\<lambda>m. lp_line (fm_pos m) = l) (parsed_messages p)"
proof -
  have "dget (foldl (\<lambda>d m. dset (lp_line (fm_pos m)) m d) [] (rev ms)) l = find (\<lambda>m. lp_line (fm_pos m) = l) ms" for ms
    by (induction ms) simp_all
  then show ?thesis by (simp add: parse_lean_response_def)
qed

section \<open>Properties\<close>


text \<open>A refused command, and a proof with \<open>sorry\<close> whose warning quotes the word with backticks.\<close>

definition refused :: check_response where
  "refused = \<lparr>ck_id = lit ''a'', ck_time = 1, ck_error = None, ck_response = Some (CommandError (lit ''Unknown environment.'')),
     ck_repl = None\<rparr>"

definition backtick_sorry :: check_response where
  "backtick_sorry = \<lparr>ck_id = lit ''a'', ck_time = 1, ck_error = None,
     ck_response = Some (CommandDone \<lparr>co_env = Some 1,
       co_messages = Some [\<lparr>lm_severity = lit ''warning'', lm_pos = None, lm_end = None,
         lm_data = lit ''declaration uses '' @ 96 # lit ''sorry'' @ [96]\<rparr>],
       co_sorries = Some [\<lparr>so_pos = None, so_end = None, so_goal = []\<rparr>]\<rparr>), ck_repl = None\<rparr>"


lemma backtick_sorry_passes:
  "analyze backtick_sorry = Some (StSorry, Some 1)"
  "map_option pr_valid_no_sorry (parse_client_response (backward_of backtick_sorry)) = Some True"
  by code_simp+

text \<open>
  Every valid response has exactly one status: the analysis of a batch never meets the cases that
  should not happen, and its six counts add up to the number of results.
\<close>

theorem summary_counts_every_result:
  assumes "list_all response_valid rs"
  shows "\<exists>s. summarize rs = Some s \<and>
    su_valid s + su_sorry s + su_lean s + su_timeout s + su_repl s + su_server s = length rs \<and>
    su_timed s + su_timeout s + su_server s = length rs"
proof -
  obtain as where a: "analyze_all rs = Some as" "length as = length rs" using analyze_all_total [OF assms] by blast
  have "analyze_all rs = Some as \<Longrightarrow> length (List.map_filter snd as) + count_with StTimeoutError as + count_with StServerError as
      = length rs" for rs as
  proof (induction rs arbitrary: as)
    case (Cons r rs)
    then obtain s t as' where "analyze r = Some (s, t)" "as = (s, t) # as'" "analyze_all rs = Some as'"
      by (auto split: option.splits)
    moreover from this(1) have "(t = None) = (s = StTimeoutError \<or> s = StServerError)"
      by (auto simp: analyze_def split: option.splits repl_payload.splits if_splits)
    ultimately show ?case using Cons.IH by (cases s; cases t) (auto simp: count_with_def map_filter_simps)
  qed (simp add: count_with_def map_filter_simps)
  with a show ?thesis using counts_partition [of as] by (simp add: summarize_def)
qed

theorem summary_counts_every_result_witness:
  "\<exists>s. summarize [refused, backtick_sorry] = Some s \<and> su_valid s + su_sorry s + su_lean s + su_timeout s + su_repl s + su_server s = 2"
proof -
  have "list_all response_valid [refused, backtick_sorry]" by (simp add: response_valid_def refused_def backtick_sorry_def)
  from summary_counts_every_result [OF this] show ?thesis by auto
qed

text \<open>
  Only the first message of a line is looked at: an error that follows a warning on its line does not
  make the lines count as failing.
\<close>

lemma error_behind_warning_is_missed:
  "let m = (\<lambda>s. \<lparr>lm_severity = lit s, lm_pos = Some \<lparr>lp_line = 3, lp_column = 0\<rparr>, lm_end = None, lm_data = []\<rparr>);
       c = \<lparr>co_env = None, co_messages = Some [m ''warning'', m ''error''], co_sorries = None\<rparr>
   in is_error c \<and> \<not> fst (snd (messages_for_lines (parse_lean_response (CommandDone c)) 1 5))"
  by code_simp

end
