(* ===== verification/JsonText.thy ===== *)
theory JsonText
  imports PyText
begin

text \<open>
  JSON as the standard library prints and reads it: \<open>json.dumps\<close> with its default separators, with and
  without \<open>ensure_ascii\<close>, \<open>json.loads\<close>, and the UTF-8 coding of the text on a pipe or in a file.  Numbers
  with a fraction or an exponent are kept as written; the code never prints one through this theory.
  The nesting limit of the interpreter is not modelled.
\<close>

datatype json = JNull | JBool bool | JInt int | JFloat pystr | JText pystr | JList "json list"
  | JObject "(pystr \<times> json) list"

section \<open>UTF-8\<close>

text \<open>Scalar values: the code points that have an encoding, all but the surrogates.\<close>

definition scalar :: "int \<Rightarrow> bool" where
  "scalar c \<longleftrightarrow> (0 \<le> c \<and> c < 55296) \<or> (57344 \<le> c \<and> c < 1114112)"

definition utf8_char :: "int \<Rightarrow> int list" where
  "utf8_char c =
     (if c < 128 then [c]
      else if c < 2048 then [192 + c div 64, 128 + c mod 64]
      else if c < 65536 then [224 + c div 4096, 128 + c div 64 mod 64, 128 + c mod 64]
      else [240 + c div 262144, 128 + c div 4096 mod 64, 128 + c div 64 mod 64, 128 + c mod 64])"

text \<open>\<open>s.encode("utf-8")\<close>; \<open>None\<close> is \<open>UnicodeEncodeError\<close>.\<close>

definition utf8_encode :: "pystr \<Rightarrow> int list option" where
  "utf8_encode s = (if list_all scalar s then Some (concat (map utf8_char s)) else None)"

definition cont_byte :: "int \<Rightarrow> bool" where
  "cont_byte b \<longleftrightarrow> 128 \<le> b \<and> b < 192"

text \<open>\<open>bytes.decode("utf-8")\<close>: continuation bytes, no overlong forms, no surrogates.\<close>

fun utf8_decode :: "int list \<Rightarrow> pystr option" where
  "utf8_decode [] = Some []"
| "utf8_decode (a # s) =
     (if 0 \<le> a \<and> a < 128 then map_option ((#) a) (utf8_decode s)
      else case s of
        b # s1 \<Rightarrow>
          if 194 \<le> a \<and> a < 224 \<and> cont_byte b
          then map_option ((#) (64 * (a - 192) + (b - 128))) (utf8_decode s1)
          else (case s1 of
            c # s2 \<Rightarrow>
              let v3 = 4096 * (a - 224) + 64 * (b - 128) + (c - 128)
              in if 224 \<le> a \<and> a < 240 \<and> cont_byte b \<and> cont_byte c \<and> 2048 \<le> v3 \<and> scalar v3
                 then map_option ((#) v3) (utf8_decode s2)
                 else (case s2 of
                   d # s3 \<Rightarrow>
                     let v4 = 262144 * (a - 240) + 4096 * (b - 128) + 64 * (c - 128) + (d - 128)
                     in if 240 \<le> a \<and> a < 245 \<and> cont_byte b \<and> cont_byte c \<and> cont_byte d \<and> 65536 \<le> v4 \<and> scalar v4
                        then map_option ((#) v4) (utf8_decode s3) else None
                 | [] \<Rightarrow> None)
          | [] \<Rightarrow> None)
      | [] \<Rightarrow> None)"

lemma utf8_decode_one: "0 \<le> c \<Longrightarrow> c < 128 \<Longrightarrow> utf8_decode (c # s) = map_option ((#) c) (utf8_decode s)"
  by simp

lemma utf8_decode_two:
  assumes "c = 64 * h + l" "2 \<le> h" "h < 32" "0 \<le> l" "l < 64"
  shows "utf8_decode ((192 + h) # (128 + l) # s) = map_option ((#) c) (utf8_decode s)"
  using assms by (simp add: cont_byte_def)

lemma utf8_decode_three:
  assumes "c = 4096 * g + 64 * h + l" "0 \<le> g" "g < 16" "0 \<le> h" "h < 64" "0 \<le> l" "l < 64" "2048 \<le> c" "scalar c"
  shows "utf8_decode ((224 + g) # (128 + h) # (128 + l) # s) = map_option ((#) c) (utf8_decode s)"
  using assms by (simp add: cont_byte_def)

lemma utf8_decode_four:
  assumes "c = 262144 * f + 4096 * g + 64 * h + l" "0 \<le> f" "f < 5" "0 \<le> g" "g < 64" "0 \<le> h" "h < 64"
    "0 \<le> l" "l < 64" "65536 \<le> c" "scalar c"
  shows "utf8_decode ((240 + f) # (128 + g) # (128 + h) # (128 + l) # s) = map_option ((#) c) (utf8_decode s)"
  using assms by (simp add: cont_byte_def)

declare utf8_decode.simps(2) [simp del]

lemma digits_base:
  fixes c :: int
  assumes "0 < b" "bb = b * b" "bbb = bb * b"
  shows "c = bb * (c div bb) + b * (c div b mod b) + c mod b"
    and "c = bbb * (c div bbb) + bb * (c div bb mod b) + b * (c div b mod b) + c mod b"
proof -
  have d2: "c div bb = c div b div b" and d3: "c div bbb = c div bb div b"
    using assms by (simp_all add: zdiv_zmult2_eq)
  have e1: "c = b * (c div b) + c mod b" by simp
  have e2: "b * (c div b) = b * (b * (c div bb) + c div b mod b)" by (simp add: d2)
  have e3: "bb * (c div bb) = bb * (b * (c div bbb) + c div bb mod b)" by (simp add: d3)
  show two: "c = bb * (c div bb) + b * (c div b mod b) + c mod b"
    using e1 e2 assms(2) by (simp add: distrib_left mult.assoc)
  show "c = bbb * (c div bbb) + bb * (c div bb mod b) + b * (c div b mod b) + c mod b"
    using two e3 assms(3) by (simp add: distrib_left mult.assoc mult.left_commute mult.commute)
qed

lemma utf8_decode_char:
  assumes "scalar c"
  shows "utf8_decode (utf8_char c @ s) = map_option ((#) c) (utf8_decode s)"
proof -
  have pos: "0 \<le> c" "c < 1114112" using assms by (auto simp: scalar_def)
  consider "c < 128" | "128 \<le> c" "c < 2048" | "2048 \<le> c" "c < 65536" | "65536 \<le> c" by linarith
  then show ?thesis
  proof cases
    case 1
    with pos show ?thesis by (simp add: utf8_char_def utf8_decode_one)
  next
    case 2
    then have "utf8_char c = [192 + c div 64, 128 + c mod 64]" by (simp add: utf8_char_def)
    then show ?thesis by (simp only: append.simps) (rule utf8_decode_two; use 2 in auto)
  next
    case 3
    then have "utf8_char c = [224 + c div 4096, 128 + c div 64 mod 64, 128 + c mod 64]" by (simp add: utf8_char_def)
    moreover have "c = 4096 * (c div 4096) + 64 * (c div 64 mod 64) + c mod 64"
      by (rule digits_base(1)) simp_all
    ultimately show ?thesis
      using 3 assms by (simp only: append.simps) (rule utf8_decode_three; assumption?; auto)
  next
    case 4
    then have u: "utf8_char c = [240 + c div 262144, 128 + c div 4096 mod 64, 128 + c div 64 mod 64, 128 + c mod 64]"
      by (simp add: utf8_char_def)
    have e: "c = 262144 * (c div 262144) + 4096 * (c div 4096 mod 64) + 64 * (c div 64 mod 64) + c mod 64"
      by (rule digits_base(2)) simp_all
    have "0 \<le> c div 262144" "c div 262144 < 5" using 4 pos by simp_all
    then show ?thesis
      unfolding u append.simps by (intro utf8_decode_four [OF e] 4 assms) simp_all
  qed
qed

lemma utf8_roundtrip: "utf8_encode s = Some bs \<Longrightarrow> utf8_decode bs = Some s"
proof (induction s arbitrary: bs)
  case (Cons c s)
  then show ?case by (auto simp: utf8_encode_def utf8_decode_char split: if_splits)
qed (simp add: utf8_encode_def)

text \<open>A byte below 128 in the coded text is that character itself, so lines stay lines.\<close>

lemma utf8_char_ascii: "scalar c \<Longrightarrow> b < 128 \<Longrightarrow> b \<in> set (utf8_char c) \<longleftrightarrow> b = c"
proof -
  assume s: "scalar c" and b: "b < 128"
  have "0 \<le> c" using s by (auto simp: scalar_def)
  then have d: "0 \<le> c div 64" "0 \<le> c div 4096" "0 \<le> c div 262144" by auto
  have m: "0 \<le> x mod (64::int)" for x by simp
  have "b \<noteq> 128 + x mod 64" "0 \<le> x \<Longrightarrow> b \<noteq> 192 + x" "0 \<le> x \<Longrightarrow> b \<noteq> 224 + x" "0 \<le> x \<Longrightarrow> b \<noteq> 240 + x" for x
    using b m [of x] by linarith+
  with d b show ?thesis by (simp add: utf8_char_def)
qed

lemma utf8_ascii: "utf8_encode s = Some bs \<Longrightarrow> b < 128 \<Longrightarrow> b \<in> set bs \<longleftrightarrow> b \<in> set s"
  by (auto simp: utf8_encode_def list_all_iff utf8_char_ascii split: if_splits)

section \<open>Printing\<close>

definition hex_digit :: "int \<Rightarrow> int" where
  "hex_digit n = (if n < 10 then 48 + n else 87 + n)"

definition hex4 :: "int \<Rightarrow> pystr" where
  "hex4 n = map hex_digit [n div 4096 mod 16, n div 256 mod 16, n div 16 mod 16, n mod 16]"

text \<open>Code points beyond the basic plane are two escapes in ASCII output.\<close>

definition escape_char :: "bool \<Rightarrow> int \<Rightarrow> pystr" where
  "escape_char ascii c =
     (if c = 34 then [92, 34] else if c = 92 then [92, 92]
      else if c = 10 then [92, 110] else if c = 13 then [92, 114] else if c = 9 then [92, 116]
      else if c = 12 then [92, 102] else if c = 8 then [92, 98]
      else if c < 32 then [92, 117] @ hex4 c
      else if ascii \<and> 126 < c
           then (if c < 65536 then [92, 117] @ hex4 c
                 else [92, 117] @ hex4 (55296 + (c - 65536) div 1024) @ [92, 117] @ hex4 (56320 + (c - 65536) mod 1024))
      else [c])"

definition json_text :: "bool \<Rightarrow> pystr \<Rightarrow> pystr" where
  "json_text ascii s = [34] @ concat (map (escape_char ascii) s) @ [34]"

text \<open>\<open>json.dumps(v, ensure_ascii=ascii)\<close>\<close>

fun dumps :: "bool \<Rightarrow> json \<Rightarrow> pystr" where
  "dumps a JNull = lit ''null''"
| "dumps a (JBool b) = (if b then lit ''true'' else lit ''false'')"
| "dumps a (JInt n) = str_int n"
| "dumps a (JFloat s) = s"
| "dumps a (JText s) = json_text a s"
| "dumps a (JList vs) = lit ''['' @ join (lit '', '') (map (dumps a) vs) @ lit '']''"
| "dumps a (JObject kvs) =
     lit ''{'' @ join (lit '', '') (map (\<lambda>(k, v). json_text a k @ lit '': '' @ dumps a v) kvs) @ lit ''}''"

section \<open>Reading\<close>

definition json_space :: "int \<Rightarrow> bool" where
  "json_space c \<longleftrightarrow> c = 32 \<or> c = 9 \<or> c = 10 \<or> c = 13"

definition skip_space :: "pystr \<Rightarrow> pystr" where
  "skip_space s = dropWhile json_space s"

definition hex_value :: "int \<Rightarrow> int option" where
  "hex_value c = (if is_digit c then Some (c - 48) else if 97 \<le> c \<and> c \<le> 102 then Some (c - 87)
     else if 65 \<le> c \<and> c \<le> 70 then Some (c - 55) else None)"

definition read_hex4 :: "pystr \<Rightarrow> int option" where
  "read_hex4 s = (if length s < 4 then None
     else map_option (foldl (\<lambda>v d. 16 * v + d) 0) (those (map hex_value (take 4 s))))"

definition simple_escape :: "int \<Rightarrow> int option" where
  "simple_escape e = map_of [(34, 34), (92, 92), (47, 47), (98, 8), (102, 12), (110, 10), (114, 13), (116, 9)] e"

text \<open>The second half of a surrogate pair, when it follows.\<close>

definition low_half :: "int \<Rightarrow> pystr \<Rightarrow> int option" where
  "low_half u s =
     (if 55296 \<le> u \<and> u < 56320 \<and> starts_with [92, 117] s
      then (case read_hex4 (drop 2 s) of
              Some l \<Rightarrow> if 56320 \<le> l \<and> l < 57344 then Some (65536 + 1024 * (u - 55296) + (l - 56320)) else None
            | None \<Rightarrow> None)
      else None)"

text \<open>The rest of a string after its opening quote, and what follows the closing one.\<close>

fun scan_string :: "pystr \<Rightarrow> (pystr \<times> pystr) option" where
  "scan_string [] = None"
| "scan_string (c # s) =
     (if c = 34 then Some ([], s)
      else if c < 32 then None
      else if c \<noteq> 92 then map_option (apfst ((#) c)) (scan_string s)
      else case s of
        [] \<Rightarrow> None
      | e # t \<Rightarrow>
          if e = 117
          then (case read_hex4 t of
                  None \<Rightarrow> None
                | Some u \<Rightarrow>
                    (case low_half u (drop 4 t) of
                       Some w \<Rightarrow> map_option (apfst ((#) w)) (scan_string (drop 10 t))
                     | None \<Rightarrow> map_option (apfst ((#) u)) (scan_string (drop 4 t))))
          else (case simple_escape e of
                  None \<Rightarrow> None
                | Some w \<Rightarrow> map_option (apfst ((#) w)) (scan_string t)))"

definition digits_of :: "pystr \<Rightarrow> pystr" where
  "digits_of s = takeWhile is_digit s"

text \<open>A number is the longest prefix of the form the grammar has; leading zeros end it.\<close>

definition int_part :: "pystr \<Rightarrow> pystr" where
  "int_part s = (if starts_with [48] s then [48] else digits_of s)"

definition frac_part :: "pystr \<Rightarrow> pystr" where
  "frac_part s = (if starts_with [46] s \<and> digits_of (drop 1 s) \<noteq> [] then 46 # digits_of (drop 1 s) else [])"

definition exp_part :: "pystr \<Rightarrow> pystr" where
  "exp_part s =
     (let t = drop 1 s;
          sign = (if starts_with [43] t \<or> starts_with [45] t then take 1 t else []);
          digits = digits_of (drop (length sign) t)
      in if (starts_with [101] s \<or> starts_with [69] s) \<and> digits \<noteq> [] then take 1 s @ sign @ digits else [])"

definition scan_number :: "pystr \<Rightarrow> (json \<times> pystr) option" where
  "scan_number s =
     (let neg = starts_with [45] s;
          s1 = (if neg then drop 1 s else s);
          ip = int_part s1;
          s2 = drop (length ip) s1;
          fp = frac_part s2;
          s3 = drop (length fp) s2;
          ep = exp_part s3
      in if ip = [] then None
         else Some (if fp = [] \<and> ep = [] then JInt (if neg then - digits_val ip else digits_val ip)
                    else JFloat ((if neg then [45] else []) @ ip @ fp @ ep),
                    drop (length ep) s3))"

fun scan_word :: "(string \<times> json) list \<Rightarrow> pystr \<Rightarrow> (json \<times> pystr) option" where
  "scan_word [] s = scan_number s"
| "scan_word ((w, v) # ws) s = (if starts_with (lit w) s then Some (v, drop (length w) s) else scan_word ws s)"

definition json_words :: "(string \<times> json) list" where
  "json_words = [(''null'', JNull), (''true'', JBool True), (''false'', JBool False), (''NaN'', JFloat (lit ''NaN'')),
     (''Infinity'', JFloat (lit ''Infinity'')), (''-Infinity'', JFloat (lit ''-Infinity''))]"

text \<open>
  The scanner of the library; its fuel is twice the length of the text, which \<open>scan_dumps\<close> shows to be
  enough for all that is printed.  A key that comes again replaces the value of its first place.
\<close>

fun scan_value :: "nat \<Rightarrow> pystr \<Rightarrow> (json \<times> pystr) option"
  and scan_items :: "nat \<Rightarrow> pystr \<Rightarrow> (json list \<times> pystr) option"
  and scan_members :: "nat \<Rightarrow> (pystr, json) pydict \<Rightarrow> pystr \<Rightarrow> ((pystr, json) pydict \<times> pystr) option" where
  "scan_value 0 s = None"
| "scan_value (Suc n) s =
     (if starts_with [34] s then map_option (apfst JText) (scan_string (drop 1 s))
      else if starts_with [91] s
      then (let t = skip_space (drop 1 s)
            in if starts_with [93] t then Some (JList [], drop 1 t) else map_option (apfst JList) (scan_items n t))
      else if starts_with [123] s
      then (let t = skip_space (drop 1 s)
            in if starts_with [125] t then Some (JObject [], drop 1 t)
               else map_option (apfst JObject) (scan_members n [] t))
      else scan_word json_words s)"
| "scan_items 0 s = None"
| "scan_items (Suc n) s =
     (case scan_value n s of
        None \<Rightarrow> None
      | Some (v, r) \<Rightarrow>
          (let t = skip_space r
           in if starts_with [93] t then Some ([v], drop 1 t)
              else if starts_with [44] t then map_option (apfst ((#) v)) (scan_items n (skip_space (drop 1 t)))
              else None))"
| "scan_members 0 d s = None"
| "scan_members (Suc n) d s =
     (if \<not> starts_with [34] s then None
      else case scan_string (drop 1 s) of
        None \<Rightarrow> None
      | Some (k, r) \<Rightarrow>
          if \<not> starts_with [58] (skip_space r) then None
          else (case scan_value n (skip_space (drop 1 (skip_space r))) of
            None \<Rightarrow> None
          | Some (v, r2) \<Rightarrow>
              (let t = skip_space r2; d' = dset k v d
               in if starts_with [125] t then Some (d', drop 1 t)
                  else if starts_with [44] t then scan_members n d' (skip_space (drop 1 t))
                  else None)))"

text \<open>\<open>json.loads(s)\<close>; \<open>None\<close> is \<open>JSONDecodeError\<close>.\<close>

definition loads :: "pystr \<Rightarrow> json option" where
  "loads s = (case scan_value (2 * length s) (skip_space s) of
      Some (v, r) \<Rightarrow> if skip_space r = [] then Some v else None
    | None \<Rightarrow> None)"

section \<open>Round trip\<close>

text \<open>What has a JSON text that is read back: texts of scalar values, dictionaries, no fractions.\<close>

fun json_wf :: "json \<Rightarrow> bool" where
  "json_wf (JFloat s) = False"
| "json_wf (JText s) = list_all scalar s"
| "json_wf (JList vs) = list_all json_wf vs"
| "json_wf (JObject kvs) = (distinct (map fst kvs) \<and> list_all (\<lambda>(k, v). list_all scalar k \<and> json_wf v) kvs)"
| "json_wf _ = True"

lemma hex_value_digit: "0 \<le> n \<Longrightarrow> n < 16 \<Longrightarrow> hex_value (hex_digit n) = Some n"
  by (auto simp: hex_value_def hex_digit_def is_digit_def)

lemma read_hex4_digits:
  assumes "\<And>x. x \<in> {a, b, c, d} \<Longrightarrow> 0 \<le> x \<and> x < 16"
  shows "read_hex4 (map hex_digit [a, b, c, d] @ s) = Some (4096 * a + 256 * b + 16 * c + d)"
  using assms by (simp add: read_hex4_def hex_value_digit)

lemma read_hex4_hex4: "0 \<le> n \<Longrightarrow> n < 65536 \<Longrightarrow> read_hex4 (hex4 n @ s) = Some n"
proof -
  assume n: "0 \<le> n" "n < 65536"
  have d: "n div 4096 mod 16 = n div 4096" using n by auto
  have e: "n = 4096 * (n div 4096) + 256 * (n div 256 mod 16) + 16 * (n div 16 mod 16) + n mod 16"
    by (rule digits_base(2)) simp_all
  have "read_hex4 (hex4 n @ s) = Some (4096 * (n div 4096 mod 16) + 256 * (n div 256 mod 16) + 16 * (n div 16 mod 16) + n mod 16)"
    unfolding hex4_def by (rule read_hex4_digits) auto
  then show ?thesis unfolding d e [symmetric] .
qed

lemma length_hex4 [simp]: "length (hex4 n) = 4"
  by (simp add: hex4_def)

lemma low_half_scalar: "scalar u \<Longrightarrow> low_half u s = None"
  by (auto simp: low_half_def scalar_def)

lemma scan_escape_u:
  assumes "scalar u" "u < 65536"
  shows "scan_string (92 # 117 # hex4 u @ t) = map_option (apfst ((#) u)) (scan_string t)"
proof -
  have "0 \<le> u" using assms by (auto simp: scalar_def)
  with assms show ?thesis by (simp add: read_hex4_hex4 low_half_scalar)
qed

lemma scan_escape_pair:
  assumes "65536 \<le> c" "c < 1114112"
  shows "scan_string (92 # 117 # hex4 (55296 + (c - 65536) div 1024) @ 92 # 117 # hex4 (56320 + (c - 65536) mod 1024) @ t)
    = map_option (apfst ((#) c)) (scan_string t)"
proof -
  let ?h = "55296 + (c - 65536) div 1024" and ?l = "56320 + (c - 65536) mod 1024"
  have h: "55296 \<le> ?h" "?h < 56320" using assms by auto
  have l: "56320 \<le> ?l" "?l < 57344" by auto
  have e: "65536 + 1024 * (?h - 55296) + (?l - 56320) = c" by simp
  have "low_half ?h (92 # 117 # hex4 ?l @ t) = Some c"
    using h l e by (simp add: low_half_def read_hex4_hex4)
  moreover have "read_hex4 (hex4 ?h @ x) = Some ?h" for x
    using h by (simp add: read_hex4_hex4)
  moreover have "drop 10 (hex4 ?h @ 92 # 117 # hex4 ?l @ t) = t" by simp
  moreover have "drop 4 (hex4 ?h @ 92 # 117 # hex4 ?l @ t) = 92 # 117 # hex4 ?l @ t" by simp
  ultimately show ?thesis by (simp del: drop_append)
qed

lemma scan_escape_char:
  assumes "scalar c"
  shows "scan_string (escape_char a c @ t) = map_option (apfst ((#) c)) (scan_string t)"
proof -
  have c: "0 \<le> c" "c < 1114112" using assms by (auto simp: scalar_def)
  show ?thesis
  proof (cases "c \<in> {34, 92, 10, 13, 9, 12, 8}")
    case True
    then show ?thesis by (auto simp: escape_char_def simple_escape_def)
  next
    case False
    then show ?thesis
      using c assms scan_escape_u [OF assms] scan_escape_pair [of c t]
      by (simp add: escape_char_def)
  qed
qed

lemma scan_json_text:
  "list_all scalar s \<Longrightarrow> scan_string (concat (map (escape_char a) s) @ 34 # r) = Some (s, r)"
  by (induction s) (simp_all add: scan_escape_char del: scan_string.simps(2), simp)

text \<open>What may follow a value inside a list or a dictionary, or at the end.\<close>

definition ends_token :: "pystr \<Rightarrow> bool" where
  "ends_token r \<longleftrightarrow> r = [] \<or> hd r \<in> {44, 93, 125}"

lemma ends_token_starts: "ends_token r \<Longrightarrow> c \<notin> {44, 93, 125} \<Longrightarrow> \<not> starts_with [c] r"
  by (cases r) (auto simp: ends_token_def)

lemma digits_of_end: "list_all is_digit d \<Longrightarrow> ends_token r \<Longrightarrow> digits_of (d @ r) = d"
  by (cases r) (auto simp: digits_of_def list_all_iff ends_token_def is_digit_def)

lemma nat_digits_lead: "0 < n \<Longrightarrow> hd (nat_digits n) \<noteq> 48"
proof (induction n rule: nat_digits.induct)
  case (1 n)
  show ?case
  proof (cases "n < 10")
    case True
    with 1 show ?thesis by (subst nat_digits.simps) simp
  next
    case False
    then have "0 < n div 10" by simp
    with 1 False show ?thesis by (subst nat_digits.simps) simp
  qed
qed

lemma scan_number_digits:
  assumes "ends_token r"
  shows "scan_number (str_int n @ r) = Some (JInt n, r)"
proof -
  define m where "m = nat \<bar>n\<bar>"
  have str: "str_int n = (if n < 0 then [45] else []) @ nat_digits m"
    by (simp add: str_int_def m_def)
  have no_minus: "\<not> starts_with [45] (nat_digits m @ r)"
    using nat_digits_digits [of m] by (cases "nat_digits m") (auto simp: is_digit_def)
  have ip: "int_part (nat_digits m @ r) = nat_digits m"
  proof (cases "m = 0")
    case True
    then have "nat_digits m = [48]" by (subst nat_digits.simps) simp
    then show ?thesis by (simp add: int_part_def)
  next
    case False
    then have "\<not> starts_with [48] (nat_digits m @ r)"
      using nat_digits_lead [of m] by (cases "nat_digits m") auto
    then show ?thesis using digits_of_end [OF nat_digits_digits assms] by (simp add: int_part_def)
  qed
  have rest: "frac_part r = []" "exp_part r = []"
    using assms by (simp_all add: frac_part_def exp_part_def ends_token_starts)
  show ?thesis
  proof (cases "n < 0")
    case True
    then have "- int m = n" by (simp add: m_def)
    with True show ?thesis by (simp add: str scan_number_def ip rest Let_def)
  next
    case False
    then have "int m = n" by (simp add: m_def)
    with False no_minus show ?thesis by (simp add: str scan_number_def ip rest Let_def)
  qed
qed

lemma str_int_first: "hd (str_int n @ r) = 45 \<or> is_digit (hd (str_int n @ r))"
proof -
  have "is_digit (hd (nat_digits m @ r))" for m
    using nat_digits_digits [of m] by (cases "nat_digits m") auto
  then show ?thesis by (simp add: str_int_def)
qed

lemma scan_word_int:
  assumes "ends_token r"
  shows "scan_word json_words (str_int n @ r) = Some (JInt n, r)"
proof -
  have ne: "str_int n @ r \<noteq> []" using str_int_ends [of n] by simp
  then have "\<not> starts_with (lit w) (str_int n @ r)" if "w \<in> {''null'', ''true'', ''false'', ''NaN'', ''Infinity''}" for w
    using str_int_first [of n r] that by (cases "str_int n @ r") (auto simp: lit_def is_digit_def)
  moreover have "\<not> starts_with (lit ''-Infinity'') (str_int n @ r)"
  proof (cases "n < 0")
    case True
    then have "str_int n @ r = 45 # nat_digits (nat (- n)) @ r" by (simp add: str_int_def)
    moreover have "is_digit (hd (nat_digits (nat (- n))))"
      using nat_digits_digits [of "nat (- n)"] by (cases "nat_digits (nat (- n))") auto
    ultimately show ?thesis by (cases "nat_digits (nat (- n))") (auto simp: lit_def is_digit_def)
  next
    case False
    then show ?thesis
      using nat_digits_digits [of "nat n"]
      by (cases "nat_digits (nat n)") (auto simp: str_int_def lit_def is_digit_def)
  qed
  ultimately show ?thesis using scan_number_digits [OF assms, of n] by (simp add: json_words_def)
qed

text \<open>The first character of a printed value: no white space, and none that a scanner could take for an end.\<close>

lemma dumps_first:
  assumes "json_wf v"
  obtains c s where "dumps a v = c # s" "\<not> json_space c" "c \<notin> {93, 125}"
proof (cases v)
  case (JInt n)
  then show ?thesis
    using that str_int_first [of n "[]"] str_int_ends [of n]
    by (cases "str_int n") (auto simp: json_space_def is_digit_def)
next
  case (JBool b)
  then show ?thesis using that by (cases b) (auto simp: lit_def json_space_def)
qed (use assms that in \<open>auto simp: json_text_def lit_def json_space_def\<close>)

lemma skip_dumps: "json_wf v \<Longrightarrow> skip_space (dumps a v @ r) = dumps a v @ r"
  by (erule dumps_first [of v a]) (simp add: skip_space_def)

lemma skip_end: "ends_token r \<Longrightarrow> skip_space r = r"
  by (cases r) (auto simp: ends_token_def skip_space_def json_space_def)

definition scans :: "bool \<Rightarrow> json \<Rightarrow> bool" where
  "scans a v \<longleftrightarrow> (\<forall>n r. 2 * length (dumps a v) \<le> n \<longrightarrow> ends_token r \<longrightarrow> scan_value n (dumps a v @ r) = Some (v, r))"

lemma scansD: "scans a v \<Longrightarrow> 2 * length (dumps a v) \<le> n \<Longrightarrow> ends_token r \<Longrightarrow> scan_value n (dumps a v @ r) = Some (v, r)"
  by (simp add: scans_def)

lemma ends_tokens [simp]: "ends_token (44 # r)" "ends_token (93 # r)" "ends_token (125 # r)" "ends_token []"
  by (simp_all add: ends_token_def)

lemma lit_separators:
  "lit '', '' = [44, 32]" "lit '': '' = [58, 32]" "lit ''['' = [91]" "lit '']'' = [93]" "lit ''{'' = [123]" "lit ''}'' = [125]"
  by (simp_all add: lit_def)

lemma skip_space_simps [simp]: "skip_space (32 # s) = skip_space s" "skip_space (44 # s) = 44 # s"
  "skip_space (93 # s) = 93 # s" "skip_space (125 # s) = 125 # s" "skip_space (58 # s) = 58 # s"
  "skip_space (34 # s) = 34 # s" "skip_space [] = []"
  by (simp_all add: skip_space_def json_space_def)

lemma scan_items_dumps:
  assumes "vs \<noteq> []" "\<And>v. v \<in> set vs \<Longrightarrow> json_wf v \<and> scans a v"
    and "2 * length (join [44, 32] (map (dumps a) vs)) + 1 \<le> n"
  shows "scan_items n (join [44, 32] (map (dumps a) vs) @ 93 # r) = Some (vs, r)"
  using assms
proof (induction vs arbitrary: n rule: induct_list012)
  case (2 v)
  obtain m where n: "n = Suc m" using 2 by (cases n) auto
  have "scan_value m (dumps a v @ 93 # r) = Some (v, 93 # r)" using 2 n by (intro scansD) auto
  then show ?case by (simp add: n)
next
  case (3 v w vs)
  obtain m where n: "n = Suc m" using 3 by (cases n) auto
  let ?t = "join [44, 32] (map (dumps a) (w # vs))"
  have one: "scan_value m (dumps a v @ 44 # 32 # ?t @ 93 # r) = Some (v, 44 # 32 # ?t @ 93 # r)"
    using 3 n by (intro scansD) auto
  have "scan_items m (?t @ 93 # r) = Some (w # vs, r)"
    using 3 n by (intro "3.IH"(2)) auto
  moreover have "skip_space (?t @ 93 # r) = ?t @ 93 # r"
    using "3.prems"(2) [of w] skip_dumps [of w a] by (cases vs) auto
  ultimately show ?case using one by (simp add: n del: join.simps) (simp add: n)
qed simp

definition member_text :: "bool \<Rightarrow> pystr \<times> json \<Rightarrow> pystr" where
  "member_text a kv = json_text a (fst kv) @ [58, 32] @ dumps a (snd kv)"

lemma dumps_object: "dumps a (JObject kvs) = [123] @ join [44, 32] (map (member_text a) kvs) @ [125]"
  by (simp add: lit_separators member_text_def case_prod_beta fun_eq_iff cong: map_cong)

lemma dset_fresh: "k \<notin> fst ` set d \<Longrightarrow> dset k v d = d @ [(k, v)]"
  by (induction d) auto

lemma scan_members_dumps:
  assumes "kvs \<noteq> []" "distinct (map fst d @ map fst kvs)"
    and "\<And>kv. kv \<in> set kvs \<Longrightarrow> list_all scalar (fst kv) \<and> json_wf (snd kv) \<and> scans a (snd kv)"
    and "2 * length (join [44, 32] (map (member_text a) kvs)) + 1 \<le> n"
  shows "scan_members n d (join [44, 32] (map (member_text a) kvs) @ 125 # r) = Some (d @ kvs, r)"
  using assms
proof (induction kvs arbitrary: n d rule: induct_list012)
  case (2 kv)
  obtain m where n: "n = Suc m" using 2 by (cases n) auto
  have kv: "list_all scalar (fst kv)" "json_wf (snd kv)" "scans a (snd kv)" using 2 by simp_all
  have "scan_value m (dumps a (snd kv) @ 125 # r) = Some (snd kv, 125 # r)"
    using kv 2 n by (intro scansD) (auto simp: member_text_def)
  moreover have "dset (fst kv) (snd kv) d = d @ [kv]" using 2 by (simp add: dset_fresh)
  ultimately show ?case
    using kv scan_json_text [of "fst kv" a "58 # 32 # dumps a (snd kv) @ 125 # r"] skip_dumps [of "snd kv" a "125 # r"]
    by (simp add: n member_text_def json_text_def Let_def)
next
  case (3 kv w kvs)
  obtain m where n: "n = Suc m" using 3 by (cases n) auto
  have kv: "list_all scalar (fst kv)" "json_wf (snd kv)" "scans a (snd kv)" using 3 by simp_all
  define t where "t = join [44, 32] (map (member_text a) (w # kvs)) @ 125 # r"
  have one: "scan_value m (dumps a (snd kv) @ 44 # 32 # t) = Some (snd kv, 44 # 32 # t)"
    using kv 3 n by (intro scansD) (auto simp: member_text_def)
  have fresh: "dset (fst kv) (snd kv) d = d @ [kv]"
    using "3.prems"(2) by (simp add: dset_fresh)
  have "scan_members m (d @ [kv]) t = Some ((d @ [kv]) @ w # kvs, r)"
    using 3 n unfolding t_def by (intro "3.IH"(2)) auto
  moreover have "skip_space t = t"
    unfolding t_def by (cases kvs) (simp_all add: member_text_def json_text_def)
  moreover have u: "join [44, 32] (map (member_text a) (kv # w # kvs)) @ 125 # r = member_text a kv @ 44 # 32 # t"
    by (simp add: t_def)
  ultimately show ?case
    using kv one fresh scan_json_text [of "fst kv" a "58 # 32 # dumps a (snd kv) @ 44 # 32 # t"] skip_dumps [of "snd kv" a "44 # 32 # t"]
    unfolding u n by (simp add: member_text_def [of a kv] json_text_def Let_def)
qed simp

lemma scans_dumps: "json_wf v \<Longrightarrow> scans a v"
proof (induction v)
  case (JInt n)
  show ?case unfolding scans_def
  proof (intro allI impI)
    fix m r assume m: "2 * length (dumps a (JInt n)) \<le> m" and r: "ends_token r"
    have "str_int n @ r \<noteq> []" "str_int n \<noteq> []" using str_int_ends [of n] by simp_all
    then obtain k where k: "m = Suc k" using m by (cases m) auto
    have "\<not> starts_with [c] (str_int n @ r)" if "c \<in> {34, 91, 123}" for c
      using str_int_first [of n r] that by (cases "str_int n @ r") (auto simp: is_digit_def)
    then show "scan_value m (dumps a (JInt n) @ r) = Some (JInt n, r)"
      using scan_word_int [OF r] by (simp add: k)
  qed
next
  case (JText s)
  show ?case unfolding scans_def
  proof (intro allI impI)
    fix m r assume m: "2 * length (dumps a (JText s)) \<le> m"
    then obtain k where k: "m = Suc k" by (cases m) (auto simp: json_text_def)
    show "scan_value m (dumps a (JText s) @ r) = Some (JText s, r)"
      using JText scan_json_text [of s a r] by (simp add: k json_text_def)
  qed
next
  case (JList vs)
  show ?case unfolding scans_def
  proof (intro allI impI)
    fix m r assume m: "2 * length (dumps a (JList vs)) \<le> m"
    then obtain k where k: "m = Suc k" by (cases m) (auto simp: lit_separators)
    show "scan_value m (dumps a (JList vs) @ r) = Some (JList vs, r)"
    proof (cases vs)
      case Nil
      then show ?thesis by (simp add: k lit_separators)
    next
      case (Cons w ws)
      let ?t = "join [44, 32] (map (dumps a) vs) @ 93 # r"
      have w: "json_wf w" using JList.prems Cons by simp
      obtain c s where "?t = c # s" "\<not> json_space c" "c \<noteq> 93"
        using Cons by (cases ws) (auto intro: dumps_first [OF w, of a])
      then have "skip_space ?t = ?t" "\<not> starts_with [93] ?t" by (simp_all add: skip_space_def)
      moreover have "scan_items k ?t = Some (vs, r)"
        using JList Cons m k by (intro scan_items_dumps) (auto simp: list_all_iff lit_separators)
      ultimately show ?thesis by (simp add: k lit_separators)
    qed
  qed
next
  case (JObject kvs)
  show ?case unfolding scans_def
  proof (intro allI impI)
    fix m r assume m: "2 * length (dumps a (JObject kvs)) \<le> m"
    then obtain k where k: "m = Suc k" by (cases m) (auto simp: lit_separators)
    show "scan_value m (dumps a (JObject kvs) @ r) = Some (JObject kvs, r)"
    proof (cases kvs)
      case Nil
      then show ?thesis by (simp add: k lit_separators)
    next
      case (Cons w ws)
      let ?t = "join [44, 32] (map (member_text a) kvs) @ 125 # r"
      note d = dumps_object [of a kvs]
      obtain s where "?t = 34 # s"
        using Cons by (cases ws; cases w) (auto simp: json_text_def member_text_def)
      then have "skip_space ?t = ?t" "\<not> starts_with [125] ?t" by simp_all
      moreover have "scan_members k [] ?t = Some ([] @ kvs, r)"
      proof (intro scan_members_dumps)
        show "list_all scalar (fst kv) \<and> json_wf (snd kv) \<and> scans a (snd kv)" if "kv \<in> set kvs" for kv
          using JObject.IH [OF that, of "snd kv"] JObject.prems that by (cases kv) (fastforce simp: list_all_iff)
        show "2 * length (join [44, 32] (map (member_text a) kvs)) + 1 \<le> k"
          using m unfolding d k by simp
      qed (use JObject.prems Cons in auto)
      ultimately show ?thesis unfolding d by (simp add: k)
    qed
  qed
next
  case (JBool b)
  show ?case unfolding scans_def
  proof (intro allI impI)
    fix m r assume "2 * length (dumps a (JBool b)) \<le> m"
    then show "scan_value m (dumps a (JBool b) @ r) = Some (JBool b, r)"
      by (cases m; cases b) (auto simp: lit_def json_words_def)
  qed
next
  case JNull
  show ?case unfolding scans_def
  proof (intro allI impI)
    fix m r assume "2 * length (dumps a JNull) \<le> m"
    then show "scan_value m (dumps a JNull @ r) = Some (JNull, r)"
      by (cases m) (auto simp: lit_def json_words_def)
  qed
qed simp_all

theorem loads_dumps: "json_wf v \<Longrightarrow> loads (dumps a v) = Some v"
  using scansD [OF scans_dumps, of v a "2 * length (dumps a v)" "[]"] skip_dumps [of v a "[]"]
  by (simp add: loads_def)

text \<open>Printed text is made of printable scalar values, so it is one line of any stream.\<close>

lemma hex4_printable: "c \<in> set (hex4 n) \<Longrightarrow> scalar c \<and> 32 \<le> c"
proof -
  assume c: "c \<in> set (hex4 n)"
  have "0 \<le> x mod 16 \<and> x mod 16 < (16::int)" for x by simp
  with c obtain d where "c = hex_digit d" "0 \<le> d" "d < 16" by (auto simp: hex4_def)
  then show ?thesis by (auto simp: hex_digit_def scalar_def)
qed

lemma escape_printable: "scalar c \<Longrightarrow> d \<in> set (escape_char a c) \<Longrightarrow> scalar d \<and> 32 \<le> d"
  using hex4_printable by (auto simp: escape_char_def scalar_def split: if_splits)

lemma json_text_printable: "list_all scalar s \<Longrightarrow> d \<in> set (json_text a s) \<Longrightarrow> scalar d \<and> 32 \<le> d"
  by (auto simp: json_text_def list_all_iff scalar_def [of 34] dest: escape_printable)

lemma str_int_printable: "d \<in> set (str_int n) \<Longrightarrow> scalar d \<and> 32 \<le> d"
proof -
  assume d: "d \<in> set (str_int n)"
  have "is_digit d" if "d \<in> set (nat_digits m)" for m
    using nat_digits_digits [of m] that by (simp add: list_all_iff)
  with d have "d = 45 \<or> is_digit d" by (auto simp: str_int_def split: if_splits)
  then show ?thesis by (auto simp: is_digit_def scalar_def)
qed

lemma set_join: "set (join sep xs) \<subseteq> set sep \<union> \<Union> (set ` set xs)"
  by (induction sep xs rule: join.induct) auto

lemma dumps_printable: "json_wf v \<Longrightarrow> d \<in> set (dumps a v) \<Longrightarrow> scalar d \<and> 32 \<le> d"
proof (induction v arbitrary: d)
  case (JList vs)
  have "d \<in> {91, 93, 44, 32} \<or> (\<exists>v\<in>set vs. d \<in> set (dumps a v))"
    using JList.prems(2) set_join [of "[44, 32]" "map (dumps a) vs"] by (auto simp: lit_separators)
  then show ?case using JList by (auto simp: scalar_def list_all_iff)
next
  case (JObject kvs)
  have "d \<in> {123, 125, 44, 32} \<or> (\<exists>kv\<in>set kvs. d \<in> set (json_text a (fst kv)) \<or> d \<in> {58, 32} \<or> d \<in> set (dumps a (snd kv)))"
    using JObject.prems(2) unfolding dumps_object by (auto simp: member_text_def dest!: set_join [THEN subsetD]; fastforce)
  then consider "d \<in> {123, 125, 44, 32, 58}" | kv where "kv \<in> set kvs" "d \<in> set (json_text a (fst kv))"
    | kv where "kv \<in> set kvs" "d \<in> set (dumps a (snd kv))"
    by auto
  then show ?case
  proof cases
    case 1
    then show ?thesis by (auto simp: scalar_def)
  next
    case (2 kv)
    then show ?thesis using JObject.prems(1) json_text_printable by (fastforce simp: list_all_iff)
  next
    case (3 kv)
    have "json_wf (snd kv)" using 3 JObject.prems(1) by (auto simp: list_all_iff)
    then show ?thesis using JObject.IH [OF 3(1), of "snd kv"] 3(2) by (cases kv) auto
  qed
next
  case (JBool b)
  then show ?case by (cases b) (auto simp: lit_def scalar_def)
qed (auto simp: lit_def scalar_def dest: json_text_printable str_int_printable)

end
