(* ===== verification/WireModels.thy ===== *)
theory WireModels
  imports StepBatch ExecEnv JsonText
begin

text \<open>
  The wire models of \<open>lean_client/exec_models.py\<close>: what the \<open>/exec\<close> routes accept, what the client sends
  (\<open>model_dump\<close>) and what it reads back.  JSON is a datatype; how \<open>pydantic\<close> coerces a JSON value to a
  number, a truth value or a text is the argument \<open>co\<close>, of which only the plain cases are assumed.
  A model with several faults has one error here, its first.
\<close>

section \<open>JSON and fields\<close>

type_synonym fields = "(pystr, json) pydict"

record coerce =
  co_int :: "json \<Rightarrow> int option"
  co_bool :: "json \<Rightarrow> bool option"
  co_text :: "json \<Rightarrow> pystr option"

definition coerce_ok :: "coerce \<Rightarrow> bool" where
  "coerce_ok co \<longleftrightarrow> (\<forall>n. co_int co (JInt n) = Some n) \<and> (\<forall>b. co_bool co (JBool b) = Some b) \<and>
     (\<forall>t. co_text co (JText t) = Some t) \<and> co_int co JNull = None"

definition strict :: coerce where
  "strict = \<lparr>co_int = (\<lambda>j. case j of JInt n \<Rightarrow> Some n | _ \<Rightarrow> None),
     co_bool = (\<lambda>j. case j of JBool b \<Rightarrow> Some b | _ \<Rightarrow> None),
     co_text = (\<lambda>j. case j of JText t \<Rightarrow> Some t | _ \<Rightarrow> None)\<rparr>"

datatype wire_error = NotAnObject | FieldMissing pystr | FieldInvalid pystr | ModelRefused pystr

definition as_object :: "json \<Rightarrow> wire_error + fields" where
  "as_object j = (case j of JObject d \<Rightarrow> Inr d | _ \<Rightarrow> Inl NotAnObject)"

text \<open>A value of the field's type that meets its constraint; a default is not checked.\<close>

definition checked :: "pystr \<Rightarrow> (json \<Rightarrow> 'a option) \<Rightarrow> ('a \<Rightarrow> bool) \<Rightarrow> json \<Rightarrow> wire_error + 'a" where
  "checked name conv ok j =
     (case conv j of Some x \<Rightarrow> if ok x then Inr x else Inl (FieldInvalid name) | None \<Rightarrow> Inl (FieldInvalid name))"

definition req_field :: "string \<Rightarrow> (json \<Rightarrow> 'a option) \<Rightarrow> ('a \<Rightarrow> bool) \<Rightarrow> fields \<Rightarrow> wire_error + 'a" where
  "req_field name conv ok d =
     (case dget d (lit name) of None \<Rightarrow> Inl (FieldMissing (lit name)) | Some j \<Rightarrow> checked (lit name) conv ok j)"

definition def_field :: "string \<Rightarrow> 'a \<Rightarrow> (json \<Rightarrow> 'a option) \<Rightarrow> ('a \<Rightarrow> bool) \<Rightarrow> fields \<Rightarrow> wire_error + 'a" where
  "def_field name dflt conv ok d =
     (case dget d (lit name) of None \<Rightarrow> Inr dflt | Some j \<Rightarrow> checked (lit name) conv ok j)"

definition nullable :: "(json \<Rightarrow> 'a option) \<Rightarrow> json \<Rightarrow> 'a option option" where
  "nullable conv j = (if j = JNull then Some None else map_option Some (conv j))"

definition list_of :: "(json \<Rightarrow> 'a option) \<Rightarrow> json \<Rightarrow> 'a list option" where
  "list_of conv j = (case j of JList js \<Rightarrow> those (map conv js) | _ \<Rightarrow> None)"

text \<open>A field that holds a list of models: \<open>list[Model]\<close>.\<close>

definition models_field :: "string \<Rightarrow> (json \<Rightarrow> wire_error + 'a) \<Rightarrow> fields \<Rightarrow> wire_error + 'a list" where
  "models_field name dec d =
     (case dget d (lit name) of
        None \<Rightarrow> Inl (FieldMissing (lit name))
      | Some (JList js) \<Rightarrow> emap dec js
      | Some _ \<Rightarrow> Inl (FieldInvalid (lit name)))"

text \<open>\<open>model_dump\<close> of a field that may be \<open>None\<close>, with and without \<open>exclude_none\<close>\<close>

definition opt_entry :: "bool \<Rightarrow> string \<Rightarrow> ('a \<Rightarrow> json) \<Rightarrow> 'a option \<Rightarrow> fields" where
  "opt_entry exclude name enc v =
     (case v of None \<Rightarrow> if exclude then [] else [(lit name, JNull)] | Some x \<Rightarrow> [(lit name, enc x)])"

section \<open>Timeouts\<close>

definition set_missing :: "string \<Rightarrow> json \<Rightarrow> fields \<Rightarrow> fields" where
  "set_missing name v d = (if dget d (lit name) = None then dset (lit name) v d else d)"

definition apply_timeout_alias :: "json \<Rightarrow> json" where
  "apply_timeout_alias j =
     (case j of
        JObject d \<Rightarrow>
          (case dget d (lit ''timeout_ms'') of
             None \<Rightarrow> JObject d
           | Some t \<Rightarrow> if t = JNull then JObject d
                       else JObject (set_missing ''step_timeout_ms'' t (set_missing ''acquire_timeout_ms'' t d)))
      | _ \<Rightarrow> j)"

record timeouts =
  to_acquire :: int
  to_step :: int
  to_debug :: bool

definition parse_timeouts :: "coerce \<Rightarrow> fields \<Rightarrow> wire_error + timeouts" where
  "parse_timeouts co d =
     ebind (def_field ''acquire_timeout_ms'' 5000 (co_int co) (\<lambda>n. 1 \<le> n) d) (\<lambda>a.
     ebind (def_field ''step_timeout_ms'' 5000 (co_int co) (\<lambda>n. 1 \<le> n) d) (\<lambda>s.
     ebind (def_field ''debug'' False (co_bool co) (\<lambda>b. True) d) (\<lambda>b.
       Inr \<lparr>to_acquire = a, to_step = s, to_debug = b\<rparr>)))"

definition timeout_entries :: "timeouts \<Rightarrow> fields" where
  "timeout_entries t = [(lit ''acquire_timeout_ms'', JInt (to_acquire t)), (lit ''step_timeout_ms'', JInt (to_step t)),
     (lit ''debug'', JBool (to_debug t))]"

definition timeouts_ok :: "timeouts \<Rightarrow> bool" where
  "timeouts_ok t \<longleftrightarrow> 1 \<le> to_acquire t \<and> 1 \<le> to_step t"

section \<open>Step batches\<close>

definition nonempty :: "'a list \<Rightarrow> bool" where
  "nonempty xs \<longleftrightarrow> xs \<noteq> []"

definition validate_goal_focus :: "int option \<Rightarrow> bool option \<Rightarrow> int list option \<Rightarrow> wire_error + unit" where
  "validate_goal_focus goal_id auto_resume goal_group =
     (if auto_resume \<noteq> None \<and> goal_id = None then Inl (ModelRefused (lit ''auto_resume requires goal_id''))
      else case goal_group of
             None \<Rightarrow> Inr ()
           | Some grp \<Rightarrow>
               if goal_id \<noteq> None \<or> auto_resume \<noteq> None
               then Inl (ModelRefused (lit ''goal_group is mutually exclusive with goal_id/auto_resume''))
               else if grp = [] then Inl (ModelRefused (lit ''goal_group must be non-empty''))
               else if \<exists>i\<in>set grp. i < 0 then Inl (ModelRefused (lit ''goal_group indices must be non-negative''))
               else if card (set grp) \<noteq> length grp then Inl (ModelRefused (lit ''goal_group indices must be unique''))
               else Inr ())"

text \<open>An item together with its \<open>debug\<close> flag, which only turns on the worker's measurements (\<open>WorkerProcess\<close>).\<close>

record wire_step = batch_item + ws_debug :: bool

definition parse_step_item :: "coerce \<Rightarrow> json \<Rightarrow> wire_error + wire_step" where
  "parse_step_item co j =
     ebind (as_object (apply_timeout_alias j)) (\<lambda>d.
     ebind (parse_timeouts co d) (\<lambda>t.
     ebind (req_field ''node_id'' (co_text co) nonempty d) (\<lambda>node.
     ebind (req_field ''state_token'' (co_text co) nonempty d) (\<lambda>token.
     ebind (req_field ''tactics'' (list_of (co_text co)) nonempty d) (\<lambda>tactics.
     ebind (def_field ''goal_id'' None (nullable (co_int co)) (pred_option (\<lambda>n. 0 \<le> n)) d) (\<lambda>goal_id.
     ebind (def_field ''auto_resume'' None (nullable (co_bool co)) (\<lambda>b. True) d) (\<lambda>auto_resume.
     ebind (def_field ''goal_group'' None (nullable (list_of (co_int co))) (\<lambda>g. True) d) (\<lambda>goal_group.
     ebind (validate_goal_focus goal_id auto_resume goal_group) (\<lambda>u.
       Inr \<lparr>bi_node = node, bi_token = token, bi_tactics = tactics, bi_acquire_ms = to_acquire t,
            bi_step_ms = to_step t, bi_goal_id = goal_id, bi_resume = auto_resume, bi_group = goal_group,
            ws_debug = to_debug t\<rparr>)))))))))"

text \<open>\<open>item_ids\<close>, \<open>node_ids\<close>: \<open>len(set(ids)) != len(ids)\<close>\<close>

definition require_unique :: "string \<Rightarrow> 'a list \<Rightarrow> wire_error + unit" where
  "require_unique message xs =
     (if card (set xs) \<noteq> length xs then Inl (ModelRefused (lit message)) else Inr ())"

definition parse_step_request :: "coerce \<Rightarrow> json \<Rightarrow> wire_error + wire_step list" where
  "parse_step_request co j =
     ebind (as_object j) (\<lambda>d.
     ebind (models_field ''items'' (parse_step_item co) d) (\<lambda>items.
       if items = [] then Inl (FieldInvalid (lit ''items''))
       else ebind (require_unique ''node_id values must be unique'' (map bi_node items)) (\<lambda>u. Inr items)))"

text \<open>What the client posts: \<open>ExecStepBatchRequest(items=items).model_dump(exclude_none=True)\<close>\<close>

definition step_timeouts :: "wire_step \<Rightarrow> timeouts" where
  "step_timeouts it = \<lparr>to_acquire = bi_acquire_ms it, to_step = bi_step_ms it, to_debug = ws_debug it\<rparr>"

definition step_item_json :: "bool \<Rightarrow> wire_step \<Rightarrow> json" where
  "step_item_json exclude it = JObject (timeout_entries (step_timeouts it) @
     [(lit ''node_id'', JText (bi_node it)), (lit ''state_token'', JText (bi_token it)),
      (lit ''tactics'', JList (map JText (bi_tactics it)))] @
     opt_entry exclude ''goal_id'' JInt (bi_goal_id it) @
     opt_entry exclude ''auto_resume'' JBool (bi_resume it) @
     opt_entry exclude ''goal_group'' (\<lambda>g. JList (map JInt g)) (bi_group it))"

definition step_request_json :: "bool \<Rightarrow> wire_step list \<Rightarrow> json" where
  "step_request_json exclude items = JObject [(lit ''items'', JList (map (step_item_json exclude) items))]"

definition focus_ok :: "int option \<Rightarrow> bool option \<Rightarrow> int list option \<Rightarrow> bool" where
  "focus_ok goal_id auto_resume goal_group \<longleftrightarrow> (auto_resume \<noteq> None \<longrightarrow> goal_id \<noteq> None) \<and>
     (case goal_group of None \<Rightarrow> True
      | Some g \<Rightarrow> goal_id = None \<and> auto_resume = None \<and> g \<noteq> [] \<and> distinct g \<and> (\<forall>i\<in>set g. 0 \<le> i))"

definition step_item_ok :: "wire_step \<Rightarrow> bool" where
  "step_item_ok it \<longleftrightarrow> timeouts_ok (step_timeouts it) \<and> bi_node it \<noteq> [] \<and> bi_token it \<noteq> [] \<and> bi_tactics it \<noteq> [] \<and>
     pred_option (\<lambda>n. 0 \<le> n) (bi_goal_id it) \<and> focus_ok (bi_goal_id it) (bi_resume it) (bi_group it)"

section \<open>Models as codecs\<close>

text \<open>
  What a route and the client rely on for each model: parsing what was dumped gives the value back,
  and what parses is a value the model allows.
\<close>

locale codec =
  fixes enc :: "'a \<Rightarrow> json" and dec :: "json \<Rightarrow> wire_error + 'a" and good :: "'a \<Rightarrow> bool"
  assumes dec_enc: "good x \<Longrightarrow> dec (enc x) = Inr x"
    and dec_good: "dec j = Inr x \<Longrightarrow> good x"
begin

lemma decs_encs: "list_all good xs \<Longrightarrow> emap dec (map enc xs) = Inr xs"
  by (induction xs) (simp_all add: dec_enc)

lemma decs_good: "emap dec js = Inr xs \<Longrightarrow> list_all good xs"
  by (erule emap_all) (rule dec_good)

lemma models_field_enc:
  "dget d (lit name) = Some (JList (map enc xs)) \<Longrightarrow> list_all good xs \<Longrightarrow> models_field name dec d = Inr xs"
  by (simp add: models_field_def decs_encs)

lemma models_field_good: "models_field name dec d = Inr xs \<Longrightarrow> list_all good xs"
  by (auto simp: models_field_def dest: decs_good split: option.splits json.splits)

end

section \<open>Facts on fields\<close>

lemma checked_Inr: "checked name conv ok j = Inr x \<longleftrightarrow> conv j = Some x \<and> ok x"
  by (auto simp: checked_def split: option.split)

lemma req_field_Inr: "req_field name conv ok d = Inr x \<longleftrightarrow> (\<exists>j. dget d (lit name) = Some j \<and> conv j = Some x \<and> ok x)"
  by (auto simp: req_field_def checked_Inr split: option.split)

lemma def_field_Inr:
  "def_field name dflt conv ok d = Inr x \<longleftrightarrow>
     (case dget d (lit name) of None \<Rightarrow> x = dflt | Some j \<Rightarrow> conv j = Some x \<and> ok x)"
  by (auto simp: def_field_def checked_Inr split: option.split)

lemma req_field_good: "req_field name conv ok d = Inr x \<Longrightarrow> ok x"
  by (auto simp: req_field_Inr)

lemma def_field_good: "def_field name dflt conv ok d = Inr x \<Longrightarrow> ok dflt \<Longrightarrow> ok x"
  by (auto simp: def_field_Inr split: option.splits)

lemma dget_opt_entry:
  "dget (opt_entry e name enc v) k =
     (if k = lit name then case v of None \<Rightarrow> if e then None else Some JNull | Some x \<Rightarrow> Some (enc x) else None)"
  by (auto simp: opt_entry_def split: option.split)

lemma list_of_map: "(\<And>x. conv (enc x) = Some x) \<Longrightarrow> list_of conv (JList (map enc xs)) = Some xs"
  by (induction xs) (simp_all add: list_of_def)

lemma nullable_enc: "enc x \<noteq> JNull \<Longrightarrow> conv (enc x) = Some x \<Longrightarrow> nullable conv (enc x) = Some (Some x)"
  by (simp add: nullable_def)

lemma focus_ok_iff: "validate_goal_focus g r grp = Inr () \<longleftrightarrow> focus_ok g r grp"
  by (auto simp: validate_goal_focus_def focus_ok_def card_set_distinct not_less not_le split: option.splits)

lemma require_unique_Inr [simp]: "require_unique m xs = Inr u \<longleftrightarrow> distinct xs"
  by (auto simp: require_unique_def card_set_distinct)

lemma alias_object: "as_object (apply_timeout_alias j) = Inr d \<Longrightarrow> \<exists>d'. j = JObject d'"
  by (cases j) (auto simp: as_object_def apply_timeout_alias_def)

lemma alias_off: "dget d (lit ''timeout_ms'') = None \<Longrightarrow> apply_timeout_alias (JObject d) = JObject d"
  by (simp add: apply_timeout_alias_def)

lemma parse_timeouts_ok: "parse_timeouts co d = Inr t \<Longrightarrow> timeouts_ok t"
  by (auto simp: parse_timeouts_def def_field_Inr timeouts_ok_def split: option.splits)

lemmas coerceD = coerce_ok_def [THEN iffD1, THEN conjunct1, rule_format]
  coerce_ok_def [THEN iffD1, THEN conjunct2, THEN conjunct1, rule_format]
  coerce_ok_def [THEN iffD1, THEN conjunct2, THEN conjunct2, THEN conjunct1, rule_format]

lemma parse_timeouts_entries:
  assumes "coerce_ok co" "timeouts_ok t" "\<And>k. dget (timeout_entries t) k \<noteq> None \<Longrightarrow> dget d k = dget (timeout_entries t) k"
  shows "parse_timeouts co d = Inr t"
proof -
  have "dget d (lit ''acquire_timeout_ms'') = Some (JInt (to_acquire t))"
    "dget d (lit ''step_timeout_ms'') = Some (JInt (to_step t))" "dget d (lit ''debug'') = Some (JBool (to_debug t))"
    using assms(3) [of "lit ''acquire_timeout_ms''"] assms(3) [of "lit ''step_timeout_ms''"] assms(3) [of "lit ''debug''"]
    by (simp_all add: timeout_entries_def)
  with assms(2) show ?thesis
    by (simp add: parse_timeouts_def def_field_def checked_def coerceD [OF assms(1)] timeouts_ok_def)
qed

lemma dget_append: "dget (xs @ ys) k = (case dget xs k of None \<Rightarrow> dget ys k | Some v \<Rightarrow> Some v)"
  by (simp add: map_add_def)

section \<open>Step items\<close>

definition step_entries :: "bool \<Rightarrow> wire_step \<Rightarrow> fields" where
  "step_entries e it = timeout_entries (step_timeouts it) @
     [(lit ''node_id'', JText (bi_node it)), (lit ''state_token'', JText (bi_token it)),
      (lit ''tactics'', JList (map JText (bi_tactics it)))] @
     opt_entry e ''goal_id'' JInt (bi_goal_id it) @
     opt_entry e ''auto_resume'' JBool (bi_resume it) @
     opt_entry e ''goal_group'' (\<lambda>g. JList (map JInt g)) (bi_group it)"

lemma step_entries_get:
  "dget (step_entries e it) (lit ''timeout_ms'') = None"
  "dget (step_entries e it) (lit ''node_id'') = Some (JText (bi_node it))"
  "dget (step_entries e it) (lit ''state_token'') = Some (JText (bi_token it))"
  "dget (step_entries e it) (lit ''tactics'') = Some (JList (map JText (bi_tactics it)))"
  "dget (step_entries e it) (lit ''goal_id'') = dget (opt_entry e ''goal_id'' JInt (bi_goal_id it)) (lit ''goal_id'')"
  "dget (step_entries e it) (lit ''auto_resume'') = dget (opt_entry e ''auto_resume'' JBool (bi_resume it)) (lit ''auto_resume'')"
  "dget (step_entries e it) (lit ''goal_group'') =
     dget (opt_entry e ''goal_group'' (\<lambda>g. JList (map JInt g)) (bi_group it)) (lit ''goal_group'')"
  "dget (timeout_entries (step_timeouts it)) k \<noteq> None \<Longrightarrow> dget (step_entries e it) k = dget (timeout_entries (step_timeouts it)) k"
  by (simp_all add: step_entries_def timeout_entries_def dget_append dget_opt_entry del: map_of_append split: option.splits if_splits)

lemma optional_entry:
  assumes "\<And>x. v = Some x \<Longrightarrow> enc x \<noteq> JNull \<and> conv (enc x) = Some x" "good v"
  shows "(case dget (opt_entry e name enc v) (lit name) of None \<Rightarrow> v = None
    | Some j \<Rightarrow> nullable conv j = Some v \<and> good v)"
  using assms by (cases v) (auto simp: dget_opt_entry nullable_def)

lemma step_item_json_entries: "step_item_json e it = JObject (step_entries e it)"
  by (simp add: step_item_json_def step_entries_def)

lemma step_item_parses:
  assumes "coerce_ok co" "step_item_ok it"
  shows "parse_step_item co (step_item_json e it) = Inr it"
proof -
  note ok = assms(2) [unfolded step_item_ok_def]
  note co = coerceD [OF assms(1)]
  have t: "parse_timeouts co (step_entries e it) = Inr (step_timeouts it)"
    by (rule parse_timeouts_entries [OF assms(1)]) (use ok step_entries_get(8) in blast)+
  have texts: "list_of (co_text co) (JList (map JText xs)) = Some xs" for xs by (rule list_of_map) (rule co)
  have ints: "list_of (co_int co) (JList (map JInt xs)) = Some xs" for xs by (rule list_of_map) (rule co)
  have opts:
    "def_field ''goal_id'' None (nullable (co_int co)) (pred_option (\<lambda>n. 0 \<le> n)) (step_entries e it) = Inr (bi_goal_id it)"
    "def_field ''auto_resume'' None (nullable (co_bool co)) (\<lambda>b. True) (step_entries e it) = Inr (bi_resume it)"
    "def_field ''goal_group'' None (nullable (list_of (co_int co))) (\<lambda>g. True) (step_entries e it) = Inr (bi_group it)"
    unfolding def_field_Inr step_entries_get
    by (rule optional_entry; use ok co ints in simp)+
  have reqs:
    "req_field ''node_id'' (co_text co) nonempty (step_entries e it) = Inr (bi_node it)"
    "req_field ''state_token'' (co_text co) nonempty (step_entries e it) = Inr (bi_token it)"
    "req_field ''tactics'' (list_of (co_text co)) nonempty (step_entries e it) = Inr (bi_tactics it)"
    unfolding req_field_Inr step_entries_get using ok co texts by (simp_all add: nonempty_def)
  have focus: "validate_goal_focus (bi_goal_id it) (bi_resume it) (bi_group it) = Inr ()"
    using ok by (simp add: focus_ok_iff)
  show ?thesis
    unfolding step_item_json_entries parse_step_item_def alias_off [OF step_entries_get(1)]
    by (simp add: as_object_def t opts reqs focus step_timeouts_def)
qed

lemma step_item_sound:
  assumes "parse_step_item co j = Inr it"
  shows "step_item_ok it"
proof -
  obtain d t node token tactics goal_id auto_resume goal_group where
      p: "parse_timeouts co d = Inr t" "req_field ''node_id'' (co_text co) nonempty d = Inr node"
      "req_field ''state_token'' (co_text co) nonempty d = Inr token"
      "req_field ''tactics'' (list_of (co_text co)) nonempty d = Inr tactics"
      "def_field ''goal_id'' None (nullable (co_int co)) (pred_option (\<lambda>n. 0 \<le> n)) d = Inr goal_id"
      "validate_goal_focus goal_id auto_resume goal_group = Inr ()"
    and it: "it = \<lparr>bi_node = node, bi_token = token, bi_tactics = tactics, bi_acquire_ms = to_acquire t,
            bi_step_ms = to_step t, bi_goal_id = goal_id, bi_resume = auto_resume, bi_group = goal_group,
            ws_debug = to_debug t\<rparr>"
    using assms unfolding parse_step_item_def ebind_Inr by auto
  show ?thesis
    unfolding it step_item_ok_def
    using parse_timeouts_ok [OF p(1)] p(2,3,4) [THEN req_field_good] def_field_good [OF p(5)] p(6)
    by (simp add: step_timeouts_def timeouts_ok_def nonempty_def focus_ok_iff)
qed

section \<open>Items of create and verify\<close>

record wire_create =
  wc_item :: pystr
  wc_code :: pystr
  wc_timeouts :: timeouts

record wire_verify =
  wv_item :: pystr
  wv_code :: pystr
  wv_theorem :: pystr
  wv_axioms :: "pystr list option"
  wv_timeouts :: timeouts

definition parse_create_item :: "coerce \<Rightarrow> json \<Rightarrow> wire_error + wire_create" where
  "parse_create_item co j =
     ebind (as_object (apply_timeout_alias j)) (\<lambda>d.
     ebind (parse_timeouts co d) (\<lambda>t.
     ebind (req_field ''item_id'' (co_text co) nonempty d) (\<lambda>item.
     ebind (req_field ''code'' (co_text co) nonempty d) (\<lambda>code.
       Inr \<lparr>wc_item = item, wc_code = code, wc_timeouts = t\<rparr>))))"

definition parse_verify_item :: "coerce \<Rightarrow> json \<Rightarrow> wire_error + wire_verify" where
  "parse_verify_item co j =
     ebind (as_object (apply_timeout_alias j)) (\<lambda>d.
     ebind (parse_timeouts co d) (\<lambda>t.
     ebind (req_field ''item_id'' (co_text co) nonempty d) (\<lambda>item.
     ebind (req_field ''code'' (co_text co) nonempty d) (\<lambda>code.
     ebind (req_field ''theorem_name'' (co_text co) nonempty d) (\<lambda>thm.
     ebind (def_field ''allowed_axioms'' None (nullable (list_of (co_text co))) (\<lambda>a. True) d) (\<lambda>axioms.
       Inr \<lparr>wv_item = item, wv_code = code, wv_theorem = thm, wv_axioms = axioms, wv_timeouts = t\<rparr>))))))"

text \<open>\<open>env_profile\<close> and \<open>items\<close>, whose identifiers must differ.\<close>

definition parse_item_request ::
  "coerce \<Rightarrow> (json \<Rightarrow> wire_error + 'a) \<Rightarrow> ('a \<Rightarrow> pystr) \<Rightarrow> json \<Rightarrow> wire_error + pystr \<times> 'a list" where
  "parse_item_request co dec key j =
     ebind (as_object j) (\<lambda>d.
     ebind (req_field ''env_profile'' (co_text co) nonempty d) (\<lambda>env.
     ebind (models_field ''items'' dec d) (\<lambda>items.
       if items = [] then Inl (FieldInvalid (lit ''items''))
       else ebind (require_unique ''item_id values must be unique'' (map key items)) (\<lambda>u. Inr (env, items)))))"

definition parse_create_request :: "coerce \<Rightarrow> json \<Rightarrow> wire_error + pystr \<times> wire_create list" where
  "parse_create_request co = parse_item_request co (parse_create_item co) wc_item"

definition parse_verify_request :: "coerce \<Rightarrow> json \<Rightarrow> wire_error + pystr \<times> wire_verify list" where
  "parse_verify_request co = parse_item_request co (parse_verify_item co) wv_item"

text \<open>The requests of cleanup and of cancel\<close>

definition parse_ids_request :: "coerce \<Rightarrow> json \<Rightarrow> wire_error + pystr list" where
  "parse_ids_request co j =
     ebind (as_object j) (\<lambda>d.
     ebind (req_field ''item_ids'' (list_of (co_text co)) nonempty d) (\<lambda>ids.
     ebind (require_unique ''item_ids must be unique'' ids) (\<lambda>u. Inr ids)))"

definition create_entries :: "wire_create \<Rightarrow> fields" where
  "create_entries it = timeout_entries (wc_timeouts it) @
     [(lit ''item_id'', JText (wc_item it)), (lit ''code'', JText (wc_code it))]"

definition create_item_json :: "wire_create \<Rightarrow> json" where
  "create_item_json it = JObject (create_entries it)"

definition verify_entries :: "wire_verify \<Rightarrow> fields" where
  "verify_entries it = timeout_entries (wv_timeouts it) @
     [(lit ''item_id'', JText (wv_item it)), (lit ''code'', JText (wv_code it)),
      (lit ''theorem_name'', JText (wv_theorem it))] @
     opt_entry False ''allowed_axioms'' (\<lambda>a. JList (map JText a)) (wv_axioms it)"

definition verify_item_json :: "wire_verify \<Rightarrow> json" where
  "verify_item_json it = JObject (verify_entries it)"

definition item_request_json :: "('a \<Rightarrow> json) \<Rightarrow> pystr \<Rightarrow> 'a list \<Rightarrow> json" where
  "item_request_json enc env items = JObject [(lit ''env_profile'', JText env), (lit ''items'', JList (map enc items))]"

definition ids_request_json :: "pystr list \<Rightarrow> json" where
  "ids_request_json ids = JObject [(lit ''item_ids'', JList (map JText ids))]"

definition create_item_ok :: "wire_create \<Rightarrow> bool" where
  "create_item_ok it \<longleftrightarrow> timeouts_ok (wc_timeouts it) \<and> wc_item it \<noteq> [] \<and> wc_code it \<noteq> []"

definition verify_item_ok :: "wire_verify \<Rightarrow> bool" where
  "verify_item_ok it \<longleftrightarrow> timeouts_ok (wv_timeouts it) \<and> wv_item it \<noteq> [] \<and> wv_code it \<noteq> [] \<and> wv_theorem it \<noteq> []"

lemma create_entries_get:
  "dget (create_entries it) (lit ''timeout_ms'') = None"
  "dget (create_entries it) (lit ''item_id'') = Some (JText (wc_item it))"
  "dget (create_entries it) (lit ''code'') = Some (JText (wc_code it))"
  "dget (timeout_entries (wc_timeouts it)) k \<noteq> None \<Longrightarrow> dget (create_entries it) k = dget (timeout_entries (wc_timeouts it)) k"
  by (simp_all add: create_entries_def timeout_entries_def dget_append del: map_of_append split: option.splits if_splits)

lemma verify_entries_get:
  "dget (verify_entries it) (lit ''timeout_ms'') = None"
  "dget (verify_entries it) (lit ''item_id'') = Some (JText (wv_item it))"
  "dget (verify_entries it) (lit ''code'') = Some (JText (wv_code it))"
  "dget (verify_entries it) (lit ''theorem_name'') = Some (JText (wv_theorem it))"
  "dget (verify_entries it) (lit ''allowed_axioms'') =
     dget (opt_entry False ''allowed_axioms'' (\<lambda>a. JList (map JText a)) (wv_axioms it)) (lit ''allowed_axioms'')"
  "dget (timeout_entries (wv_timeouts it)) k \<noteq> None \<Longrightarrow> dget (verify_entries it) k = dget (timeout_entries (wv_timeouts it)) k"
  by (simp_all add: verify_entries_def timeout_entries_def dget_append dget_opt_entry del: map_of_append split: option.splits if_splits)

lemma create_item_parses:
  assumes "coerce_ok co" "create_item_ok it"
  shows "parse_create_item co (create_item_json it) = Inr it"
proof -
  note ok = assms(2) [unfolded create_item_ok_def]
  have t: "parse_timeouts co (create_entries it) = Inr (wc_timeouts it)"
    by (rule parse_timeouts_entries [OF assms(1)]) (use ok create_entries_get(4) in blast)+
  show ?thesis
    unfolding create_item_json_def parse_create_item_def alias_off [OF create_entries_get(1)]
    using ok by (simp add: as_object_def t req_field_def create_entries_get checked_def coerceD [OF assms(1)] nonempty_def)
qed

lemma verify_item_parses:
  assumes "coerce_ok co" "verify_item_ok it"
  shows "parse_verify_item co (verify_item_json it) = Inr it"
proof -
  note ok = assms(2) [unfolded verify_item_ok_def]
  have t: "parse_timeouts co (verify_entries it) = Inr (wv_timeouts it)"
    by (rule parse_timeouts_entries [OF assms(1)]) (use ok verify_entries_get(6) in blast)+
  have texts: "list_of (co_text co) (JList (map JText xs)) = Some xs" for xs
    by (rule list_of_map) (rule coerceD [OF assms(1)])
  have axioms: "def_field ''allowed_axioms'' None (nullable (list_of (co_text co))) (\<lambda>a. True) (verify_entries it) = Inr (wv_axioms it)"
    unfolding def_field_Inr verify_entries_get by (rule optional_entry; use texts in simp)
  show ?thesis
    unfolding verify_item_json_def parse_verify_item_def alias_off [OF verify_entries_get(1)]
    using ok by (simp add: as_object_def t axioms req_field_def verify_entries_get checked_def coerceD [OF assms(1)] nonempty_def)
qed

lemma create_item_sound: "parse_create_item co j = Inr it \<Longrightarrow> create_item_ok it"
  by (auto simp: parse_create_item_def create_item_ok_def nonempty_def dest: parse_timeouts_ok req_field_good)

lemma verify_item_sound: "parse_verify_item co j = Inr it \<Longrightarrow> verify_item_ok it"
  by (auto simp: parse_verify_item_def verify_item_ok_def nonempty_def dest: parse_timeouts_ok req_field_good)

section \<open>Requests\<close>

definition step_request_ok :: "wire_step list \<Rightarrow> bool" where
  "step_request_ok items \<longleftrightarrow> items \<noteq> [] \<and> list_all step_item_ok items \<and> distinct (map bi_node items)"

definition item_request_ok :: "('a \<Rightarrow> bool) \<Rightarrow> ('a \<Rightarrow> pystr) \<Rightarrow> pystr \<times> 'a list \<Rightarrow> bool" where
  "item_request_ok good key r \<longleftrightarrow> fst r \<noteq> [] \<and> snd r \<noteq> [] \<and> list_all good (snd r) \<and> distinct (map key (snd r))"

lemma models_field_sound:
  assumes "models_field name dec d = Inr xs" "\<And>j x. dec j = Inr x \<Longrightarrow> good x"
  shows "list_all good xs"
  using assms by (auto simp: models_field_def intro: emap_all split: option.splits json.splits)

lemma step_request_sound:
  assumes "parse_step_request co j = Inr items"
  shows "step_request_ok items"
proof -
  obtain d where "models_field ''items'' (parse_step_item co) d = Inr items" "items \<noteq> []" "distinct (map bi_node items)"
    using assms by (auto simp: parse_step_request_def split: if_splits)
  then show ?thesis
    using models_field_sound [OF _ step_item_sound] by (simp add: step_request_ok_def)
qed

lemma step_item_okD:
  assumes "step_item_ok it"
  shows "1 \<le> bi_acquire_ms it" "1 \<le> bi_step_ms it" "bi_tactics it \<noteq> []" "bi_node it \<noteq> []"
    "bi_resume it \<noteq> None \<Longrightarrow> bi_goal_id it \<noteq> None"
    "bi_group it = Some grp \<Longrightarrow> bi_goal_id it = None \<and> bi_resume it = None \<and> grp \<noteq> [] \<and> distinct grp \<and> (\<forall>i\<in>set grp. 0 \<le> i)"
  using assms by (simp_all add: step_item_ok_def focus_ok_def step_timeouts_def timeouts_ok_def)

text \<open>A request of items, over any codec of its items.\<close>

locale item_codec = codec enc dec good for enc :: "'a \<Rightarrow> json" and dec and good +
  fixes co :: coerce and key :: "'a \<Rightarrow> pystr"
  assumes texts: "co_text co (JText t) = Some t"
begin

lemma request_parses:
  "item_request_ok good key (env, items) \<Longrightarrow> parse_item_request co dec key (item_request_json enc env items) = Inr (env, items)"
  by (simp add: parse_item_request_def item_request_json_def item_request_ok_def as_object_def req_field_def
      checked_def texts nonempty_def models_field_enc)

lemma request_sound: "parse_item_request co dec key j = Inr r \<Longrightarrow> item_request_ok good key r"
  by (auto simp: parse_item_request_def item_request_ok_def nonempty_def
      dest: req_field_good models_field_good split: if_splits)

end

text \<open>The codecs of a server whose \<open>pydantic\<close> keeps plain values.\<close>

locale lenient =
  fixes co :: coerce
  assumes plain: "coerce_ok co"

sublocale lenient < steps: codec "step_item_json e" "parse_step_item co" step_item_ok for e
  by unfold_locales (auto intro: step_item_parses [OF plain] step_item_sound)

sublocale lenient < creates: item_codec create_item_json "parse_create_item co" create_item_ok co wc_item
  by unfold_locales (auto intro: create_item_parses [OF plain] create_item_sound simp: coerceD [OF plain])

sublocale lenient < verifies: item_codec verify_item_json "parse_verify_item co" verify_item_ok co wv_item
  by unfold_locales (auto intro: verify_item_parses [OF plain] verify_item_sound simp: coerceD [OF plain])

context lenient
begin

lemma step_request_parses:
  "step_request_ok items \<Longrightarrow> parse_step_request co (step_request_json e items) = Inr items"
  by (simp add: parse_step_request_def step_request_json_def step_request_ok_def as_object_def
      steps.models_field_enc [where e = e])

lemmas step_items_parse = steps.decs_encs
lemmas create_request_parses = creates.request_parses
lemmas create_request_sound = creates.request_sound
lemmas verify_request_parses = verifies.request_parses
lemmas verify_request_sound = verifies.request_sound

end

interpretation json: lenient strict
  by unfold_locales (simp add: coerce_ok_def strict_def)

section \<open>Properties of requests\<close>

lemma first_out_of_range_Some: "first_out_of_range is n = Some i \<Longrightarrow> i \<in> set is \<and> (i < 0 \<or> n \<le> i)"
  by (induction "is" n rule: first_out_of_range.induct) (auto split: if_splits)

lemma group_only_out_of_range:
  assumes "grp \<noteq> []" "distinct grp" "\<forall>i\<in>set grp. 0 \<le> i"
  shows "validate_goal_group grp n = Inr () \<or>
    (\<exists>i\<in>set grp. n \<le> i \<and> validate_goal_group grp n = Inl (GroupOutOfRange i n))"
proof (cases "first_out_of_range grp n")
  case None
  with assms show ?thesis by (simp add: validate_goal_group_def card_set_distinct)
next
  case (Some i)
  then have "i \<in> set grp" "n \<le> i" using first_out_of_range_Some [OF Some] assms(3) by auto
  with Some assms show ?thesis by (auto simp: validate_goal_group_def card_set_distinct)
qed

text \<open>
  C39. A step request that passes the wire models is well formed: positive timeouts, at least one
  tactic, distinct nodes, a goal to resume only with a goal, and a goal group only by itself; of such
  a group the worker can only find that it names a goal the state does not have.
\<close>

theorem step_request_validated:
  assumes "parse_step_request co j = Inr items" "it \<in> set items"
  shows "1 \<le> bi_acquire_ms it \<and> 1 \<le> bi_step_ms it \<and> bi_tactics it \<noteq> [] \<and> bi_node it \<noteq> [] \<and>
    distinct (map bi_node items) \<and> (bi_resume it \<noteq> None \<longrightarrow> bi_goal_id it \<noteq> None) \<and>
    (\<forall>grp. bi_group it = Some grp \<longrightarrow> bi_goal_id it = None \<and> bi_resume it = None \<and>
      (\<forall>n. validate_goal_group grp n = Inr () \<or>
        (\<exists>i\<in>set grp. n \<le> i \<and> validate_goal_group grp n = Inl (GroupOutOfRange i n))))"
proof -
  have req: "step_request_ok items" by (rule step_request_sound [OF assms(1)])
  then have ok: "step_item_ok it" using assms(2) by (simp add: step_request_ok_def list_all_iff)
  note d = step_item_okD [OF ok]
  have "validate_goal_group grp n = Inr () \<or>
      (\<exists>i\<in>set grp. n \<le> i \<and> validate_goal_group grp n = Inl (GroupOutOfRange i n))" if "bi_group it = Some grp" for grp n
    by (rule group_only_out_of_range) (use d(6) [OF that] in blast)+
  with d req show ?thesis by (simp add: step_request_ok_def)
qed

definition demo_wire_step :: wire_step where
  "demo_wire_step = \<lparr>bi_node = lit ''n'', bi_token = lit ''st_a'', bi_tactics = [lit ''simp''], bi_acquire_ms = 10,
     bi_step_ms = 20, bi_goal_id = None, bi_resume = None, bi_group = Some [1, 0], ws_debug = False\<rparr>"

theorem step_request_validated_witness:
  "parse_step_request strict (step_request_json True [demo_wire_step]) = Inr [demo_wire_step] \<and>
   (\<forall>n. validate_goal_group [1, 0] n = Inr () \<or>
     (\<exists>i\<in>{0, 1}. n \<le> i \<and> validate_goal_group [1, 0] n = Inl (GroupOutOfRange i n)))"
proof -
  have "step_request_ok [demo_wire_step]"
    by (simp add: step_request_ok_def step_item_ok_def demo_wire_step_def step_timeouts_def timeouts_ok_def focus_ok_def)
  then have p: "parse_step_request strict (step_request_json True [demo_wire_step]) = Inr [demo_wire_step]"
    by (rule json.step_request_parses)
  have "bi_group demo_wire_step = Some [1, 0]" by (simp add: demo_wire_step_def)
  then show ?thesis using p step_request_validated [OF p, of demo_wire_step] by auto
qed

text \<open>
  C40. Requests survive the wire: what the client dumps, with or without its \<open>None\<close> fields, parses
  back to the same items exactly when they satisfy the model's constraints; nothing else that the
  client could dump is accepted.
\<close>

theorem requests_roundtrip:
  assumes "coerce_ok co"
  shows "(parse_step_request co (step_request_json e items) = Inr items \<longleftrightarrow> step_request_ok items) \<and>
    (parse_create_request co (item_request_json create_item_json env cs) = Inr (env, cs) \<longleftrightarrow>
       item_request_ok create_item_ok wc_item (env, cs)) \<and>
    (parse_verify_request co (item_request_json verify_item_json env vs) = Inr (env, vs) \<longleftrightarrow>
       item_request_ok verify_item_ok wv_item (env, vs)) \<and>
    (parse_ids_request co (ids_request_json ids) = Inr ids \<longleftrightarrow> ids \<noteq> [] \<and> distinct ids)"
proof -
  have co: "lenient co" using assms by unfold_locales
  have ids: "list_of (co_text co) (JList (map JText ids)) = Some ids"
    by (rule list_of_map) (rule coerceD [OF assms])
  have "parse_step_request co (step_request_json e items) = Inr items \<longleftrightarrow> step_request_ok items"
    by (rule iffI) (fact step_request_sound, rule lenient.step_request_parses [OF co])
  moreover have "parse_create_request co (item_request_json create_item_json env cs) = Inr (env, cs) \<longleftrightarrow>
      item_request_ok create_item_ok wc_item (env, cs)"
    unfolding parse_create_request_def
    by (rule iffI) (rule lenient.create_request_sound [OF co], assumption, rule lenient.create_request_parses [OF co])
  moreover have "parse_verify_request co (item_request_json verify_item_json env vs) = Inr (env, vs) \<longleftrightarrow>
      item_request_ok verify_item_ok wv_item (env, vs)"
    unfolding parse_verify_request_def
    by (rule iffI) (rule lenient.verify_request_sound [OF co], assumption, rule lenient.verify_request_parses [OF co])
  moreover have "parse_ids_request co (ids_request_json ids) = Inr ids \<longleftrightarrow> ids \<noteq> [] \<and> distinct ids"
    by (auto simp: parse_ids_request_def ids_request_json_def as_object_def req_field_def checked_def ids nonempty_def)
  ultimately show ?thesis by blast
qed

theorem requests_roundtrip_witness:
  "coerce_ok strict \<and> step_request_ok [demo_wire_step] \<and>
   parse_step_request strict (step_request_json False [demo_wire_step]) = Inr [demo_wire_step]"
proof -
  have "coerce_ok strict" by (simp add: coerce_ok_def strict_def)
  moreover have "step_request_ok [demo_wire_step]"
    by (simp add: step_request_ok_def step_item_ok_def demo_wire_step_def step_timeouts_def timeouts_ok_def focus_ok_def)
  ultimately show ?thesis using requests_roundtrip [of strict False "[demo_wire_step]"] by blast
qed

text \<open>The old \<open>timeout_ms\<close> stands for both timeouts, but not where one of them is an explicit \<open>null\<close>.\<close>

lemma timeout_alias:
  assumes "coerce_ok co" "1 \<le> t"
  shows "ebind (as_object (apply_timeout_alias (JObject [(lit ''timeout_ms'', JInt t)]))) (parse_timeouts co) =
      Inr \<lparr>to_acquire = t, to_step = t, to_debug = False\<rparr>"
    and "ebind (as_object (apply_timeout_alias (JObject [(lit ''timeout_ms'', JInt t), (lit ''step_timeout_ms'', JNull)])))
      (parse_timeouts co) = Inl (FieldInvalid (lit ''step_timeout_ms''))"
  using assms coerceD [OF assms(1)]
  by (simp_all add: apply_timeout_alias_def set_missing_def as_object_def parse_timeouts_def def_field_def checked_def
      coerce_ok_def)

end
