(* ===== verification/WireResults.thy ===== *)
theory WireResults
  imports WireModels ExecRoutes
begin

text \<open>
  The responses of the \<open>/exec\<close> routes on the wire: what the server sends for created states, step
  results and verdicts (without its \<open>None\<close> fields), and what the client's models read.  Diagnostics,
  which are measurements, are left out.
\<close>

section \<open>Fields of models\<close>

definition models_default :: "string \<Rightarrow> (json \<Rightarrow> wire_error + 'a) \<Rightarrow> fields \<Rightarrow> wire_error + 'a list" where
  "models_default name dec d = (if dget d (lit name) = None then Inr [] else models_field name dec d)"

definition opt_model :: "string \<Rightarrow> (json \<Rightarrow> wire_error + 'a) \<Rightarrow> fields \<Rightarrow> wire_error + 'a option" where
  "opt_model name dec d =
     (case dget d (lit name) of
        None \<Rightarrow> Inr None
      | Some j \<Rightarrow> if j = JNull then Inr None else ebind (dec j) (\<lambda>x. Inr (Some x)))"

text \<open>A \<open>Literal\<close> of texts, as a dictionary from its words.\<close>

definition literal :: "(pystr \<times> 'a) list \<Rightarrow> json \<Rightarrow> 'a option" where
  "literal words j = (case j of JText t \<Rightarrow> dget words t | _ \<Rightarrow> None)"

definition word_of :: "(pystr \<times> 'a) list \<Rightarrow> 'a \<Rightarrow> json" where
  "word_of words x = JText (case find (\<lambda>p. snd p = x) words of Some p \<Rightarrow> fst p | None \<Rightarrow> [])"

definition severity_words :: "(pystr \<times> severity) list" where
  "severity_words = [(lit ''trace'', SevTrace), (lit ''info'', SevInfo), (lit ''warning'', SevWarning), (lit ''error'', SevError)]"

definition exec_status_words :: "(pystr \<times> exec_status) list" where
  "exec_status_words = [(lit ''open'', StOpen), (lit ''complete'', StComplete), (lit ''error'', StError),
     (lit ''invalid_state_token'', StInvalidToken), (lit ''overloaded'', StOverloaded), (lit ''cancelled'', StCancelled)]"

definition verify_status_words :: "(pystr \<times> verify_status) list" where
  "verify_status_words = [(lit ''accepted'', VAccepted), (lit ''rejected'', VRejected), (lit ''error'', VError),
     (lit ''overloaded'', VOverloaded), (lit ''cancelled'', VCancelled)]"

lemma severity_literal: "literal severity_words (word_of severity_words v) = Some v"
  by (cases v) (simp_all add: literal_def word_of_def severity_words_def)

lemma exec_status_literal: "literal exec_status_words (word_of exec_status_words v) = Some v"
  by (cases v) (simp_all add: literal_def word_of_def exec_status_words_def)

lemma verify_status_literal: "literal verify_status_words (word_of verify_status_words v) = Some v"
  by (cases v) (simp_all add: literal_def word_of_def verify_status_words_def)

section \<open>Messages\<close>

definition pos_json :: "exec_pos \<Rightarrow> json" where
  "pos_json p = JObject [(lit ''line'', JInt (ep_line p)), (lit ''col'', JInt (ep_col p))]"

definition parse_pos :: "coerce \<Rightarrow> json \<Rightarrow> wire_error + exec_pos" where
  "parse_pos co j =
     ebind (as_object j) (\<lambda>d.
     ebind (req_field ''line'' (co_int co) (\<lambda>n. 1 \<le> n) d) (\<lambda>line.
     ebind (req_field ''col'' (co_int co) (\<lambda>n. 0 \<le> n) d) (\<lambda>col.
       Inr \<lparr>ep_line = line, ep_col = col\<rparr>)))"

definition pos_ok :: "exec_pos \<Rightarrow> bool" where
  "pos_ok p \<longleftrightarrow> 1 \<le> ep_line p \<and> 0 \<le> ep_col p"

definition message_entries :: "exec_message \<Rightarrow> fields" where
  "message_entries m = [(lit ''severity'', word_of severity_words (em_severity m)), (lit ''data'', JText (em_data m))] @
     opt_entry True ''pos'' pos_json (em_pos m) @ opt_entry True ''end_pos'' pos_json (em_end m)"

definition message_json :: "exec_message \<Rightarrow> json" where
  "message_json m = JObject (message_entries m)"

definition parse_exec_message :: "coerce \<Rightarrow> json \<Rightarrow> wire_error + exec_message" where
  "parse_exec_message co j =
     ebind (as_object j) (\<lambda>d.
     ebind (req_field ''severity'' (literal severity_words) (\<lambda>s. True) d) (\<lambda>sev.
     ebind (req_field ''data'' (co_text co) (\<lambda>t. True) d) (\<lambda>data.
     ebind (opt_model ''pos'' (parse_pos co) d) (\<lambda>pos.
     ebind (opt_model ''end_pos'' (parse_pos co) d) (\<lambda>fin.
       Inr \<lparr>em_severity = sev, em_data = data, em_pos = pos, em_end = fin\<rparr>)))))"

section \<open>Goals\<close>

definition hypothesis_entries :: "hypothesis \<Rightarrow> fields" where
  "hypothesis_entries h = [(lit ''type'', JText (hy_type h))] @
     opt_entry True ''name'' JText (hy_name h) @ opt_entry True ''value'' JText (hy_value h)"

definition hypothesis_json :: "hypothesis \<Rightarrow> json" where
  "hypothesis_json h = JObject (hypothesis_entries h)"

definition parse_hypothesis :: "coerce \<Rightarrow> json \<Rightarrow> wire_error + hypothesis" where
  "parse_hypothesis co j =
     ebind (as_object j) (\<lambda>d.
     ebind (req_field ''type'' (co_text co) (\<lambda>t. True) d) (\<lambda>ty.
     ebind (def_field ''name'' None (nullable (co_text co)) (\<lambda>t. True) d) (\<lambda>name.
     ebind (def_field ''value'' None (nullable (co_text co)) (\<lambda>t. True) d) (\<lambda>val.
       Inr \<lparr>hy_type = ty, hy_name = name, hy_value = val\<rparr>))))"

definition goal_entries :: "goal \<Rightarrow> fields" where
  "goal_entries g = [(lit ''target'', JText (go_target g)), (lit ''pretty'', JText (go_pretty g)),
     (lit ''hypotheses'', JList (map hypothesis_json (go_hyps g)))] @
     opt_entry True ''name'' JText (go_name g) @
     [(lit ''sibling_dep'', JList (map JInt (go_sibling_dep g)))]"

definition goal_json :: "goal \<Rightarrow> json" where
  "goal_json g = JObject (goal_entries g)"

definition parse_goal :: "coerce \<Rightarrow> json \<Rightarrow> wire_error + goal" where
  "parse_goal co j =
     ebind (as_object j) (\<lambda>d.
     ebind (req_field ''target'' (co_text co) (\<lambda>t. True) d) (\<lambda>target.
     ebind (def_field ''pretty'' [] (co_text co) (\<lambda>t. True) d) (\<lambda>pretty.
     ebind (models_default ''hypotheses'' (parse_hypothesis co) d) (\<lambda>hyps.
     ebind (def_field ''name'' None (nullable (co_text co)) (\<lambda>t. True) d) (\<lambda>name.
     ebind (def_field ''sibling_dep'' [] (list_of (co_int co)) (\<lambda>t. True) d) (\<lambda>deps.
       Inr \<lparr>go_target = target, go_pretty = pretty, go_hyps = hyps, go_name = name, go_sibling_dep = deps\<rparr>))))))"

section \<open>Results\<close>

definition step_result_entries :: "tactic_result \<Rightarrow> fields" where
  "step_result_entries r = [(lit ''tactic'', JText (tr_tactic r)), (lit ''status'', word_of exec_status_words (tr_status r))] @
     opt_entry True ''state_token'' JText (tr_token r) @
     [(lit ''goals'', JList (map goal_json (tr_goals r))), (lit ''messages'', JList (map message_json (tr_messages r)))]"

definition step_result_json :: "tactic_result \<Rightarrow> json" where
  "step_result_json r = JObject (step_result_entries r)"

definition parse_step_result :: "coerce \<Rightarrow> json \<Rightarrow> wire_error + tactic_result" where
  "parse_step_result co j =
     ebind (as_object j) (\<lambda>d.
     ebind (req_field ''tactic'' (co_text co) (\<lambda>t. True) d) (\<lambda>tactic.
     ebind (req_field ''status'' (literal exec_status_words) (\<lambda>t. True) d) (\<lambda>status.
     ebind (def_field ''state_token'' None (nullable (co_text co)) (\<lambda>t. True) d) (\<lambda>token.
     ebind (models_default ''goals'' (parse_goal co) d) (\<lambda>goals.
     ebind (models_default ''messages'' (parse_exec_message co) d) (\<lambda>messages.
       Inr \<lparr>tr_tactic = tactic, tr_status = status, tr_token = token, tr_goals = goals, tr_messages = messages\<rparr>))))))"

definition batch_result_json :: "batch_result \<Rightarrow> json" where
  "batch_result_json r = JObject [(lit ''node_id'', JText (br_node r)), (lit ''results'', JList (map step_result_json (br_results r)))]"

definition parse_batch_result :: "coerce \<Rightarrow> json \<Rightarrow> wire_error + batch_result" where
  "parse_batch_result co j =
     ebind (as_object j) (\<lambda>d.
     ebind (req_field ''node_id'' (co_text co) (\<lambda>t. True) d) (\<lambda>node.
     ebind (models_default ''results'' (parse_step_result co) d) (\<lambda>results.
       Inr \<lparr>br_node = node, br_results = results\<rparr>)))"

definition state_json :: "created_state \<Rightarrow> json" where
  "state_json s = JObject [(lit ''state_token'', JText (cs_token s)), (lit ''goals'', JList (map goal_json (cs_goals s)))]"

definition parse_state :: "coerce \<Rightarrow> json \<Rightarrow> wire_error + created_state" where
  "parse_state co j =
     ebind (as_object j) (\<lambda>d.
     ebind (req_field ''state_token'' (co_text co) nonempty d) (\<lambda>token.
     ebind (models_default ''goals'' (parse_goal co) d) (\<lambda>goals.
       Inr \<lparr>cs_token = token, cs_goals = goals\<rparr>)))"

definition created_json :: "created_item \<Rightarrow> json" where
  "created_json r = JObject [(lit ''item_id'', JText (ci_item r)), (lit ''status'', word_of exec_status_words (ci_status r)),
     (lit ''states'', JList (map state_json (ci_states r))), (lit ''messages'', JList (map message_json (ci_messages r)))]"

definition parse_created :: "coerce \<Rightarrow> json \<Rightarrow> wire_error + created_item" where
  "parse_created co j =
     ebind (as_object j) (\<lambda>d.
     ebind (req_field ''item_id'' (co_text co) (\<lambda>t. True) d) (\<lambda>item.
     ebind (req_field ''status'' (literal exec_status_words) (\<lambda>t. True) d) (\<lambda>status.
     ebind (models_default ''states'' (parse_state co) d) (\<lambda>states.
     ebind (models_default ''messages'' (parse_exec_message co) d) (\<lambda>messages.
       Inr \<lparr>ci_item = item, ci_status = status, ci_states = states, ci_messages = messages\<rparr>)))))"

definition verified_json :: "verified_item \<Rightarrow> json" where
  "verified_json r = JObject [(lit ''item_id'', JText (vi_item r)), (lit ''status'', word_of verify_status_words (vi_status r)),
     (lit ''theorem_name'', JText (vi_theorem r)), (lit ''axioms'', JList (map JText (vi_axioms r))),
     (lit ''messages'', JList (map message_json (vi_messages r)))]"

definition parse_verified :: "coerce \<Rightarrow> json \<Rightarrow> wire_error + verified_item" where
  "parse_verified co j =
     ebind (as_object j) (\<lambda>d.
     ebind (req_field ''item_id'' (co_text co) (\<lambda>t. True) d) (\<lambda>item.
     ebind (req_field ''status'' (literal verify_status_words) (\<lambda>t. True) d) (\<lambda>status.
     ebind (req_field ''theorem_name'' (co_text co) (\<lambda>t. True) d) (\<lambda>thm.
     ebind (def_field ''axioms'' [] (list_of (co_text co)) (\<lambda>t. True) d) (\<lambda>axioms.
     ebind (models_default ''messages'' (parse_exec_message co) d) (\<lambda>messages.
       Inr \<lparr>vi_item = item, vi_theorem = thm, vi_status = status, vi_axioms = axioms, vi_messages = messages\<rparr>))))))"

text \<open>A response: \<open>{"items": [...]}\<close>\<close>

definition response_json :: "('a \<Rightarrow> json) \<Rightarrow> 'a list \<Rightarrow> json" where
  "response_json enc items = JObject [(lit ''items'', JList (map enc items))]"

definition parse_response :: "(json \<Rightarrow> wire_error + 'a) \<Rightarrow> json \<Rightarrow> wire_error + 'a list" where
  "parse_response dec j = ebind (as_object j) (models_field ''items'' dec)"

section \<open>What the models allow\<close>

definition step_result_ok :: "tactic_result \<Rightarrow> bool" where
  "step_result_ok r \<longleftrightarrow> list_all message_ok (tr_messages r)"

definition batch_result_ok :: "batch_result \<Rightarrow> bool" where
  "batch_result_ok r \<longleftrightarrow> list_all step_result_ok (br_results r)"

definition state_ok :: "created_state \<Rightarrow> bool" where
  "state_ok s \<longleftrightarrow> cs_token s \<noteq> []"

definition created_ok :: "created_item \<Rightarrow> bool" where
  "created_ok r \<longleftrightarrow> list_all state_ok (ci_states r) \<and> list_all message_ok (ci_messages r)"

definition verified_ok :: "verified_item \<Rightarrow> bool" where
  "verified_ok r \<longleftrightarrow> list_all message_ok (vi_messages r)"

context codec
begin

lemma models_default_enc:
  "dget d (lit name) = Some (JList (map enc xs)) \<Longrightarrow> list_all good xs \<Longrightarrow> models_default name dec d = Inr xs"
  by (simp add: models_default_def models_field_enc)

lemma models_default_good: "models_default name dec d = Inr xs \<Longrightarrow> list_all good xs"
  by (auto simp: models_default_def dest: models_field_good split: if_splits)

lemma opt_model_enc:
  assumes "dget d (lit name) = map_option enc v" "pred_option good v" "\<And>x. enc x \<noteq> JNull"
  shows "opt_model name dec d = Inr v"
  using assms by (cases v) (simp_all add: opt_model_def dec_enc)

lemma opt_model_good: "opt_model name dec d = Inr v \<Longrightarrow> pred_option good v"
  by (auto simp: opt_model_def dest: dec_good split: option.splits if_splits)

lemma response_parses: "list_all good xs \<Longrightarrow> parse_response dec (response_json enc xs) = Inr xs"
  by (simp add: parse_response_def response_json_def as_object_def models_field_enc)

lemma response_good: "parse_response dec j = Inr xs \<Longrightarrow> list_all good xs"
  by (auto simp: parse_response_def dest: models_field_good)

end

lemma dget_opt_true: "dget (opt_entry True name enc v) (lit k) = (if k = name then map_option enc v else None)"
  by (auto simp: dget_opt_entry split: option.split)

lemma def_field_opt:
  assumes "dget d (lit name) = map_option enc v" "\<And>x. conv (enc x) = Some x" "\<And>x. enc x \<noteq> JNull"
  shows "def_field name None (nullable conv) (\<lambda>x. True) d = Inr v"
  using assms by (cases v) (simp_all add: def_field_def checked_def nullable_def)

lemma req_field_at: "dget d (lit name) = Some j \<Longrightarrow> req_field name conv ok d = checked (lit name) conv ok j"
  by (simp add: req_field_def)

lemma def_field_at: "dget d (lit name) = Some j \<Longrightarrow> def_field name dflt conv ok d = checked (lit name) conv ok j"
  by (simp add: def_field_def)

lemma message_entries_get:
  "dget (message_entries m) (lit ''severity'') = Some (word_of severity_words (em_severity m))"
  "dget (message_entries m) (lit ''data'') = Some (JText (em_data m))"
  "dget (message_entries m) (lit ''pos'') = map_option pos_json (em_pos m)"
  "dget (message_entries m) (lit ''end_pos'') = map_option pos_json (em_end m)"
  by (simp_all add: message_entries_def dget_append dget_opt_true del: map_of_append split: option.split)

lemma hypothesis_entries_get:
  "dget (hypothesis_entries h) (lit ''type'') = Some (JText (hy_type h))"
  "dget (hypothesis_entries h) (lit ''name'') = map_option JText (hy_name h)"
  "dget (hypothesis_entries h) (lit ''value'') = map_option JText (hy_value h)"
  by (simp_all add: hypothesis_entries_def dget_append dget_opt_true del: map_of_append split: option.split)

lemma goal_entries_get:
  "dget (goal_entries g) (lit ''target'') = Some (JText (go_target g))"
  "dget (goal_entries g) (lit ''pretty'') = Some (JText (go_pretty g))"
  "dget (goal_entries g) (lit ''hypotheses'') = Some (JList (map hypothesis_json (go_hyps g)))"
  "dget (goal_entries g) (lit ''name'') = map_option JText (go_name g)"
  "dget (goal_entries g) (lit ''sibling_dep'') = Some (JList (map JInt (go_sibling_dep g)))"
  by (simp_all add: goal_entries_def dget_append dget_opt_true del: map_of_append split: option.split)

lemma step_result_entries_get:
  "dget (step_result_entries r) (lit ''tactic'') = Some (JText (tr_tactic r))"
  "dget (step_result_entries r) (lit ''status'') = Some (word_of exec_status_words (tr_status r))"
  "dget (step_result_entries r) (lit ''state_token'') = map_option JText (tr_token r)"
  "dget (step_result_entries r) (lit ''goals'') = Some (JList (map goal_json (tr_goals r)))"
  "dget (step_result_entries r) (lit ''messages'') = Some (JList (map message_json (tr_messages r)))"
  by (simp_all add: step_result_entries_def dget_append dget_opt_true del: map_of_append split: option.split)

text \<open>Every model of a response as a codec; each proof uses the codecs of the models it holds.\<close>

lemma parse_pos_good: "parse_pos co j = Inr p \<Longrightarrow> pos_ok p"
  by (auto simp: parse_pos_def pos_ok_def dest: req_field_good)

lemma message_ok_positions: "message_ok m \<longleftrightarrow> pred_option pos_ok (em_pos m) \<and> pred_option pos_ok (em_end m)"
  by (cases "em_pos m"; cases "em_end m") (auto simp: message_ok_def pos_ok_def)

context lenient
begin

lemmas plain_values = coerceD [OF plain]

lemma plain_lists:
  "list_of (co_text co) (JList (map JText xs)) = Some xs" "list_of (co_int co) (JList (map JInt ns)) = Some ns"
  by (rule list_of_map, rule plain_values)+

lemma pos_parses: "pos_ok p \<Longrightarrow> parse_pos co (pos_json p) = Inr p"
  by (simp add: parse_pos_def pos_json_def pos_ok_def as_object_def req_field_def checked_def plain_values)

lemma hypothesis_parses: "parse_hypothesis co (hypothesis_json h) = Inr h"
  by (simp add: parse_hypothesis_def hypothesis_json_def as_object_def checked_def plain_values
      req_field_at [OF hypothesis_entries_get(1)] def_field_opt [OF hypothesis_entries_get(2)]
      def_field_opt [OF hypothesis_entries_get(3)])

end

sublocale lenient < positions: codec pos_json "parse_pos co" pos_ok
  by unfold_locales (auto intro: pos_parses parse_pos_good)

sublocale lenient < hyps: codec hypothesis_json "parse_hypothesis co" "\<lambda>h. True"
  by unfold_locales (simp_all add: hypothesis_parses)

context lenient
begin

lemma message_parses:
  assumes "message_ok m"
  shows "parse_exec_message co (message_json m) = Inr m"
proof -
  have "pred_option pos_ok (em_pos m)" "pred_option pos_ok (em_end m)"
    using assms by (simp_all add: message_ok_positions)
  then show ?thesis
    by (simp add: parse_exec_message_def message_json_def as_object_def checked_def plain_values severity_literal
        req_field_at [OF message_entries_get(1)] req_field_at [OF message_entries_get(2)]
        positions.opt_model_enc [OF message_entries_get(3)] positions.opt_model_enc [OF message_entries_get(4)]
        pos_json_def)
qed

lemma message_good: "parse_exec_message co j = Inr m \<Longrightarrow> message_ok m"
  by (auto simp: parse_exec_message_def message_ok_def pos_ok_def dest!: positions.opt_model_good)

lemma goal_parses: "parse_goal co (goal_json g) = Inr g"
  by (simp add: parse_goal_def goal_json_def as_object_def checked_def plain_values plain_lists
      req_field_at [OF goal_entries_get(1)] def_field_at [OF goal_entries_get(2)]
      hyps.models_default_enc [OF goal_entries_get(3)] def_field_opt [OF goal_entries_get(4)]
      def_field_at [OF goal_entries_get(5)] list_all_iff)

end

sublocale lenient < messages: codec message_json "parse_exec_message co" message_ok
  by unfold_locales (auto intro: message_parses message_good)

sublocale lenient < goals: codec goal_json "parse_goal co" "\<lambda>g. True"
  by unfold_locales (simp_all add: goal_parses)

context lenient
begin

lemma step_result_parses:
  "step_result_ok r \<Longrightarrow> parse_step_result co (step_result_json r) = Inr r"
  by (simp add: parse_step_result_def step_result_json_def as_object_def checked_def plain_values exec_status_literal step_result_ok_def
      req_field_at [OF step_result_entries_get(1)] req_field_at [OF step_result_entries_get(2)]
      def_field_opt [OF step_result_entries_get(3)] goals.models_default_enc [OF step_result_entries_get(4)]
      messages.models_default_enc [OF step_result_entries_get(5)] list_all_iff)

lemma step_result_good: "parse_step_result co j = Inr r \<Longrightarrow> step_result_ok r"
  by (auto simp: parse_step_result_def step_result_ok_def dest: messages.models_default_good)

lemma state_parses: "state_ok s \<Longrightarrow> parse_state co (state_json s) = Inr s"
  by (simp add: parse_state_def state_json_def state_ok_def as_object_def req_field_def checked_def plain_values
      nonempty_def goals.models_default_enc list_all_iff)

lemma state_good: "parse_state co j = Inr s \<Longrightarrow> state_ok s"
  by (auto simp: parse_state_def state_ok_def nonempty_def dest: req_field_good)

lemma verified_parses: "verified_ok r \<Longrightarrow> parse_verified co (verified_json r) = Inr r"
  by (simp add: parse_verified_def verified_json_def verified_ok_def as_object_def req_field_def def_field_def checked_def
      plain_values plain_lists verify_status_literal messages.models_default_enc)

lemma verified_good: "parse_verified co j = Inr r \<Longrightarrow> verified_ok r"
  by (auto simp: parse_verified_def verified_ok_def dest: messages.models_default_good)

end

sublocale lenient < step_results: codec step_result_json "parse_step_result co" step_result_ok
  by unfold_locales (auto intro: step_result_parses step_result_good)

sublocale lenient < states: codec state_json "parse_state co" state_ok
  by unfold_locales (auto intro: state_parses state_good)

sublocale lenient < verdicts: codec verified_json "parse_verified co" verified_ok
  by unfold_locales (auto intro: verified_parses verified_good)

context lenient
begin

lemma batch_result_parses: "batch_result_ok r \<Longrightarrow> parse_batch_result co (batch_result_json r) = Inr r"
  by (simp add: parse_batch_result_def batch_result_json_def batch_result_ok_def as_object_def req_field_def checked_def
      plain_values step_results.models_default_enc)

lemma batch_result_good: "parse_batch_result co j = Inr r \<Longrightarrow> batch_result_ok r"
  by (auto simp: parse_batch_result_def batch_result_ok_def dest: step_results.models_default_good)

lemma created_parses: "created_ok r \<Longrightarrow> parse_created co (created_json r) = Inr r"
  by (simp add: parse_created_def created_json_def created_ok_def as_object_def req_field_def checked_def
      plain_values exec_status_literal states.models_default_enc messages.models_default_enc)

lemma created_good: "parse_created co j = Inr r \<Longrightarrow> created_ok r"
  by (auto simp: parse_created_def created_ok_def dest: states.models_default_good messages.models_default_good)

end

sublocale lenient < batch_results: codec batch_result_json "parse_batch_result co" batch_result_ok
  by unfold_locales (auto intro: batch_result_parses batch_result_good)

sublocale lenient < created: codec created_json "parse_created co" created_ok
  by unfold_locales (auto intro: created_parses created_good)

context lenient
begin

lemmas batch_response_parses = batch_results.response_parses
lemmas created_response_parses = created.response_parses
lemmas verified_response_parses = verdicts.response_parses

end

interpretation json: lenient strict
  by unfold_locales (simp add: coerce_ok_def strict_def)

section \<open>The worker's messages\<close>

lemma messages_to_exec_ok: "messages_to_exec_messages ps = Inr ms \<Longrightarrow> list_all message_ok ms"
  unfolding messages_to_exec_messages_def by (erule econcat_all) (use payload_messages_ok in fastforce)

lemma exception_messages_ok: "exception_to_exec_messages e = Inr ms \<Longrightarrow> list_all message_ok ms"
  by (auto simp: exception_to_exec_messages_def intro: text_message_ok dest: payload_messages_ok split: list.splits
      simp del: payload_messages.simps)

lemma step_failed_message_ok: "step_failed t e = Inr r \<Longrightarrow> list_all message_ok (sr_messages r)"
  by (auto simp: step_failed_def dest: exception_messages_ok)

lemma step_one_message_ok:
  "step_one_tactic srv now g site t ws = (Inr r, ws') \<Longrightarrow> list_all message_ok (sr_messages r)"
  by (auto simp: step_one_tactic_def dest: step_failed_message_ok messages_to_exec_ok split: sum.splits prod.splits if_splits)

lemma step_tactics_message_ok:
  "step_tactics srv now g site ts ws = (Inr rs, ws') \<Longrightarrow> list_all (\<lambda>r. list_all message_ok (sr_messages r)) rs"
  by (induction srv now g site ts ws arbitrary: rs rule: step_tactics.induct)
    (auto dest: step_one_message_ok split: sum.splits prod.splits)

lemma step_state_message_ok:
  assumes "step_state srv now path ts gi ar gg ws = (Inr rs, ws')"
  shows "list_all (\<lambda>r. list_all message_ok (sr_messages r)) rs"
  using assms unfolding step_state_def
  by (auto simp: list_all_iff dest!: step_tactics_message_ok exception_messages_ok split: sum.splits prod.splits)

lemma promote_message_ok:
  "promote_results draws k now parent rs st = Some (Inr trs, st') \<Longrightarrow> list_all (\<lambda>r. list_all message_ok (sr_messages r)) rs \<Longrightarrow>
   list_all step_result_ok trs"
  by (induction draws k now parent rs st arbitrary: trs rule: promote_results.induct)
    (auto simp: step_result_ok_def split: option.splits prod.splits sum.splits)

lemma offset_message_ok:
  "message_ok m \<Longrightarrow> 0 < n \<Longrightarrow> message_ok (m\<lparr>em_pos := offset_pos (em_pos m) n, em_end := offset_pos (em_end m) n\<rparr>)"
  by (cases "em_pos m"; cases "em_end m"; simp add: message_ok_positions pos_ok_def offset_pos_def)

lemma offset_ok: "list_all message_ok ms \<Longrightarrow> list_all message_ok (offset_messages ms n)"
  by (auto simp: offset_messages_def list_all_iff intro: offset_message_ok)

lemma judge_units_ok: "judge_units us allowed = Inr r \<Longrightarrow> list_all message_ok (vr_messages r)"
proof -
  assume "judge_units us allowed = Inr r"
  then obtain ms where ms: "econcat (map messages_to_exec_messages us) = Inr ms"
    and r: "vr_messages r = ms \<or> (\<exists>t. vr_messages r = ms @ [\<lparr>em_severity = SevError, em_data = t, em_pos = None, em_end = None\<rparr>])"
    by (auto simp: judge_units_def Let_def)
  have "list_all message_ok ms" using ms by (rule econcat_all) (auto dest!: messages_to_exec_ok [OF sym])
  with r show ?thesis by (auto simp: message_ok_def)
qed

lemma verify_proof_ok: "fst (verify_proof srv code thm allowed ws) = Inr r \<Longrightarrow> list_all message_ok (vr_messages r)"
  by (auto simp: verify_proof_def dest: judge_units_ok exception_messages_ok split: sum.splits)

lemma error_message_ok [simp]: "message_ok (error_message t)"
  by (simp add: error_message_def message_ok_def)

section \<open>Properties of responses\<close>

text \<open>
  What a worker answers to a step reaches the client as it is: whenever a worker returns results
  and the states of its open goals are stored, the client reads from the response exactly these
  results, with their tokens, goals and positions; no response of a step is refused by its models.
\<close>

theorem step_results_reach_client:
  assumes "coerce_ok co" "step_state srv now path tactics goal_id auto_resume grp ws = (Inr rs, ws')"
    "promote_results draws 0 later parent rs st = Some (Inr trs, st')"
  shows "parse_response (parse_batch_result co) (response_json batch_result_json [\<lparr>br_node = node, br_results = trs\<rparr>]) =
    Inr [\<lparr>br_node = node, br_results = trs\<rparr>]"
proof -
  have co: "lenient co" using assms(1) by unfold_locales
  have "list_all step_result_ok trs"
    using assms(3) step_state_message_ok [OF assms(2)] by (rule promote_message_ok)
  then show ?thesis by (intro lenient.batch_response_parses [OF co]) (simp add: batch_result_ok_def)
qed

definition demo_parent :: store where
  "demo_parent = \<lparr>st_ttl = 60, st_max_bytes = 100, st_records = [], st_by_item = [], st_pins = [], st_files = []\<rparr>"

theorem step_results_reach_client_witness:
  "\<exists>trs. map tr_status trs = [StError, StComplete] \<and>
     parse_response (parse_batch_result strict) (response_json batch_result_json [\<lparr>br_node = lit ''n'', br_results = trs\<rparr>]) =
       Inr [\<lparr>br_node = lit ''n'', br_results = trs\<rparr>]"
proof -
  define run where "run = step_state Worker.demo_server 5 (lit ''st_a.bin'') [lit ''bad'', lit ''exact''] None None None demo_ws"
  have "map_sum id (map sr_status) (fst run) = Inr [StError, StComplete]"
    unfolding run_def by code_simp
  then obtain a b where ab: "fst run = Inr [a, b]" "sr_status a = StError" "sr_status b = StComplete"
    by (cases "fst run") auto
  then have step: "step_state Worker.demo_server 5 (lit ''st_a.bin'') [lit ''bad'', lit ''exact''] None None None demo_ws = (Inr [a, b], snd run)"
    by (metis prod.collapse run_def)
  obtain trs where trs: "promote_results (\<lambda>k n. []) 0 6 (lit ''st_a'') [a, b] demo_parent = Some (Inr trs, demo_parent)"
    "map tr_status trs = [StError, StComplete]"
    using ab by simp
  have "coerce_ok strict" by (simp add: coerce_ok_def strict_def)
  from step_results_reach_client [OF this step trs(1), of "lit ''n''"] trs(2) show ?thesis by (intro exI [of _ trs] conjI)
qed

text \<open>
  A verdict reaches the client as it is, whichever way the verification ended: refused, without a
  worker, failed, cancelled or judged by a worker.
\<close>

theorem verdicts_reach_client:
  assumes "coerce_ok co" "\<forall>res. outcome = Inr res \<longrightarrow> fst (verify_proof srv source thm allowed ws) = Inr res"
  shows "parse_response (parse_verified co) (response_json verified_json
      [fst (verify_one repr item thm code now later lease outcome env1 env2 reg)]) =
    Inr [fst (verify_one repr item thm code now later lease outcome env1 env2 reg)]"
proof -
  have co: "lenient co" using assms(1) by unfold_locales
  have res: "list_all message_ok (vr_messages res)" if "outcome = Inr res" for res
    using assms(2) that verify_proof_ok by blast
  have "verified_ok (fst (verify_one repr item thm code now later lease outcome env1 env2 reg))"
    using res by (auto simp: verify_one_def verify_begin_def verify_leased_def plain_verified_def verify_finished_def
        verified_ok_def Let_def offset_ok split: prod.split option.split lease_outcome.split sum.split begin_result.split if_splits)
  then show ?thesis by (intro lenient.verified_response_parses [OF co]) simp
qed

theorem verdicts_reach_client_witness:
  "let v = fst (verify_one (\<lambda>s. s) (lit ''i'') (lit ''t'') [] 0 1 Leased (Inr \<lparr>vr_status = VRejected, vr_axioms = [],
       vr_messages = [demo_exec ''declaration uses sorry'']\<rparr>) (\<lambda>r. r) (\<lambda>r. r) \<lparr>reg_retention = 10, reg_records = []\<rparr>)
   in vi_status v = VRejected \<and> parse_response (parse_verified strict) (response_json verified_json [v]) = Inr [v]"
proof -
  let ?res = "\<lparr>vr_status = VRejected, vr_axioms = [], vr_messages = [demo_exec ''declaration uses sorry'']\<rparr>"
  let ?v = "fst (verify_one (\<lambda>s. s) (lit ''i'') (lit ''t'') [] 0 1 Leased (Inr ?res) (\<lambda>r. r) (\<lambda>r. r) \<lparr>reg_retention = 10, reg_records = []\<rparr>)"
  let ?srv = "Worker.demo_server\<lparr>lean_compile := \<lambda>n s. Inr [[demo_message ''declaration uses sorry'']]\<rparr>"
  have "fst (verify_proof ?srv [] (lit ''t'') [] demo_ws) = Inr ?res" by code_simp
  moreover have "coerce_ok strict" by (simp add: coerce_ok_def strict_def)
  ultimately have "parse_response (parse_verified strict) (response_json verified_json [?v]) = Inr [?v]"
    by (intro verdicts_reach_client) auto
  moreover have "vi_status ?v = VRejected" by code_simp
  ultimately show ?thesis by (simp add: Let_def)
qed

end
