(* ===== verification/Clients.thy ===== *)
theory Clients
  imports CheckModels WireResults
begin

text \<open>
  The HTTP clients of the client library: \<open>base.py\<close>, \<open>async_client.py\<close>, \<open>sync_client.py\<close> and \<open>utils.py\<close>.
  Items are models already, so a request model checks their number and identifiers again and nothing
  else.  What comes back for the \<open>k\<close>-th request of a call is the value \<open>replies k\<close>; the texts of exceptions
  raised by libraries are arguments.
\<close>

section \<open>Construction\<close>

record http_client =
  hc_url :: pystr
  hc_key :: "pystr option"
  hc_headers :: "(pystr, pystr) pydict"
  hc_retries :: int

definition text_or :: "pystr option \<Rightarrow> pystr option \<Rightarrow> pystr option" where
  "text_or a b = (if truthy a then a else b)"

text \<open>
  The environment is a dictionary.  The second component is the caller's dictionary of headers
  afterwards: a dictionary that is not empty is kept, not copied, so \<open>setdefault\<close> writes into it.
\<close>

definition new_client :: "(pystr, pystr) pydict \<Rightarrow> pystr option \<Rightarrow> pystr option \<Rightarrow> (pystr, pystr) pydict \<Rightarrow> int
    \<Rightarrow> http_client \<times> (pystr, pystr) pydict" where
  "new_client environ url key headers retries =
     (let base = the (text_or url (Some (dget_or environ (lit ''LEAN_SERVER_API_URL'') (lit ''http://localhost:8000''))));
          k = text_or key (text_or (dget environ (lit ''LEAN_SERVER_API_KEY'')) (dget environ (lit ''LEANSERVER_API_KEY'')));
          auth = lit ''Authorization'';
          h = (if truthy k \<and> dget headers auth = None then dset auth (lit ''Bearer '' @ the k) headers else headers)
      in (\<lparr>hc_url = rstrip_by (\<lambda>c. c = 47) base, hc_key = k, hc_headers = h, hc_retries = retries\<rparr>,
          if headers = [] then headers else h))"

definition build_url :: "http_client \<Rightarrow> pystr \<Rightarrow> pystr" where
  "build_url c path = hc_url c @ 47 # lstrip_by (\<lambda>x. x = 47) path"

section \<open>Requests\<close>

definition is_non_idempotent_exec_url :: "pystr \<Rightarrow> bool" where
  "is_non_idempotent_exec_url url \<longleftrightarrow> ends_with (lit ''/exec/create_states'') url \<or>
     ends_with (lit ''/exec/step_batch'') url \<or> ends_with (lit ''/exec/verify'') url"

definition is_exec_request_overload :: "pystr \<Rightarrow> int \<Rightarrow> bool" where
  "is_exec_request_overload url status \<longleftrightarrow> is_non_idempotent_exec_url url \<and> status \<in> {429, 503}"

datatype 'j http_reply = HttpJson 'j | HttpNotJson | HttpStatus int | HttpBroken pystr

datatype query_error = Overloaded pystr int | StatusError int | TransportError pystr | NotJson | RetriesExhausted int

text \<open>One request of the asynchronous client, and of the synchronous one, which knows no overload.\<close>

definition run_method_once :: "pystr \<Rightarrow> 'j http_reply \<Rightarrow> query_error + 'j" where
  "run_method_once url reply =
     (case reply of
        HttpJson j \<Rightarrow> Inr j
      | HttpNotJson \<Rightarrow> Inl NotJson
      | HttpStatus status \<Rightarrow>
          if is_exec_request_overload url status then Inl (Overloaded url status) else Inl (StatusError status)
      | HttpBroken text \<Rightarrow> Inl (TransportError text))"

definition run_method :: "'j http_reply \<Rightarrow> query_error + 'j" where
  "run_method reply =
     (case reply of
        HttpJson j \<Rightarrow> Inr j
      | HttpNotJson \<Rightarrow> Inl NotJson
      | HttpStatus status \<Rightarrow> Inl (StatusError status)
      | HttpBroken text \<Rightarrow> Inl (TransportError text))"

text \<open>
  \<open>tenacity.retry\<close> with \<open>stop_after_attempt(n)\<close>: every exception is retried until attempt \<open>n\<close> has failed;
  the second component counts the requests.
\<close>

function retrying :: "int \<Rightarrow> (nat \<Rightarrow> query_error + 'j) \<Rightarrow> nat \<Rightarrow> (query_error + 'j) \<times> nat" where
  "retrying n once k =
     (case once k of
        Inr j \<Rightarrow> (Inr j, Suc k)
      | Inl e \<Rightarrow> if n \<le> int (Suc k) then (Inl (RetriesExhausted n), Suc k) else retrying n once (Suc k))"
  by pat_completeness auto

termination retrying
  by (relation "measure (\<lambda>(n, once, k). nat (n - int k))") auto

declare retrying.simps [simp del]

definition async_query :: "http_client \<Rightarrow> pystr \<Rightarrow> (nat \<Rightarrow> 'j http_reply) \<Rightarrow> (query_error + 'j) \<times> nat" where
  "async_query c url replies =
     (if is_non_idempotent_exec_url url then (run_method_once url (replies 0), 1)
      else retrying (hc_retries c) (\<lambda>k. run_method_once url (replies k)) 0)"

definition sync_query :: "http_client \<Rightarrow> (nat \<Rightarrow> 'j http_reply) \<Rightarrow> (query_error + 'j) \<times> nat" where
  "sync_query c replies = retrying (hc_retries c) (\<lambda>k. run_method (replies k)) 0"

text \<open>Before the first success every attempt failed, and there are at most \<open>max 1 n\<close> of them.\<close>

lemma retrying_attempts:
  assumes "retrying n once k = (out, m)" "int k < max 1 n"
  shows "k < m" "int m \<le> max 1 n" "\<forall>i. k \<le> i \<and> Suc i < m \<longrightarrow> (\<exists>e. once i = Inl e)"
    "case out of Inr j \<Rightarrow> once (m - 1) = Inr j
     | Inl e \<Rightarrow> e = RetriesExhausted n \<and> int m = max 1 n \<and> (\<exists>e. once (m - 1) = Inl e)"
proof -
  have "k < m \<and> int m \<le> max 1 n \<and> (\<forall>i. k \<le> i \<and> Suc i < m \<longrightarrow> (\<exists>e. once i = Inl e)) \<and>
    (case out of Inr j \<Rightarrow> once (m - 1) = Inr j
     | Inl e \<Rightarrow> e = RetriesExhausted n \<and> int m = max 1 n \<and> (\<exists>e. once (m - 1) = Inl e))"
    using assms
  proof (induction n once k rule: retrying.induct)
    case (1 n once k)
    show ?case
    proof (cases "once k")
      case (Inr j)
      with "1.prems" have "out = Inr j" "m = Suc k" by (simp_all add: retrying.simps [of n once k])
      with Inr "1.prems" show ?thesis by auto
    next
      case (Inl e)
      show ?thesis
      proof (cases "n \<le> int (Suc k)")
        case True
        with Inl "1.prems" show ?thesis by (auto simp: retrying.simps [of n once k])
      next
        case False
        with Inl "1.prems" have rest: "retrying n once (Suc k) = (out, m)" "int (Suc k) < max 1 n"
          by (auto simp: retrying.simps [of n once k])
        have "\<exists>e. once i = Inl e" if "k \<le> i" "Suc i < m" for i
          using "1.IH" [OF Inl False rest] that Inl by (cases "i = k") auto
        with "1.IH" [OF Inl False rest] show ?thesis by auto
      qed
    qed
  qed
  then show "k < m" "int m \<le> max 1 n" "\<forall>i. k \<le> i \<and> Suc i < m \<longrightarrow> (\<exists>e. once i = Inl e)"
    "case out of Inr j \<Rightarrow> once (m - 1) = Inr j
     | Inl e \<Rightarrow> e = RetriesExhausted n \<and> int m = max 1 n \<and> (\<exists>e. once (m - 1) = Inl e)" by blast+
qed

section \<open>Calls of the exec routes\<close>

datatype call_error = RequestRefused wire_error | QueryFailed query_error | ResponseRefused wire_error

text \<open>The request model first, then the query, then the response model; the second component is what was posted.\<close>

definition exec_call :: "(wire_error + 'r) \<Rightarrow> json \<Rightarrow> http_client \<Rightarrow> string \<Rightarrow> (json \<Rightarrow> wire_error + 'a) \<Rightarrow> (nat \<Rightarrow> json http_reply)
    \<Rightarrow> (call_error + 'a list) \<times> json list" where
  "exec_call model payload c path dec replies =
     (case model of
        Inl e \<Rightarrow> (Inl (RequestRefused e), [])
      | Inr m \<Rightarrow>
          (case async_query c (build_url c (lit path)) replies of
             (Inl e, n) \<Rightarrow> (Inl (QueryFailed e), replicate n payload)
           | (Inr j, n) \<Rightarrow> (map_sum ResponseRefused id (parse_response dec j), replicate n payload)))"

definition exec_step_batch :: "coerce \<Rightarrow> http_client \<Rightarrow> wire_step list \<Rightarrow> (nat \<Rightarrow> json http_reply)
    \<Rightarrow> (call_error + batch_result list) \<times> json list" where
  "exec_step_batch co c items replies =
     (let payload = step_request_json True items
      in exec_call (parse_step_request co payload) payload c ''/exec/step_batch'' (parse_batch_result co) replies)"

definition exec_create_states :: "coerce \<Rightarrow> http_client \<Rightarrow> pystr \<Rightarrow> wire_create list \<Rightarrow> (nat \<Rightarrow> json http_reply)
    \<Rightarrow> (call_error + created_item list) \<times> json list" where
  "exec_create_states co c env items replies =
     (let payload = item_request_json create_item_json env items
      in exec_call (parse_create_request co payload) payload c ''/exec/create_states'' (parse_created co) replies)"

definition exec_verify :: "coerce \<Rightarrow> http_client \<Rightarrow> pystr \<Rightarrow> wire_verify list \<Rightarrow> (nat \<Rightarrow> json http_reply)
    \<Rightarrow> (call_error + verified_item list) \<times> json list" where
  "exec_verify co c env items replies =
     (let payload = item_request_json verify_item_json env items
      in exec_call (parse_verify_request co payload) payload c ''/exec/verify'' (parse_verified co) replies)"

section \<open>Checks\<close>

text \<open>\<open>Snippet.from_snip\<close>: a plain text gets a fresh identifier, here the \<open>i\<close>-th one.\<close>

datatype snip = PlainSnip pystr | SnippetSnip snippet

definition from_snip :: "(nat \<Rightarrow> pystr) \<Rightarrow> nat \<Rightarrow> snip \<Rightarrow> snippet" where
  "from_snip uuid i s = (case s of PlainSnip code \<Rightarrow> \<lparr>sn_id = uuid i, sn_code = code\<rparr> | SnippetSnip s \<Rightarrow> s)"

definition from_snips :: "(nat \<Rightarrow> pystr) \<Rightarrow> snip list \<Rightarrow> snippet list" where
  "from_snips uuid snips = map (\<lambda>(i, s). from_snip uuid i s) (zip [0..<length snips] snips)"

text \<open>\<open>[snippets[i : i + n] for i in range(0, len(snippets), n)]\<close>; \<open>None\<close> is the \<open>ValueError\<close> of a zero step.\<close>

definition py_batches :: "int \<Rightarrow> 'a list \<Rightarrow> 'a list list option" where
  "py_batches n xs = (if n = 0 then None else if n < 0 then Some [] else Some (chunks (nat n) xs))"

text \<open>\<open>api_check\<close>; its exceptions are texts here, and \<open>ask\<close> is the query with the response model.\<close>

definition error_responses :: "pystr \<Rightarrow> snippet list \<Rightarrow> check_response list option" where
  "error_responses message batch =
     (let rs = map (\<lambda>s. \<lparr>ck_id = sn_id s, ck_time = 0, ck_error = Some message, ck_response = None, ck_repl = None\<rparr>) batch
      in if list_all response_valid rs then Some rs else None)"

definition api_check :: "(request_error \<Rightarrow> pystr) \<Rightarrow> int \<Rightarrow> bool \<Rightarrow> (snippet list \<Rightarrow> pystr + check_response list)
    \<Rightarrow> snippet list \<Rightarrow> check_response list option" where
  "api_check etext timeout safe ask batch =
     (case (case check_request batch timeout of Inl e \<Rightarrow> Inl (etext e) | Inr u \<Rightarrow> ask batch) of
        Inr rs \<Rightarrow> Some rs
      | Inl message \<Rightarrow> if safe then error_responses message batch else None)"

text \<open>
  \<open>check\<close> of both clients: batches, one \<open>api_check\<close> each, merged.  The asynchronous client merges them in
  the order of the batches, the synchronous one in the order in which they end.
\<close>

definition check_batches :: "(snippet list \<Rightarrow> check_response list option) \<Rightarrow> snippet list list \<Rightarrow> check_response list option" where
  "check_batches api batches = map_option merge_responses (those (map api batches))"

definition async_check :: "(nat \<Rightarrow> pystr) \<Rightarrow> (snippet list \<Rightarrow> check_response list option) \<Rightarrow> int \<Rightarrow> snip list \<Rightarrow> check_response list option" where
  "async_check uuid api batch_size snips =
     Option.bind (py_batches batch_size (from_snips uuid snips)) (check_batches api)"

definition sync_check :: "(nat \<Rightarrow> pystr) \<Rightarrow> (snippet list \<Rightarrow> check_response list option) \<Rightarrow> int
    \<Rightarrow> (snippet list list \<Rightarrow> snippet list list) \<Rightarrow> snip list \<Rightarrow> check_response list option" where
  "sync_check uuid api batch_size completed snips =
     Option.bind (py_batches batch_size (from_snips uuid snips)) (\<lambda>bs. check_batches api (completed bs))"

section \<open>Benchmark helpers\<close>

text \<open>
  \<open>find_id_column\<close> and \<open>find_code_column\<close>: \<open>close\<close> is \<open>get_close_matches(name, columns, n=1, cutoff=0.6)\<close>, the
  answers of \<open>input\<close> are arguments (digits are ASCII digits).  \<open>None\<close> is an exception.
\<close>

fun first_close :: "(pystr \<Rightarrow> pystr list \<Rightarrow> pystr option) \<Rightarrow> pystr list \<Rightarrow> pystr list \<Rightarrow> pystr option" where
  "first_close close columns [] = None"
| "first_close close columns (n # ns) =
     (case close n columns of Some c \<Rightarrow> Some c | None \<Rightarrow> first_close close columns ns)"

text \<open>\<open>columns[i]\<close>, where a negative index counts from the end\<close>

definition column_at :: "pystr list \<Rightarrow> int \<Rightarrow> pystr option" where
  "column_at columns i =
     (let n = int (length columns)
      in if 0 \<le> i \<and> i < n then Some (columns ! nat i) else if - n \<le> i \<and> i < 0 then Some (columns ! nat (n + i)) else None)"

definition choose_column :: "pystr option \<Rightarrow> pystr list \<Rightarrow> pystr \<Rightarrow> pystr option" where
  "choose_column selected columns typed =
     (let chosen = strip typed
      in if chosen = [] \<and> truthy selected then selected
         else if chosen \<noteq> [] \<and> list_all is_digit chosen \<and> digits_val chosen < int (length columns)
         then Some (columns ! nat (digits_val chosen))
         else if chosen \<notin> set columns then None else Some chosen)"

datatype id_column = OneColumn pystr | TwoColumns pystr pystr

definition find_id_column :: "(pystr \<Rightarrow> pystr list \<Rightarrow> pystr option) \<Rightarrow> pystr list \<Rightarrow> pystr \<Rightarrow> pystr \<Rightarrow> id_column option" where
  "find_id_column close columns typed indices =
     (if lit ''id'' \<in> set columns then Some (OneColumn (lit ''id''))
      else if lower (strip typed) = lit ''concat''
      then (case map py_int (split_ws indices) of
              [Some i, Some j] \<Rightarrow>
                Option.bind (column_at columns i) (\<lambda>a. map_option (TwoColumns a) (column_at columns j))
            | _ \<Rightarrow> None)
      else map_option OneColumn
        (choose_column (first_close close columns (map lit [''id'', ''uuid'', ''proof_id'', ''problem_id''])) columns typed))"

definition find_code_column :: "(pystr \<Rightarrow> pystr list \<Rightarrow> pystr option) \<Rightarrow> pystr list \<Rightarrow> pystr \<Rightarrow> pystr option" where
  "find_code_column close columns typed =
     (if lit ''code'' \<in> set columns then Some (lit ''code'')
      else choose_column (first_close close columns (map lit [''code'', ''code'', ''proof'', ''full_proof''])) columns typed)"

text \<open>\<open>build_log\<close>: the batch sizes it announces, as \<open>count x [size]\<close>; fonts are left out.\<close>

definition announced_batches :: "int \<Rightarrow> int \<Rightarrow> (int \<times> int) list" where
  "announced_batches n batch_size =
     (let full = n div batch_size
      in if full = 0 then [(1, n)]
         else (full, batch_size) # (if 0 < n mod batch_size then [(1, n mod batch_size)] else []))"

definition benchmark_batch_size :: "int \<Rightarrow> int \<Rightarrow> int option" where
  "benchmark_batch_size n batch_size = (if n \<le> 0 then None else if batch_size \<le> 0 then Some 8 else Some batch_size)"

section \<open>Properties of requests\<close>

lemma run_method_once_Inr: "run_method_once url r = Inr j \<longleftrightarrow> r = HttpJson j"
  by (cases r) (auto simp: run_method_once_def)

lemma run_method_once_Inl: "(\<exists>e. run_method_once url r = Inl e) \<longleftrightarrow> (\<forall>j. r \<noteq> HttpJson j)"
  by (cases r) (auto simp: run_method_once_def)

lemma run_method_once_error:
  "run_method_once url r = Inl e \<Longrightarrow> (case e of
     Overloaded u s \<Rightarrow> u = url \<and> is_exec_request_overload url s \<and> r = HttpStatus s
   | RetriesExhausted n \<Rightarrow> False | _ \<Rightarrow> \<forall>j. r \<noteq> HttpJson j)"
  by (cases r) (auto simp: run_method_once_def split: if_splits)

text \<open>
  How often the asynchronous client sends a request: the calls that change proof states or start
  work on the server are posted exactly once, whatever comes back, and only their statuses 429 and
  503 are reported as an overload; every other call is repeated until it succeeds or has failed
  \<open>n_retries\<close> times (once, when that is not positive), and returns the first success.
\<close>

theorem query_sends_bounded:
  assumes "async_query c url replies = (out, m)"
  shows "1 \<le> m \<and> int m \<le> max 1 (hc_retries c) \<and> (is_non_idempotent_exec_url url \<longrightarrow> m = 1) \<and>
    (case out of
       Inr j \<Rightarrow> replies (m - 1) = HttpJson j \<and> (\<forall>i j'. Suc i < m \<longrightarrow> replies i \<noteq> HttpJson j')
     | Inl e \<Rightarrow> (\<forall>i<m. \<forall>j. replies i \<noteq> HttpJson j) \<and>
         (e = RetriesExhausted (hc_retries c) \<longleftrightarrow> \<not> is_non_idempotent_exec_url url) \<and>
         (\<forall>u s. e = Overloaded u s \<longleftrightarrow> is_non_idempotent_exec_url url \<and> u = url \<and> s \<in> {429, 503} \<and> replies 0 = HttpStatus s))"
proof (cases "is_non_idempotent_exec_url url")
  case True
  then have out: "out = run_method_once url (replies 0)" "m = 1" using assms by (auto simp: async_query_def)
  show ?thesis
  proof (cases "replies 0")
    case (HttpStatus s)
    with True out show ?thesis by (auto simp: run_method_once_def is_exec_request_overload_def)
  qed (use True out in \<open>auto simp: run_method_once_def\<close>)
next
  case False
  then have run: "retrying (hc_retries c) (\<lambda>k. run_method_once url (replies k)) 0 = (out, m)"
    using assms by (simp add: async_query_def)
  have pos: "int 0 < max 1 (hc_retries c)" by simp
  note facts = retrying_attempts [OF run pos]
  have failed: "\<forall>i j. Suc i < m \<longrightarrow> replies i \<noteq> HttpJson j"
    using facts(3) by (simp add: run_method_once_Inl)
  show ?thesis
  proof (cases out)
    case (Inr j)
    with False facts(1,2,4) failed show ?thesis by (auto simp: run_method_once_Inr)
  next
    case (Inl e)
    then have e: "e = RetriesExhausted (hc_retries c)" and last: "\<forall>j. replies (m - 1) \<noteq> HttpJson j"
      using facts(4) run_method_once_Inl [of url "replies (m - 1)"] by auto
    have "\<forall>i<m. \<forall>j. replies i \<noteq> HttpJson j"
    proof (intro allI impI)
      fix i j assume "i < m"
      then show "replies i \<noteq> HttpJson j"
        using failed last by (cases "Suc i = m") auto
    qed
    with Inl e False facts(1,2) show ?thesis by auto
  qed
qed

definition demo_client :: http_client where
  "demo_client = \<lparr>hc_url = lit ''http://lean:8000'', hc_key = None, hc_headers = [], hc_retries = 3\<rparr>"

theorem query_sends_bounded_witness:
  "async_query demo_client (build_url demo_client (lit ''/exec/stats'')) (\<lambda>k. if k < 2 then HttpStatus 500 else HttpJson JNull) =
     (Inr JNull, 3) \<and>
   (\<forall>j. (\<lambda>k. if k < 2 then HttpStatus 500 else HttpJson JNull) (0::nat) \<noteq> (HttpJson j :: json http_reply))"
proof -
  let ?r = "\<lambda>k. if k < (2::nat) then HttpStatus 500 else HttpJson JNull :: json http_reply"
  have run: "async_query demo_client (build_url demo_client (lit ''/exec/stats'')) ?r = (Inr JNull, 3)"
    by code_simp
  have "\<forall>i j'. Suc i < 3 \<longrightarrow> ?r i \<noteq> HttpJson j'"
    using query_sends_bounded [OF run] by simp
  then have "\<forall>j. ?r 0 \<noteq> HttpJson j" by (metis Suc_1 lessI less_trans One_nat_def zero_less_one numeral_3_eq_3)
  with run show ?thesis by blast
qed

lemma exec_url: "is_non_idempotent_exec_url (build_url c (lit ''/exec/step_batch''))"
proof -
  have "build_url c (lit ''/exec/step_batch'') = hc_url c @ lit ''/exec/step_batch''"
    by (simp add: build_url_def lit_def lstrip_by_def)
  then show ?thesis by (auto simp: is_non_idempotent_exec_url_def ends_with_iff)
qed

text \<open>
  A batch of steps over HTTP: the client posts its items once, the server's models read from that
  payload exactly these items, and when the server answers with results the client returns exactly
  these results; items that do not make a request (none, or two of one node) are refused before
  anything is sent.
\<close>

theorem step_call_returns_results:
  assumes "coerce_ok co" "list_all batch_result_ok rs" "replies 0 = HttpJson (response_json batch_result_json rs)"
  shows "(step_request_ok items \<longrightarrow> exec_step_batch co c items replies = (Inr rs, [step_request_json True items]) \<and>
      parse_step_request co (step_request_json True items) = Inr items) \<and>
    (items = [] \<or> \<not> distinct (map bi_node items) \<and> list_all step_item_ok items \<longrightarrow>
       (\<exists>e. exec_step_batch co c items replies = (Inl (RequestRefused e), [])))"
proof -
  have co: "lenient co" using assms(1) by unfold_locales
  have parsed: "step_request_ok items \<Longrightarrow> parse_step_request co (step_request_json True items) = Inr items"
    by (rule lenient.step_request_parses [OF co])
  have resp: "parse_response (parse_batch_result co) (response_json batch_result_json rs) = Inr rs"
    by (rule lenient.batch_response_parses [OF co assms(2)])
  have ok: "exec_step_batch co c items replies = (Inr rs, [step_request_json True items])" if "step_request_ok items"
    using that by (simp add: exec_step_batch_def exec_call_def Let_def parsed async_query_def exec_url
        run_method_once_def assms(3) resp)
  moreover have "\<exists>e. exec_step_batch co c items replies = (Inl (RequestRefused e), [])"
    if bad: "items = [] \<or> \<not> distinct (map bi_node items) \<and> list_all step_item_ok items"
  proof -
    have "parse_step_request co (step_request_json True items) \<noteq> Inr xs" for xs
    proof
      assume p: "parse_step_request co (step_request_json True items) = Inr xs"
      have "emap (parse_step_item co) (map (step_item_json True) items) = Inr items"
        using bad lenient.step_items_parse [OF co] by auto
      with p have "xs = items"
        by (auto simp: parse_step_request_def step_request_json_def as_object_def models_field_def split: if_splits)
      with step_request_sound [OF p] bad show False by (auto simp: step_request_ok_def)
    qed
    then obtain e where "parse_step_request co (step_request_json True items) = Inl e"
      by (cases "parse_step_request co (step_request_json True items)") auto
    then show ?thesis by (simp add: exec_step_batch_def exec_call_def Let_def)
  qed
  ultimately show ?thesis using parsed by auto
qed

theorem step_call_returns_results_witness:
  "exec_step_batch strict demo_client [demo_wire_step] (\<lambda>k. HttpJson (response_json batch_result_json
       [\<lparr>br_node = lit ''n'', br_results = []\<rparr>])) =
     (Inr [\<lparr>br_node = lit ''n'', br_results = []\<rparr>], [step_request_json True [demo_wire_step]])"
proof -
  have co: "coerce_ok strict" by (simp add: coerce_ok_def strict_def)
  have items: "step_request_ok [demo_wire_step]"
    by (simp add: step_request_ok_def step_item_ok_def demo_wire_step_def step_timeouts_def timeouts_ok_def focus_ok_def)
  have results: "list_all batch_result_ok [\<lparr>br_node = lit ''n'', br_results = []\<rparr>]" by (simp add: batch_result_ok_def)
  show ?thesis
    by (rule step_call_returns_results [OF co results refl, THEN conjunct1, rule_format, OF items, THEN conjunct1])
qed

section \<open>Properties of checks\<close>

lemma error_responses_ids: "message \<noteq> [] \<Longrightarrow> \<exists>rs. error_responses message batch = Some rs \<and> map ck_id rs = map sn_id batch"
  by (simp add: error_responses_def response_valid_def list_all_iff comp_def)

lemma those_map_Some: "(\<And>x. x \<in> set xs \<Longrightarrow> f x = Some (g x)) \<Longrightarrow> those (map f xs) = Some (map g xs)"
  by (induction xs) simp_all

lemma mset_concat_map_cong:
  assumes "mset xs = mset ys"
  shows "mset (concat (map f xs)) = mset (concat (map f ys))"
proof -
  have "mset (concat (map f zs)) = (\<Sum>x\<in>#mset zs. mset (f x))" for zs
    by (induction zs) simp_all
  then show ?thesis by (simp add: assms)
qed

text \<open>What a caller relies on of a server: answers with the batch's identifiers, or an error that says something.\<close>

definition server_answers :: "int \<Rightarrow> (snippet list \<Rightarrow> pystr + check_response list) \<Rightarrow> bool" where
  "server_answers timeout ask \<longleftrightarrow> (\<forall>b. check_request b timeout = Inr () \<longrightarrow>
     (case ask b of Inr rs \<Rightarrow> map ck_id rs = map sn_id b | Inl message \<Rightarrow> message \<noteq> []))"

lemma api_check_ids:
  assumes "server_answers timeout ask" "\<forall>e. etext e \<noteq> []"
  shows "\<exists>rs. api_check etext timeout True ask b = Some rs \<and> map ck_id rs = map sn_id b"
proof (cases "check_request b timeout")
  case (Inl e)
  then show ?thesis using error_responses_ids [of "etext e" b] assms(2) by (simp add: api_check_def)
next
  case (Inr u)
  then show ?thesis
    using assms(1) error_responses_ids [of _ b] by (auto simp: api_check_def server_answers_def split: sum.splits)
qed

lemma check_batches_merged:
  assumes "\<And>b. api b = Some (g b)"
  shows "check_batches api bs = Some (concat (map g bs))"
  by (simp add: check_batches_def those_map_Some [of bs api g] assms merge_responses_def)

text \<open>
  A check answers every snippet: with a positive batch size, whatever requests fail or are refused
  (a batch may hold two snippets with one identifier), the asynchronous client returns one response per
  snippet in the order of the snippets; the synchronous client returns the same responses, in an order
  that depends on which batch ends first.
\<close>

theorem check_answers_every_snippet:
  assumes "0 < batch_size" "server_answers timeout ask" "\<forall>e. etext e \<noteq> []" "\<forall>bs. mset (completed bs) = mset bs"
  shows "\<exists>rs rs'. async_check uuid (api_check etext timeout True ask) batch_size snips = Some rs \<and>
    map ck_id rs = map sn_id (from_snips uuid snips) \<and>
    sync_check uuid (api_check etext timeout True ask) batch_size completed snips = Some rs' \<and> mset rs' = mset rs"
proof -
  let ?api = "api_check etext timeout True ask" and ?bs = "chunks (nat batch_size) (from_snips uuid snips)"
  obtain g where g: "\<And>b. ?api b = Some (g b)" "\<And>b. map ck_id (g b) = map sn_id b"
    using api_check_ids [OF assms(2,3)] by metis
  have bs: "py_batches batch_size (from_snips uuid snips) = Some ?bs"
    using assms(1) by (simp add: py_batches_def)
  have "map ck_id (concat (map g ?bs)) = map sn_id (concat ?bs)"
    by (simp add: map_concat comp_def g(2))
  then have "map ck_id (concat (map g ?bs)) = map sn_id (from_snips uuid snips)"
    using assms(1) by (simp add: concat_chunks)
  moreover have "mset (concat (map g (completed ?bs))) = mset (concat (map g ?bs))"
    using assms(4) by (intro mset_concat_map_cong) simp
  ultimately show ?thesis
    by (simp add: async_check_def sync_check_def bs check_batches_merged [OF g(1)])
qed

theorem check_answers_every_snippet_witness:
  "\<exists>rs. async_check (\<lambda>i. [int i]) (api_check (\<lambda>e. lit ''refused'') 60 True (\<lambda>b. Inl (lit ''HTTP 500''))) 2
      [PlainSnip [], SnippetSnip \<lparr>sn_id = [7], sn_code = []\<rparr>, PlainSnip []] = Some rs \<and> map ck_id rs = [[0], [7], [2]]"
proof -
  have "server_answers 60 (\<lambda>b. Inl (lit ''HTTP 500''))" by (simp add: server_answers_def)
  then obtain rs where rs: "async_check (\<lambda>i. [int i]) (api_check (\<lambda>e. lit ''refused'') 60 True (\<lambda>b. Inl (lit ''HTTP 500''))) 2
      [PlainSnip [], SnippetSnip \<lparr>sn_id = [7], sn_code = []\<rparr>, PlainSnip []] = Some rs"
    and ids: "map ck_id rs = map sn_id (from_snips (\<lambda>i. [int i]) [PlainSnip [], SnippetSnip \<lparr>sn_id = [7], sn_code = []\<rparr>, PlainSnip []])"
    using check_answers_every_snippet [of 2 60 "\<lambda>b. Inl (lit ''HTTP 500'')" "\<lambda>e. lit ''refused''" "\<lambda>bs. bs"
        "\<lambda>i. [int i]" "[PlainSnip [], SnippetSnip \<lparr>sn_id = [7], sn_code = []\<rparr>, PlainSnip []]"] by auto
  moreover have "map sn_id (from_snips (\<lambda>i. [int i]) [PlainSnip [], SnippetSnip \<lparr>sn_id = [7], sn_code = []\<rparr>, PlainSnip []]) = [[0], [7], [2]]"
    by code_simp
  ultimately show ?thesis by auto
qed

text \<open>A negative batch size answers nothing, without an error.\<close>

lemma negative_batch_size: "async_check uuid api (- 1) snips = Some []"
  by (simp add: async_check_def py_batches_def check_batches_def merge_responses_def)

section \<open>Properties of the construction\<close>

lemma key_header:
  assumes "truthy (Some k)" "dget headers (lit ''Authorization'') = None"
  shows "dget (hc_headers (fst (new_client environ url (Some k) headers n))) (lit ''Authorization'') = Some (lit ''Bearer '' @ k)"
  using assms by (simp add: new_client_def text_or_def Let_def)

text \<open>
  A client built with the server's key, and no such header of its own, is let in, unless the key has
  white space around it.
\<close>

lemma client_key_accepted:
  assumes "k \<noteq> []" "dget headers (lit ''Authorization'') = None"
  shows "require_key (Some k) (dget (hc_headers (fst (new_client environ url (Some k) headers n))) (lit ''Authorization'')) = Inr (Some k)
    \<longleftrightarrow> strip k = k"
  using key_header [of k headers environ url n] assms
  by (auto simp: require_key_def truthy_def Let_def)

text \<open>Two clients built with one dictionary of headers: the second sends the first one's key.\<close>

lemma shared_headers_keep_first_key:
  assumes "headers \<noteq> []" "dget headers (lit ''Authorization'') = None" "k1 \<noteq> []"
  shows "let (c1, headers') = new_client environ url (Some k1) headers n;
             (c2, headers'') = new_client environ url (Some k2) headers' n
         in dget (hc_headers c2) (lit ''Authorization'') = Some (lit ''Bearer '' @ k1)"
  using assms by (simp add: new_client_def text_or_def truthy_def Let_def)

text \<open>The announced batches hold all snippets.\<close>

lemma announced_batches_total:
  assumes "0 < b" "0 < n"
  shows "sum_list (map (\<lambda>(count, size). count * size) (announced_batches n b)) = n"
  using assms by (auto simp: announced_batches_def Let_def) (metis add.right_neutral div_mult_mod_eq
        leD le_less pos_mod_sign)

end
