(* ===== verification/ReplProcess.thy ===== *)
theory ReplProcess
  imports Complex_Main CheckPool JsonText
begin

text \<open>
  \<open>Repl\<close> of \<open>server/repl.py\<close> down to its pipes: how a command is framed and an answer read, what each
  fault of the process becomes, the resource monitors, start and close.  The process itself is the
  environment: the bytes it writes, whether its output ends, and what interrupts a read that waits are
  values of one \<open>exchange\<close>.  \<open>send_timeout\<close> of \<open>CheckPool\<close> is the abstraction these operations refine.
\<close>

section \<open>Commands\<close>

definition command_fields :: "repl_command \<Rightarrow> (pystr, json) pydict" where
  "command_fields c =
     [(lit ''cmd'', JText (rc_cmd c))]
     @ (case rc_env c of None \<Rightarrow> [] | Some e \<Rightarrow> [(lit ''env'', JInt e)])
     @ (if rc_gc c then [(lit ''gc'', JBool True)] else [])
     @ (case rc_infotree c of None \<Rightarrow> [] | Some t \<Rightarrow> [(lit ''infotree'', JText t)])"

text \<open>The bytes written for a command; \<open>None\<close> is \<open>UnicodeEncodeError\<close>.\<close>

definition command_payload :: "repl_command \<Rightarrow> int list option" where
  "command_payload c = utf8_encode (dumps False (JObject (command_fields c)) @ [10, 10])"

section \<open>Reading an answer\<close>

definition byte_space :: "int \<Rightarrow> bool" where
  "byte_space b \<longleftrightarrow> (9 \<le> b \<and> b \<le> 13) \<or> b = 32"

text \<open>
  \<open>StreamReader.readline\<close>: a line with its line feed, what is left at the end of the output, or
  \<open>ValueError\<close> for a line longer than the limit of the stream, which \<open>create_subprocess_exec\<close> sets to
  64 KiB by default.
\<close>

datatype chunk = Chunk "int list" "int list" | ChunkTooLong "int list" | ChunkWaits

definition stream_limit :: int where
  "stream_limit = 65536"

definition readline :: "bool \<Rightarrow> int list \<Rightarrow> chunk" where
  "readline eof b =
     (let l = takeWhile (\<lambda>x. x \<noteq> 10) b; r = drop (Suc (length l)) b
      in if stream_limit < int (length l) then ChunkTooLong r
         else if 10 \<in> set b then Chunk (l @ [10]) r
         else if eof then Chunk b []
         else ChunkWaits)"

datatype read_result = ReadDone "int list" "int list" | ReadFailed "int list" | ReadWaits "int list"

lemma readline_shorter: "readline eof b = Chunk c r \<Longrightarrow> c \<noteq> [] \<Longrightarrow> length r < length b"
  by (auto simp: readline_def Let_def split: if_splits) (cases b; simp)+

text \<open>\<open>_read_response\<close>: the lines up to a blank one or the end of the output.\<close>

function read_response :: "bool \<Rightarrow> int list \<Rightarrow> int list \<Rightarrow> read_result" where
  "read_response eof acc b =
     (case readline eof b of
        ChunkTooLong r \<Rightarrow> ReadFailed r
      | ChunkWaits \<Rightarrow> ReadWaits b
      | Chunk c r \<Rightarrow> if list_all byte_space c then ReadDone acc r else read_response eof (acc @ c) r)"
  by auto
termination
  by (relation "measure (\<lambda>(eof, acc, b). length b)") (auto dest!: readline_shorter)

declare read_response.simps [simp del]

section \<open>One process\<close>

text \<open>
  The monitors are two tasks that sleep and sample; an exception of \<open>psutil\<close> in a sample ends its task.
  CPU times are rationals here (the code rounds them as floats do), memory is in bytes.
\<close>

record monitors =
  mo_cpu_on :: bool
  mo_mem_on :: bool
  mo_last_cpu :: rat
  mo_last_time :: rat
  mo_cpu_max :: rat
  mo_mem_max :: int

datatype tick = CpuTick rat "rat option" | MemTick "int option"

fun run_tick :: "tick \<Rightarrow> monitors \<Rightarrow> monitors" where
  "run_tick (CpuTick now sample) mo =
     (if \<not> mo_cpu_on mo then mo
      else case sample of
             None \<Rightarrow> mo\<lparr>mo_cpu_on := False\<rparr>
           | Some cur \<Rightarrow>
               if now = mo_last_time mo then mo\<lparr>mo_cpu_on := False\<rparr>
               else mo\<lparr>mo_cpu_max := max (mo_cpu_max mo) ((cur - mo_last_cpu mo) / (now - mo_last_time mo) * 100),
                       mo_last_cpu := cur, mo_last_time := now\<rparr>)"
| "run_tick (MemTick sample) mo =
     (if \<not> mo_mem_on mo then mo
      else case sample of
             None \<Rightarrow> mo\<lparr>mo_mem_on := False\<rparr>
           | Some rss \<Rightarrow> mo\<lparr>mo_mem_max := max (mo_mem_max mo) rss\<rparr>)"

definition run_ticks :: "tick list \<Rightarrow> monitors \<Rightarrow> monitors" where
  "run_ticks ts mo = foldl (\<lambda>mo t. run_tick t mo) mo ts"

record repl_process =
  pr_repl :: repl
  pr_started :: bool
  pr_exit :: "int option"
  pr_unread :: "int list"
  pr_written :: "int list"
  pr_errors :: pystr
  pr_mon :: monitors
  pr_cpu_log :: "(int, rat) pydict"
  pr_mem_log :: "(int, int) pydict"

definition is_running :: "repl_process \<Rightarrow> bool" where
  "is_running p \<longleftrightarrow> pr_started p \<and> pr_exit p = None"

text \<open>The process as the pool sees it.\<close>

definition seen :: "repl_process \<Rightarrow> repl" where
  "seen p = (pr_repl p)\<lparr>rp_running := is_running p\<rparr>"

definition monitors_off :: monitors where
  "monitors_off = \<lparr>mo_cpu_on = False, mo_mem_on = False, mo_last_cpu = 0, mo_last_time = 0, mo_cpu_max = 0, mo_mem_max = 0\<rparr>"

definition new_process :: "nat \<Rightarrow> pystr \<Rightarrow> int \<Rightarrow> int \<Rightarrow> repl_process" where
  "new_process i header max_uses now = \<lparr>pr_repl = new_repl i header max_uses now, pr_started = False, pr_exit = None,
     pr_unread = [], pr_written = [], pr_errors = [], pr_mon = monitors_off, pr_cpu_log = [], pr_mem_log = []\<rparr>"

text \<open>
  \<open>start\<close>: new pipes and a new process, then the first sample; the count of uses and the temporary
  error file stay.  Standard error is a pipe of its own that nothing reads.
\<close>

datatype start_outcome = SpawnFailed pystr | ProbeFailed pystr | Spawned rat rat

definition repl_start :: "start_outcome \<Rightarrow> repl_process \<Rightarrow> (pystr + unit) \<times> repl_process" where
  "repl_start out p =
     (let p1 = p\<lparr>pr_started := True, pr_exit := None, pr_unread := [], pr_written := []\<rparr>
      in case out of
           SpawnFailed what \<Rightarrow> (Inl what, p)
         | ProbeFailed what \<Rightarrow> (Inl what, p1)
         | Spawned now cpu \<Rightarrow> (Inr (), p1\<lparr>pr_mon := \<lparr>mo_cpu_on = True, mo_mem_on = True, mo_last_cpu = cpu,
               mo_last_time = now, mo_cpu_max = 0, mo_mem_max = 0\<rparr>\<rparr>))"

section \<open>Sending a command\<close>

datatype write_result = Written | WriteBroken | WriteFailed | WriteWaits

datatype interruption = TimesOut | IsCancelled

text \<open>
  What happens during one command: the write, the output that arrives until it is read or the wait is
  interrupted, whether it ends, the ticks of the monitors, the time taken, the exit of the process, and
  what is wrong with a text or an answer: the encoding or decoding error, or what pydantic makes of it.
\<close>

record exchange =
  ex_write :: write_result
  ex_output :: "int list"
  ex_eof :: bool
  ex_interrupt :: interruption
  ex_ticks :: "tick list"
  ex_time :: int
  ex_exit :: "int option"
  ex_encode_text :: pystr
  ex_decode_text :: pystr
  ex_payload :: "json \<Rightarrow> pystr + repl_payload"

fun interrupted :: "interruption \<Rightarrow> repl_exn" where
  "interrupted TimesOut = TimeoutExn"
| "interrupted IsCancelled = CancelledExn"

text \<open>The answer once its bytes are there: decoding, the error file, then the use is counted.\<close>

definition take_answer :: "exchange \<Rightarrow> int list \<Rightarrow> repl_process \<Rightarrow> (repl_exn + json) \<times> repl_process" where
  "take_answer x raw p =
     (case utf8_decode raw of
        None \<Rightarrow> (Inl (ReplExn (ex_decode_text x)), p)
      | Some answer \<Rightarrow>
          (case loads answer of
             None \<Rightarrow> (Inl (ReplExn (lit ''JSON decode error'')), p)
           | Some j \<Rightarrow>
               (let err = strip (pr_errors p); p1 = p\<lparr>pr_errors := []\<rparr>; k = rp_uses (pr_repl p)
                in if err \<noteq> [] then (Inl (ReplExn err), p1)
                   else (Inr j, p1\<lparr>pr_cpu_log := dset k (mo_cpu_max (pr_mon p)) (pr_cpu_log p),
                                   pr_mem_log := dset k (mo_mem_max (pr_mon p)) (pr_mem_log p),
                                   pr_repl := (pr_repl p)\<lparr>rp_uses := k + 1\<rparr>\<rparr>))))"

definition repl_send :: "bool \<Rightarrow> pystr option \<Rightarrow> pystr \<Rightarrow> exchange \<Rightarrow> repl_process \<Rightarrow> (repl_exn + json) \<times> repl_process" where
  "repl_send is_header infotree code x p =
     (let p1 = p\<lparr>pr_mon := (pr_mon p)\<lparr>mo_cpu_max := 0, mo_mem_max := 0\<rparr>\<rparr>
      in if \<not> is_running p then (Inl (ReplExn (lit ''REPL process not started or shut down'')), p1)
         else case command_payload (command_of (pr_repl p) is_header infotree code) of
           None \<Rightarrow> (Inl (ReplExn (ex_encode_text x)), p1)
         | Some bytes \<Rightarrow>
             (let p2 = p1\<lparr>pr_written := pr_written p @ bytes, pr_exit := ex_exit x,
                          pr_mon := run_ticks (ex_ticks x) (pr_mon p1)\<rparr>
              in case ex_write x of
                   WriteBroken \<Rightarrow> (Inl (ReplExn (lit ''Lean process broken pipe'')), p2)
                 | WriteFailed \<Rightarrow> (Inl (ReplExn (lit ''Failed to write to REPL stdin'')), p2)
                 | WriteWaits \<Rightarrow> (Inl (interrupted (ex_interrupt x)), p2)
                 | Written \<Rightarrow>
                     (case read_response (ex_eof x) [] (pr_unread p @ ex_output x) of
                        ReadFailed r \<Rightarrow> (Inl (ReplExn (lit ''Failed to read from REPL stdout'')), p2\<lparr>pr_unread := r\<rparr>)
                      | ReadWaits r \<Rightarrow> (Inl (interrupted (ex_interrupt x)), p2\<lparr>pr_unread := r\<rparr>)
                      | ReadDone raw r \<Rightarrow> take_answer x raw (p2\<lparr>pr_unread := r\<rparr>))))"

text \<open>
  \<open>send_timeout\<close> with the diagnostics as the largest samples; \<open>ReplResponse\<close> validates the payload.
\<close>

definition repl_send_timeout :: "pystr \<Rightarrow> bool \<Rightarrow> pystr option \<Rightarrow> pystr \<Rightarrow> exchange \<Rightarrow> repl_process
    \<Rightarrow> (repl_exn + check_response \<times> rat \<times> int) \<times> repl_process" where
  "repl_send_timeout snippet is_header infotree code x p =
     (case repl_send is_header infotree code x p of
        (Inl e, p1) \<Rightarrow> (Inl e, p1)
      | (Inr j, p1) \<Rightarrow>
          (case ex_payload x j of
             Inl what \<Rightarrow> (Inl (ReplExn what), p1)
           | Inr payload \<Rightarrow>
               (Inr (\<lparr>ck_id = snippet, ck_time = ex_time x, ck_error = None, ck_response = Some payload,
                      ck_repl = Some (rp_id (pr_repl p1))\<rparr>,
                     mo_cpu_max (pr_mon p1), mo_mem_max (pr_mon p1)), p1)))"

text \<open>\<open>close\<close>: a process group whose leader is already reaped makes \<open>os.getpgid\<close> raise.\<close>

definition repl_close :: "int \<Rightarrow> repl_process \<Rightarrow> bool \<times> repl_process" where
  "repl_close now p =
     (if \<not> pr_started p then (True, p)
      else let p1 = p\<lparr>pr_repl := (pr_repl p)\<lparr>rp_last := now\<rparr>\<rparr>
           in if pr_exit p \<noteq> None then (False, p1)
              else (True, p1\<lparr>pr_exit := Some (- 9), pr_mon := (pr_mon p)\<lparr>mo_cpu_on := False, mo_mem_on := False\<rparr>\<rparr>))"

text \<open>\<open>prep\<close> of \<open>server/manager.py\<close> on the process.\<close>

definition repl_prep :: "pystr \<Rightarrow> bool \<Rightarrow> start_outcome \<Rightarrow> exchange \<Rightarrow> repl_process \<Rightarrow> prep_result \<times> repl_process" where
  "repl_prep snippet debug out x p =
     (if is_running p then (Prepared None, p)
      else case repl_start out p of
             (Inl what, p1) \<Rightarrow> (PrepFailed (lit ''Failed to start REPL''), p1)
           | (Inr u, p1) \<Rightarrow>
               if is_blank (rp_header (pr_repl p1)) then (Prepared (rp_header_response (pr_repl p1)), p1)
               else (case repl_send_timeout (snippet @ lit ''-header'') True None (rp_header (pr_repl p1)) x p1 of
                       (Inl TimeoutExn, p2) \<Rightarrow> (PrepTimeout, p2)
                     | (Inl CancelledExn, p2) \<Rightarrow> (PrepCancelled, p2)
                     | (Inl (ReplExn what), p2) \<Rightarrow> (PrepFailed (lit ''Failed to run header on REPL''), p2)
                     | (Inr (resp0, peaks), p2) \<Rightarrow>
                         (let resp = (if debug then resp0 else resp0\<lparr>ck_repl := None\<rparr>)
                          in (Prepared (Some resp), p2\<lparr>pr_repl := (pr_repl p2)\<lparr>rp_header_response := Some resp\<rparr>\<rparr>))))"

section \<open>Refinement of the pool's view\<close>

text \<open>What a command comes to for the pool.\<close>

definition reply_of :: "bool \<Rightarrow> pystr option \<Rightarrow> pystr \<Rightarrow> exchange \<Rightarrow> repl_process \<Rightarrow> repl_reply" where
  "reply_of is_header infotree code x p =
     (case fst (repl_send is_header infotree code x p) of
        Inr j \<Rightarrow> (case ex_payload x j of Inr payload \<Rightarrow> Replied payload (ex_time x) | Inl what \<Rightarrow> ReplBroken what)
      | Inl TimeoutExn \<Rightarrow> ReplTimeout
      | Inl CancelledExn \<Rightarrow> ReplCancelled
      | Inl (ReplExn what) \<Rightarrow> ReplBroken what)"

definition start_fault :: "start_outcome \<Rightarrow> pystr option" where
  "start_fault out = (case out of SpawnFailed what \<Rightarrow> Some what | ProbeFailed what \<Rightarrow> Some what | Spawned t c \<Rightarrow> None)"

lemma take_answer_facts:
  "take_answer x raw p = (res, p') \<Longrightarrow> (case res of
      Inl e \<Rightarrow> pr_repl p' = pr_repl p
    | Inr j \<Rightarrow> pr_repl p' = (pr_repl p)\<lparr>rp_uses := rp_uses (pr_repl p) + 1\<rparr>)
    \<and> pr_started p' = pr_started p \<and> (pr_errors p = [] \<longrightarrow> pr_errors p' = [])"
  by (auto simp: take_answer_def Let_def split: option.splits if_splits)

lemma repl_send_facts:
  assumes "repl_send h infotree code x p = (res, p')"
  shows "case res of Inl e \<Rightarrow> pr_repl p' = pr_repl p
      | Inr j \<Rightarrow> is_running p \<and> pr_repl p' = (pr_repl p)\<lparr>rp_uses := rp_uses (pr_repl p) + 1\<rparr>"
    and "pr_started p' = pr_started p" and "pr_errors p = [] \<Longrightarrow> pr_errors p' = []"
  using assms
  by (auto simp: repl_send_def Let_def is_running_def split: if_splits option.splits write_result.splits read_result.splits sum.splits
      dest!: take_answer_facts)

lemma send_timeout_refines:
  assumes "repl_send_timeout snippet h infotree code x p = (res, p')"
  shows "fst (send_timeout snippet h code (reply_of h infotree code x p) (seen p)) =
           (case res of Inl e \<Rightarrow> Inl e | Inr (resp, peaks) \<Rightarrow> Inr resp)"
    and "res = Inr r \<Longrightarrow> snd (send_timeout snippet h code (reply_of h infotree code x p) (seen p)) = (seen p')\<lparr>rp_running := True\<rparr>"
    and "rp_id (seen p') = rp_id (seen p)"
proof -
  obtain s p1 where s: "repl_send h infotree code x p = (s, p1)" by force
  note f = repl_send_facts [OF s]
  have p': "p' = p1" using assms s by (auto simp: repl_send_timeout_def split: sum.splits)
  have run: "\<not> is_running p \<Longrightarrow> s = Inl (ReplExn (lit ''REPL process not started or shut down''))"
    using s by (auto simp: repl_send_def Let_def)
  show "fst (send_timeout snippet h code (reply_of h infotree code x p) (seen p)) =
           (case res of Inl e \<Rightarrow> Inl e | Inr (resp, peaks) \<Rightarrow> Inr resp)"
    using assms s f run
    by (auto simp: repl_send_timeout_def send_timeout_def reply_of_def seen_def split: sum.splits repl_exn.splits)
  show "snd (send_timeout snippet h code (reply_of h infotree code x p) (seen p)) = (seen p')\<lparr>rp_running := True\<rparr>" if "res = Inr r"
    using assms s f that
    by (auto simp: repl_send_timeout_def send_timeout_def reply_of_def seen_def split: sum.splits)
  show "rp_id (seen p') = rp_id (seen p)" using f p' by (auto simp: seen_def split: sum.splits)
qed

lemma prep_refines:
  assumes "repl_prep snippet debug out x p = (res, p')"
  shows "\<exists>r'. prep snippet debug (start_fault out)
           (reply_of True None (rp_header (pr_repl p)) x (snd (repl_start out p))) (seen p) = (res, r', False)
       \<and> rp_id r' = rp_id (seen p) \<and> (\<forall>resp. res = Prepared resp \<longrightarrow> r' = (seen p')\<lparr>rp_running := True\<rparr>)"
proof (cases "is_running p")
  case True
  then show ?thesis using assms by (simp add: repl_prep_def prep_def seen_def)
next
  case False
  obtain st p1 where st: "repl_start out p = (st, p1)" by force
  show ?thesis
  proof (cases st)
    case (Inl what)
    then show ?thesis using assms False st
      by (auto simp: repl_prep_def prep_def seen_def start_fault_def repl_start_def Let_def split: start_outcome.splits)
  next
    case (Inr u)
    then have p1: "is_running p1" "pr_repl p1 = pr_repl p" "start_fault out = None"
      using st by (auto simp: repl_start_def Let_def is_running_def start_fault_def split: start_outcome.splits)
    then have r1: "(seen p)\<lparr>rp_running := True\<rparr> = seen p1" by (simp add: seen_def)
    obtain s p2 where s: "repl_send_timeout (snippet @ lit ''-header'') True None (rp_header (pr_repl p)) x p1 = (s, p2)"
      by force
    note ref = send_timeout_refines [OF s]
    let ?st = "send_timeout (snippet @ lit ''-header'') True (rp_header (pr_repl p))
      (reply_of True None (rp_header (pr_repl p)) x p1) (seen p1)"
    have noerr: "ck_error (fst v) = None" if "s = Inr v" for v
      using s that by (auto simp: repl_send_timeout_def split: sum.splits prod.splits)
    have keep: "rp_id (snd ?st) = rp_id (seen p1)" by (rule send_timeout_id)
    obtain t r2 where t: "?st = (t, r2)" by force
    show ?thesis
      using assms False st Inr p1 r1 s ref t keep noerr
      by (auto simp: repl_prep_def prep_def seen_def Let_def truthy_def split: sum.splits repl_exn.splits)
  qed
qed

section \<open>What the process reads\<close>

text \<open>The texts of a command have an encoding: no lone surrogates, which no request can carry.\<close>

definition command_wf :: "repl_command \<Rightarrow> bool" where
  "command_wf c \<longleftrightarrow> list_all scalar (rc_cmd c) \<and> pred_option (list_all scalar) (rc_infotree c)"

definition command_json :: "repl_command \<Rightarrow> json" where
  "command_json c = JObject (command_fields c)"

text \<open>The other end of the pipe: a command is what stands between empty lines.\<close>

definition frames :: "int list \<Rightarrow> int list list" where
  "frames bytes = filter (\<lambda>l. l \<noteq> []) (split_on 10 bytes)"

definition received :: "int list \<Rightarrow> json option list" where
  "received bytes = map (\<lambda>l. Option.bind (utf8_decode l) loads) (frames bytes)"

lemma command_json_wf: "command_wf c \<Longrightarrow> json_wf (command_json c)"
  by (auto simp: command_wf_def command_json_def command_fields_def lit_def scalar_def split: option.splits)

lemma payload_is_a_line:
  assumes "command_wf c"
  obtains line where "command_payload c = Some (line @ [10, 10])" "10 \<notin> set line" "line \<noteq> []"
    "utf8_decode line = Some (dumps False (command_json c))"
proof -
  let ?t = "dumps False (command_json c)"
  note pr = dumps_printable [OF command_json_wf [OF assms]]
  have sc: "list_all scalar ?t" and no: "10 \<notin> set ?t" using pr by (force simp: list_all_iff)+
  define line where "line = concat (map utf8_char ?t)"
  have enc: "utf8_encode ?t = Some line" using sc by (simp add: utf8_encode_def line_def)
  have "command_payload c = Some (line @ [10, 10])"
    using sc by (simp add: command_payload_def command_json_def [symmetric] utf8_encode_def line_def utf8_char_def [of 10] scalar_def)
  moreover have "10 \<notin> set line" using utf8_ascii [OF enc, of 10] no by simp
  moreover have "line \<noteq> []"
    using utf8_ascii [OF enc, of 123] by (auto simp: command_json_def lit_def)
  ultimately show ?thesis using that utf8_roundtrip [OF enc] by blast
qed

lemma split_on_append: "split_on d (a @ d # b) = split_on d a @ split_on d b"
  by (induction a) (auto split: list.splits)

lemma split_on_line: "10 \<notin> set l \<Longrightarrow> split_on 10 l = [l]"
  by (induction l) auto

definition complete :: "int list \<Rightarrow> bool" where
  "complete bytes \<longleftrightarrow> bytes = [] \<or> last bytes = 10"

lemma frames_append:
  assumes "complete bs"
  shows "frames (bs @ cs) = frames bs @ frames cs"
proof (cases bs rule: rev_cases)
  case (snoc as b)
  with assms have "bs = as @ [10]" by (simp add: complete_def)
  then show ?thesis using split_on_append [of 10 as cs] split_on_append [of 10 as "[]"] by (simp add: frames_def)
qed (simp add: frames_def)

lemma frames_line: "10 \<notin> set l \<Longrightarrow> l \<noteq> [] \<Longrightarrow> frames (l @ [10, 10]) = [l]"
  using split_on_append [of 10 l "[10]"] split_on_append [of 10 "[]" "[]"] split_on_line [of l]
  by (simp add: frames_def)

lemma received_append:
  assumes "complete bs" "command_wf c" "command_payload c = Some payload"
  shows "received (bs @ payload) = received bs @ [Some (command_json c)] \<and> complete (bs @ payload)"
proof -
  obtain line where l: "command_payload c = Some (line @ [10, 10])" "10 \<notin> set line" "line \<noteq> []"
    "utf8_decode line = Some (dumps False (command_json c))" using payload_is_a_line [OF assms(2)] .
  have "loads (dumps False (command_json c)) = Some (command_json c)"
    by (rule loads_dumps [OF command_json_wf [OF assms(2)]])
  then show ?thesis
    using l assms by (simp add: received_def frames_append frames_line) (simp add: complete_def)
qed

section \<open>Answers in step\<close>

text \<open>An answer as the process prints it: lines that are not blank and not too long, then an empty one.\<close>

definition answer_line :: "int list \<Rightarrow> bool" where
  "answer_line l \<longleftrightarrow> 10 \<notin> set l \<and> int (length l) \<le> stream_limit \<and> \<not> list_all byte_space l"

definition lines_of :: "int list list \<Rightarrow> int list" where
  "lines_of ls = concat (map (\<lambda>l. l @ [10]) ls)"

lemma readline_line: "10 \<notin> set l \<Longrightarrow> int (length l) \<le> stream_limit \<Longrightarrow> readline eof (l @ 10 # r) = Chunk (l @ [10]) r"
proof -
  assume l: "10 \<notin> set l" "int (length l) \<le> stream_limit"
  then have "takeWhile (\<lambda>x. x \<noteq> 10) (l @ 10 # r) = l" by (induction l) auto
  with l show ?thesis by (simp add: readline_def)
qed

lemma read_answer:
  "list_all answer_line ls \<Longrightarrow> read_response eof acc (lines_of ls @ 10 # r) = ReadDone (acc @ lines_of ls) r"
proof (induction ls arbitrary: acc)
  case Nil
  then show ?case using readline_line [of "[]" eof r]
    by (subst read_response.simps) (simp add: lines_of_def byte_space_def stream_limit_def)
next
  case (Cons l ls)
  then have "readline eof (l @ 10 # lines_of ls @ 10 # r) = Chunk (l @ [10]) (lines_of ls @ 10 # r)"
    by (intro readline_line) (auto simp: answer_line_def)
  moreover have "\<not> list_all byte_space (l @ [10])" using Cons by (simp add: answer_line_def)
  ultimately show ?case
    using Cons by (subst read_response.simps) (simp add: lines_of_def)
qed

lemma read_long_line:
  "stream_limit < int (length (takeWhile (\<lambda>x. x \<noteq> 10) b)) \<Longrightarrow> \<exists>r. read_response eof acc b = ReadFailed r"
  by (subst read_response.simps) (simp add: readline_def Let_def)

text \<open>An exchange in which the process writes the answer \<open>j\<close> in full and goes on.\<close>

definition answers_with :: "exchange \<Rightarrow> int list list \<Rightarrow> json \<Rightarrow> bool" where
  "answers_with x ls j \<longleftrightarrow> ex_write x = Written \<and> ex_exit x = None \<and> ex_output x = lines_of ls @ [10] \<and>
     list_all answer_line ls \<and> Option.bind (utf8_decode (lines_of ls)) loads = Some j"

text \<open>Between commands: running, all that was written is commands, nothing is left to read.\<close>

definition in_step :: "repl_process \<Rightarrow> bool" where
  "in_step p \<longleftrightarrow> is_running p \<and> complete (pr_written p) \<and> pr_unread p = [] \<and> strip (pr_errors p) = []"

lemma send_in_step:
  assumes "in_step p" "command_wf (command_of (pr_repl p) h infotree code)" "answers_with x ls j"
  obtains p' where "repl_send h infotree code x p = (Inr j, p')" "in_step p'"
    "received (pr_written p') = received (pr_written p) @ [Some (command_json (command_of (pr_repl p) h infotree code))]"
    "pr_repl p' = (pr_repl p)\<lparr>rp_uses := rp_uses (pr_repl p) + 1\<rparr>"
proof -
  obtain payload where payload: "command_payload (command_of (pr_repl p) h infotree code) = Some payload"
    using payload_is_a_line [OF assms(2)] by metis
  note rec = received_append [OF _ assms(2) payload, of "pr_written p"]
  have strip0: "strip [] = []" by (simp add: strip_Nil)
  obtain t where t: "utf8_decode (lines_of ls) = Some t" "loads t = Some j"
    using assms(3) by (auto simp: answers_with_def bind_eq_Some_conv)
  have "read_response (ex_eof x) [] (pr_unread p @ ex_output x) = ReadDone (lines_of ls) []"
    using assms read_answer [of ls "ex_eof x" "[]" "[]"] by (simp add: answers_with_def in_step_def)
  then obtain p' where "repl_send h infotree code x p = (Inr j, p')" "is_running p'" "pr_unread p' = []" "pr_errors p' = []"
    "pr_written p' = pr_written p @ payload" "pr_repl p' = (pr_repl p)\<lparr>rp_uses := rp_uses (pr_repl p) + 1\<rparr>"
    using assms payload t
    by (simp add: repl_send_def Let_def answers_with_def in_step_def take_answer_def is_running_def)
  then show ?thesis using that rec assms(1) strip0 by (auto simp: in_step_def)
qed

text \<open>The bodies of a series of snippets, sent one after the other.\<close>

fun converse :: "((pystr option \<times> pystr) \<times> exchange) list \<Rightarrow> repl_process \<Rightarrow> (repl_exn + json) list \<times> repl_process" where
  "converse [] p = ([], p)"
| "converse ((b, x) # bs) p =
     (let (r, p1) = repl_send False (fst b) (snd b) x p; (rs, p2) = converse bs p1 in (r # rs, p2))"

definition body_wf :: "pystr option \<times> pystr \<Rightarrow> bool" where
  "body_wf b \<longleftrightarrow> list_all scalar (snd b) \<and> pred_option (list_all scalar) (fst b)"

lemma body_command_wf: "body_wf b \<Longrightarrow> command_wf (command_of r h (fst b) (snd b))"
  by (auto simp: body_wf_def command_wf_def command_of_def Let_def)

lemma converse_in_step:
  assumes "in_step p" "list_all2 (\<lambda>(b, x) (ls, j). body_wf b \<and> answers_with x ls j) bs as"
  shows "fst (converse bs p) = map (\<lambda>(ls, j). Inr j) as \<and> in_step (snd (converse bs p)) \<and>
    received (pr_written (snd (converse bs p))) =
      received (pr_written p) @ map (Some \<circ> command_json) (body_commands (pr_repl p) (map fst bs))"
  using assms(2,1)
proof (induction bs as arbitrary: p rule: list_all2_induct)
  case (Cons bx bs a as)
  obtain b x where bx: "bx = (b, x)" by (cases bx)
  obtain ls j where a: "a = (ls, j)" by (cases a)
  have "body_wf b" "answers_with x ls j" using Cons.hyps bx a by auto
  then obtain p' where p': "repl_send False (fst b) (snd b) x p = (Inr j, p')" "in_step p'"
    "received (pr_written p') = received (pr_written p) @ [Some (command_json (command_of (pr_repl p) False (fst b) (snd b)))]"
    "pr_repl p' = (pr_repl p)\<lparr>rp_uses := rp_uses (pr_repl p) + 1\<rparr>"
    using send_in_step [OF Cons.prems body_command_wf] by metis
  have "fst (converse bs p') = map (\<lambda>(ls, j). Inr j) as \<and> in_step (snd (converse bs p')) \<and>
    received (pr_written (snd (converse bs p'))) =
      received (pr_written p') @ map (Some \<circ> command_json) (body_commands (pr_repl p') (map fst bs))"
    using Cons.IH p'(2) by blast
  then show ?case using p' bx a by (simp add: split_beta)
qed simp

text \<open>The conversation of a process from its start: the header, unless it is blank, and the bodies.\<close>

definition conversation :: "start_outcome \<Rightarrow> exchange \<Rightarrow> ((pystr option \<times> pystr) \<times> exchange) list \<Rightarrow> repl_process
    \<Rightarrow> (repl_exn + json) list \<times> repl_process" where
  "conversation out hx bs p =
     (let p1 = snd (repl_start out p)
      in if is_blank (rp_header (pr_repl p1)) then converse bs p1
         else let (r, p2) = repl_send True None (rp_header (pr_repl p1)) hx p1; (rs, p3) = converse bs p2 in (r # rs, p3))"

text \<open>
  C35. A conversation with a REPL process keeps in step: as long as the process answers each command with
  lines that are neither blank nor longer than the stream's limit and an empty line, it receives exactly
  the commands of the pool's view (\<open>process_commands\<close>), each decodes from UTF-8 and parses back to the
  dictionary that was sent, whatever the snippets contain, and every send returns the answer to its own
  command with nothing left unread.
\<close>

theorem conversation_in_step:
  assumes "list_all scalar header" "list_all2 (\<lambda>(b, x) (ls, j). body_wf b \<and> answers_with x ls j) bs as"
    and "answers_with hx hls hj"
  shows "case conversation (Spawned t cpu) hx bs (new_process i header uses now) of (results, p) \<Rightarrow>
    results = (if is_blank header then [] else [Inr hj]) @ map (\<lambda>(ls, j). Inr j) as \<and>
    received (pr_written p) = map (Some \<circ> command_json) (process_commands (new_repl i header uses now) (map fst bs)) \<and>
    pr_unread p = []"
proof -
  let ?p = "snd (repl_start (Spawned t cpu) (new_process i header uses now))"
  have p: "in_step ?p" "pr_repl ?p = new_repl i header uses now" "received (pr_written ?p) = []"
    by (simp_all add: repl_start_def new_process_def in_step_def is_running_def complete_def received_def frames_def strip_Nil)
  define r where r: "r = conversation (Spawned t cpu) hx bs (new_process i header uses now)"
  have hd: "rp_header (new_repl i header uses now) = header" by (simp add: new_repl_def)
  have "fst r = (if is_blank header then [] else [Inr hj]) @ map (\<lambda>(ls, j). Inr j) as
    \<and> received (pr_written (snd r)) = map (Some \<circ> command_json) (process_commands (new_repl i header uses now) (map fst bs))
    \<and> in_step (snd r)"
  proof (cases "is_blank header")
    case True
    then show ?thesis
      using converse_in_step [OF p(1) assms(2)] p
      by (simp add: r conversation_def process_commands_def hd)
  next
    case False
    have "command_wf (command_of (pr_repl ?p) True None header)"
      using body_command_wf [of "(None, header)"] assms(1) by (simp add: body_wf_def)
    then obtain p' where p': "repl_send True None header hx ?p = (Inr hj, p')" "in_step p'"
      "received (pr_written p') = received (pr_written ?p) @ [Some (command_json (command_of (pr_repl ?p) True None header))]"
      "pr_repl p' = (pr_repl ?p)\<lparr>rp_uses := rp_uses (pr_repl ?p) + 1\<rparr>"
      using send_in_step [OF p(1) _ assms(3)] by metis
    then show ?thesis
      using False converse_in_step [OF p'(2) assms(2)] p
      by (simp add: r conversation_def process_commands_def hd split_beta)
  qed
  then show ?thesis unfolding r [symmetric] by (auto simp: in_step_def split: prod.split)
qed

definition demo_exchange :: "pystr \<Rightarrow> exchange" where
  "demo_exchange line = \<lparr>ex_write = Written, ex_output = line @ [10, 10], ex_eof = False, ex_interrupt = TimesOut,
     ex_ticks = [MemTick (Some 700), CpuTick 3 (Some 2)], ex_time = 1, ex_exit = None, ex_encode_text = [],
     ex_decode_text = [], ex_payload = (\<lambda>j. Inl (lit ''1 validation error''))\<rparr>"

lemma demo_loads: "loads (lit ''{}'') = Some (JObject [])" "loads (lit ''[1]'') = Some (JList [JInt 1])"
  by code_simp+

lemma demo_answers:
  assumes "line \<in> {lit ''{}'', lit ''[1]''}"
  shows "answers_with (demo_exchange line) [line] (the (loads line))"
proof -
  have "\<forall>l\<in>{lit ''{}'', lit ''[1]''}. Option.bind (utf8_decode (l @ [10])) loads = Some (the (loads l))"
    by (simp only: ball_simps) (intro conjI; code_simp)
  with assms show ?thesis
    by (auto simp: answers_with_def demo_exchange_def lines_of_def answer_line_def stream_limit_def byte_space_def lit_def)
qed

text \<open>A body with a line break, a quote and a symbol outside ASCII reaches the process as it is.\<close>

definition demo_body :: pystr where
  "demo_body = lit ''theorem t : a '' @ [8594] @ lit '' b :='' @ [10] @ lit ''by simp [\"x\"]''"

theorem conversation_in_step_witness:
  "received (pr_written (snd (conversation (Spawned 1 0) (demo_exchange (lit ''{}''))
     [((None, demo_body), demo_exchange (lit ''[1]''))] (new_process 3 (lit ''import Mathlib'') 5 0)))) =
   [Some (JObject [(lit ''cmd'', JText (lit ''import Mathlib''))]),
    Some (JObject [(lit ''cmd'', JText demo_body), (lit ''env'', JInt 0), (lit ''gc'', JBool True)])]"
proof -
  have "list_all scalar (lit ''import Mathlib'')" "list_all scalar demo_body"
    by (simp_all add: lit_def scalar_def demo_body_def)
  moreover have "answers_with (demo_exchange (lit ''{}'')) [lit ''{}''] (JObject [])"
    "answers_with (demo_exchange (lit ''[1]'')) [lit ''[1]''] (JList [JInt 1])"
    using demo_answers [of "lit ''{}''"] demo_answers [of "lit ''[1]''"] by (simp_all add: demo_loads)
  ultimately show ?thesis
    using conversation_in_step [of "lit ''import Mathlib''" "[((None, demo_body), demo_exchange (lit ''[1]''))]"
        "[([lit ''[1]''], JList [JInt 1])]" "demo_exchange (lit ''{}'')" "[lit ''{}'']" "JObject []" 3 5 0 1 0]
    by (simp add: body_wf_def process_commands_def new_repl_def is_blank_def command_of_def command_json_def command_fields_def
        split: prod.splits)
      (simp add: strip_Nil lit_def is_space_def)
qed

section \<open>Faults\<close>


definition demo_process :: "pystr \<Rightarrow> int \<Rightarrow> repl_process" where
  "demo_process header uses = (let p = snd (repl_start (Spawned 1 0) (new_process 3 header 5 0))
     in p\<lparr>pr_repl := (pr_repl p)\<lparr>rp_uses := uses\<rparr>\<rparr>)"

lemma demo_process_runs: "is_running (demo_process header uses)" "pr_unread (demo_process header uses) = []"
  "pr_errors (demo_process header uses) = []" "rp_header (pr_repl (demo_process header uses)) = header"
  "pr_written (demo_process header uses) = []" "rp_uses (pr_repl (demo_process header uses)) = uses"
  "rp_header_response (pr_repl (demo_process header uses)) = None"
  by (simp_all add: demo_process_def repl_start_def new_process_def is_running_def new_repl_def Let_def)


text \<open>
  A process without an import header that died while it was free is started again by the next check
  (\<open>prep\<close> sees that it does not run), but its count of uses stays, so the first command that the new
  process receives refers to environment 0, which nothing made.
\<close>

theorem restart_sends_environment_zero:
  assumes "is_blank (rp_header (pr_repl p))" "0 < rp_uses (pr_repl p)" "pr_exit p = Some status"
    and "rp_header_response (pr_repl p) = None" "pr_errors p = []" "body_wf (infotree, body)" "answers_with x ls j"
  shows "case repl_prep snippet debug (Spawned t cpu) hx p of (res, p1) \<Rightarrow> res = Prepared None \<and>
    received (pr_written (snd (repl_send False infotree body x p1))) = [Some (command_json (later_command (infotree, body)))]"
proof -
  let ?p1 = "snd (repl_start (Spawned t cpu) p)"
  have p1: "in_step ?p1" "pr_repl ?p1 = pr_repl p" "received (pr_written ?p1) = []"
    using assms(5) by (simp_all add: repl_start_def in_step_def is_running_def complete_def received_def frames_def strip_Nil Let_def)
  have "repl_prep snippet debug (Spawned t cpu) hx p = (Prepared None, ?p1)"
    using assms(1,3,4) p1(2) by (simp add: repl_prep_def is_running_def repl_start_def Let_def)
  moreover have "command_of (pr_repl ?p1) False infotree body = later_command (infotree, body)"
    using assms(2) p1(2) by (simp add: command_of_def later_command_def)
  moreover have "command_wf (command_of (pr_repl ?p1) False infotree body)"
    using body_command_wf [OF assms(6)] by simp
  moreover obtain p2 where "repl_send False infotree body x ?p1 = (Inr j, p2)"
    "received (pr_written p2) = received (pr_written ?p1) @ [Some (command_json (command_of (pr_repl ?p1) False infotree body))]"
    using send_in_step [OF p1(1) calculation(3) assms(7)] .
  ultimately show ?thesis using p1(3) by simp
qed

theorem restart_sends_environment_zero_witness:
  "received (pr_written (snd (repl_send False None (lit ''#eval 1'') (demo_exchange (lit ''{}''))
     (snd (repl_prep (lit ''a'') False (Spawned 9 0) (demo_exchange []) ((demo_process [] 2)\<lparr>pr_exit := Some 137\<rparr>)))))) =
   [Some (JObject [(lit ''cmd'', JText (lit ''#eval 1'')), (lit ''env'', JInt 0), (lit ''gc'', JBool True)])]"
proof -
  let ?p = "(demo_process [] 2)\<lparr>pr_exit := Some 137\<rparr>"
  have "is_blank (rp_header (pr_repl ?p))" "0 < rp_uses (pr_repl ?p)" "pr_exit ?p = Some 137"
    "rp_header_response (pr_repl ?p) = None" "pr_errors ?p = []"
    by (simp_all add: demo_process_runs is_blank_def strip_Nil)
  moreover have "body_wf (None, lit ''#eval 1'')" by (simp add: body_wf_def lit_def scalar_def)
  moreover have "answers_with (demo_exchange (lit ''{}'')) [lit ''{}''] (JObject [])"
    using demo_answers [of "lit ''{}''"] by (simp add: demo_loads)
  ultimately have "case repl_prep (lit ''a'') False (Spawned 9 0) (demo_exchange []) ?p of (res, p1) \<Rightarrow> res = Prepared None \<and>
    received (pr_written (snd (repl_send False None (lit ''#eval 1'') (demo_exchange (lit ''{}'')) p1))) =
      [Some (command_json (later_command (None, lit ''#eval 1'')))]"
    by (rule restart_sends_environment_zero)
  then show ?thesis
    by (cases "repl_prep (lit ''a'') False (Spawned 9 0) (demo_exchange []) ?p")
      (simp add: command_json_def command_fields_def later_command_def)
qed

section \<open>Monitors\<close>

text \<open>The samples of the memory monitor before its task ends.\<close>

fun mem_samples :: "tick list \<Rightarrow> int list" where
  "mem_samples [] = []"
| "mem_samples (MemTick None # ts) = []"
| "mem_samples (MemTick (Some rss) # ts) = rss # mem_samples ts"
| "mem_samples (CpuTick now s # ts) = mem_samples ts"

lemma run_ticks_Cons [simp]: "run_ticks [] mo = mo" "run_ticks (t # ts) mo = run_ticks ts (run_tick t mo)"
  by (simp_all add: run_ticks_def)

lemma run_tick_cpu_mem: "mo_mem_on (run_tick (CpuTick now s) mo) = mo_mem_on mo"
  "mo_mem_max (run_tick (CpuTick now s) mo) = mo_mem_max mo"
  by (auto split: option.split)

lemma run_ticks_off: "\<not> mo_mem_on mo \<Longrightarrow> \<not> mo_mem_on (run_ticks ts mo) \<and> mo_mem_max (run_ticks ts mo) = mo_mem_max mo"
proof (induction ts arbitrary: mo)
  case (Cons t ts)
  have "\<not> mo_mem_on (run_tick t mo) \<and> mo_mem_max (run_tick t mo) = mo_mem_max mo"
    using Cons.prems run_tick_cpu_mem by (cases t) auto
  then show ?case using Cons.IH by auto
qed simp

lemma run_ticks_mem:
  "mo_mem_on mo \<Longrightarrow> mo_mem_max (run_ticks ts mo) = foldl max (mo_mem_max mo) (mem_samples ts) \<and>
     mo_mem_on (run_ticks ts mo) = (MemTick None \<notin> set ts)"
proof (induction ts arbitrary: mo rule: mem_samples.induct)
  case (2 ts)
  then show ?case using run_ticks_off [of "mo\<lparr>mo_mem_on := False\<rparr>" ts] by simp
next
  case (4 now s ts)
  then show ?case using run_tick_cpu_mem [of now s mo] by (simp del: run_tick.simps)
qed simp_all

lemma take_answer_mon: "take_answer x raw p = (r, p') \<Longrightarrow> pr_mon p' = pr_mon p"
  by (auto simp: take_answer_def Let_def split: option.splits if_splits)

text \<open>
  The memory reported with an answer is the largest sample taken while the command ran, if the
  monitor is alive.  The monitor ends with its first failed sample (\<open>psutil\<close> raises when a child exits
  while it is measured), and from then on every command on that process reports 0.
\<close>

theorem memory_of_a_command:
  assumes "repl_send_timeout snippet h infotree code x p = (Inr (resp, cpu, mem), p')"
  shows "mem = (if mo_mem_on (pr_mon p) then foldl max 0 (mem_samples (ex_ticks x)) else 0)"
    and "mo_mem_on (pr_mon p') \<longleftrightarrow> mo_mem_on (pr_mon p) \<and> MemTick None \<notin> set (ex_ticks x)"
proof -
  let ?mo = "(pr_mon p)\<lparr>mo_cpu_max := 0, mo_mem_max := 0\<rparr>"
  obtain j where j: "repl_send h infotree code x p = (Inr j, p')" "mem = mo_mem_max (pr_mon p')"
    using assms by (auto simp: repl_send_timeout_def split: prod.splits sum.splits)
  then have "pr_mon p' = run_ticks (ex_ticks x) ?mo"
    by (auto simp: repl_send_def Let_def dest!: take_answer_mon
        split: if_splits option.splits write_result.splits read_result.splits)
  then show "mem = (if mo_mem_on (pr_mon p) then foldl max 0 (mem_samples (ex_ticks x)) else 0)"
    "mo_mem_on (pr_mon p') \<longleftrightarrow> mo_mem_on (pr_mon p) \<and> MemTick None \<notin> set (ex_ticks x)"
    using j(2) run_ticks_mem [of ?mo "ex_ticks x"] run_ticks_off [of ?mo "ex_ticks x"] by auto
qed

theorem memory_of_a_command_witness:
  "mo_mem_on (pr_mon (snd (repl_send_timeout (lit ''a'') False None (lit ''#eval 1'') ((demo_exchange (lit ''{}''))\<lparr>ex_ticks :=
      [MemTick (Some 700), MemTick (Some 300), MemTick None, MemTick (Some 900)],
      ex_payload := (\<lambda>j. Inr (CommandError []))\<rparr>) (demo_process [] 0)))) = False"
proof -
  let ?x = "(demo_exchange (lit ''{}''))\<lparr>ex_ticks := [MemTick (Some 700), MemTick (Some 300), MemTick None, MemTick (Some 900)],
      ex_payload := (\<lambda>j. Inr (CommandError []))\<rparr>"
  let ?s = "repl_send_timeout (lit ''a'') False None (lit ''#eval 1'') ?x (demo_process [] 0)"
  have "case fst ?s of Inr r \<Rightarrow> True | Inl e \<Rightarrow> False" by code_simp
  then obtain resp cpu mem p' where s: "?s = (Inr (resp, cpu, mem), p')"
    by (cases "?s"; cases "fst ?s") auto
  show ?thesis using memory_of_a_command(2) [OF s] by (simp add: s)
qed


end
