(* ===== verification/CheckRoute.thy ===== *)
theory CheckRoute
  imports CheckPool "HOL-Library.Multiset"
begin

text \<open>
  What stands around one check: \<open>initialize_repls\<close> of \<open>server/manager.py\<close>, which fills the pool when the
  server starts, and \<open>run_checks\<close> and the route of \<open>server/routers/check.py\<close>, which run the snippets of a
  request side by side, answer with all results or the first failure, and give up when the client goes.
\<close>

section \<open>Filling the pool\<close>

text \<open>
  The processes are leased one after the other before any is prepared; the server accepts no request yet.
  \<open>None\<close>: \<open>get_repl\<close> waits for a process, which no one would release.
\<close>

fun lease_all :: "nat \<Rightarrow> pystr list \<Rightarrow> int \<Rightarrow> int \<Rightarrow> manager \<Rightarrow> (repl list \<times> manager) option" where
  "lease_all i [] deadline now m = Some ([], m)"
| "lease_all i (header # hs) deadline now m =
     (case try_get_repl header True deadline now m of
        (Reuse r, m1) \<Rightarrow> map_option (apfst ((#) r)) (lease_all (Suc i) hs deadline now m1)
      | (StartRepl old, m1) \<Rightarrow>
          (let r = new_repl i header (mg_max_uses m) now
           in map_option (apfst ((#) r)) (lease_all (Suc i) hs deadline now (start_repl r m1)))
      | _ \<Rightarrow> None)"

definition init_headers :: "(pystr, int) pydict \<Rightarrow> pystr list" where
  "init_headers init = concat (map (\<lambda>(header, count). replicate (nat count) header) init)"

text \<open>\<open>_prep_and_release\<close> for one process; any exception ends the start of the server.\<close>

definition prep_and_release :: "pystr option \<Rightarrow> repl_reply \<Rightarrow> int \<Rightarrow> repl \<Rightarrow> manager \<Rightarrow> prep_result + manager" where
  "prep_and_release started reply now r m =
     (case prep (lit ''init'') False started reply r of
        (Prepared resp, r1, destroyed) \<Rightarrow> Inr (release_repl r1 now (if destroyed then destroy_repl (rp_id r) m else m))
      | (failed, _) \<Rightarrow> Inl failed)"

fun prep_all :: "(pystr option \<times> repl_reply \<times> repl) list \<Rightarrow> int \<Rightarrow> manager \<Rightarrow> prep_result + manager" where
  "prep_all [] now m = Inr m"
| "prep_all ((started, reply, r) # rs) now m = ebind (prep_and_release started reply now r m) (prep_all rs now)"

datatype init_result = InitRefused int int | InitStuck | InitFailed prep_result | InitDone manager

text \<open>\<open>order\<close> lists the leased processes in the order in which their preparations end.\<close>

definition initialize_repls :: "(pystr, int) pydict \<Rightarrow> nat \<Rightarrow> int \<Rightarrow> int \<Rightarrow> (pystr option \<times> repl_reply) list \<Rightarrow> nat list
    \<Rightarrow> manager \<Rightarrow> init_result" where
  "initialize_repls init i deadline now worlds order m =
     (if init = [] then InitDone m
      else if mg_max m < dsum (\<lambda>c. c) init then InitRefused (dsum (\<lambda>c. c) init) (mg_max m)
      else case lease_all i (init_headers init) deadline now m of
             None \<Rightarrow> InitStuck
           | Some (rs, m1) \<Rightarrow>
               (case prep_all (map (\<lambda>k. (fst (worlds ! k), snd (worlds ! k), rs ! k)) order) now m1 of
                  Inl failed \<Rightarrow> InitFailed failed
                | Inr m2 \<Rightarrow> InitDone m2))"

lemma init_headers_length: "list_all (\<lambda>(h, c). 0 \<le> c) init \<Longrightarrow> int (length (init_headers init)) = dsum (\<lambda>c. c) init"
  by (induction init) (auto simp: init_headers_def)

definition fresh_repls :: "nat \<Rightarrow> pystr list \<Rightarrow> int \<Rightarrow> int \<Rightarrow> repl list" where
  "fresh_repls i hs max_uses now = map2 (\<lambda>k h. new_repl k h max_uses now) [i..<i + length hs] hs"

lemma fresh_repls_Cons:
  "fresh_repls i (h # hs) max_uses now = new_repl i h max_uses now # fresh_repls (Suc i) hs max_uses now"
  by (simp add: fresh_repls_def upt_conv_Cons del: upt_Suc)

lemma lease_all_fresh:
  assumes "mg_free m = []" "int (length (mg_busy m)) + int (length hs) \<le> mg_max m"
  shows "lease_all i hs deadline now m =
    Some (fresh_repls i hs (mg_max_uses m) now, m\<lparr>mg_busy := rev (fresh_repls i hs (mg_max_uses m) now) @ mg_busy m\<rparr>)"
  using assms
proof (induction hs arbitrary: i m)
  case Nil
  then show ?case by (simp add: fresh_repls_def)
next
  case (Cons h hs)
  have "try_get_repl h True deadline now m = (StartRepl None, m)"
    using Cons.prems by (simp add: try_get_repl_def total_repls_def)
  then show ?case
    using Cons.IH [of "start_repl (new_repl i h (mg_max_uses m) now) m" "Suc i"] Cons.prems
    by (simp add: start_repl_def fresh_repls_Cons Let_def)
qed

lemma fresh_facts:
  "length (fresh_repls i hs u now) = length hs" "map rp_header (fresh_repls i hs u now) = hs"
  "map rp_id (fresh_repls i hs u now) = [i..<i + length hs]"
  by (auto simp: fresh_repls_def new_repl_def intro!: nth_equalityI)

text \<open>A process as its preparation leaves it in the pool.\<close>

definition prepared :: "int \<Rightarrow> repl_reply \<Rightarrow> repl \<Rightarrow> repl" where
  "prepared now reply r = (fst (snd (prep (lit ''init'') False None reply r)))\<lparr>rp_last := now\<rparr>"

definition header_answered :: "repl_reply \<Rightarrow> repl \<Rightarrow> bool" where
  "header_answered reply r \<longleftrightarrow> is_blank (rp_header r) \<or> (case reply of Replied p t \<Rightarrow> True | _ \<Rightarrow> False)"

definition ready :: "repl \<Rightarrow> bool" where
  "ready r \<longleftrightarrow> rp_running r \<and> header_clean r \<and> \<not> repl_exhausted r"

lemma prep_fresh:
  assumes "header_answered reply (new_repl i h u now)" "u \<noteq> 0"
  obtains resp r1 where "prep (lit ''init'') False None reply (new_repl i h u now) = (Prepared resp, r1, False)"
    "rp_id r1 = i" "rp_header r1 = h" "ready r1"
proof (cases "is_blank h")
  case True
  then show ?thesis using that [of None "(new_repl i h u now)\<lparr>rp_running := True\<rparr>"] assms(2)
    by (simp add: prep_def new_repl_def ready_def header_clean_def repl_exhausted_def)
next
  case False
  then obtain p t where reply: "reply = Replied p t"
    using assms(1) by (auto simp: header_answered_def new_repl_def split: repl_reply.splits)
  let ?resp = "\<lparr>ck_id = lit ''init'' @ lit ''-header'', ck_time = t, ck_error = None, ck_response = Some p, ck_repl = None\<rparr>"
  show ?thesis using that [of "Some ?resp" "(new_repl i h u now)\<lparr>rp_running := True, rp_uses := 1, rp_header_response := Some ?resp\<rparr>"]
      False assms(2)
    by (simp add: prep_def new_repl_def ready_def header_clean_def repl_exhausted_def reply send_timeout_def truthy_def Let_def)
qed

lemma prepared_fresh:
  assumes "header_answered reply (new_repl i h u now)" "u \<noteq> 0"
  shows "rp_id (prepared now' reply (new_repl i h u now)) = i" "rp_header (prepared now' reply (new_repl i h u now)) = h"
    "ready (prepared now' reply (new_repl i h u now))"
proof -
  obtain resp r1 where "prep (lit ''init'') False None reply (new_repl i h u now) = (Prepared resp, r1, False)"
    "rp_id r1 = i" "rp_header r1 = h" "ready r1" using prep_fresh [OF assms] .
  then show "rp_id (prepared now' reply (new_repl i h u now)) = i" "rp_header (prepared now' reply (new_repl i h u now)) = h"
    "ready (prepared now' reply (new_repl i h u now))"
    by (auto simp: prepared_def ready_def header_clean_def repl_exhausted_def split: option.splits)
qed

definition unprepared :: "int \<Rightarrow> int \<Rightarrow> pystr option \<times> repl_reply \<times> repl \<Rightarrow> bool" where
  "unprepared u now w \<longleftrightarrow> (case w of (started, reply, r) \<Rightarrow> started = None \<and> header_answered reply r \<and>
     (\<exists>i h. r = new_repl i h u now))"

lemma prep_and_release_fresh:
  assumes "unprepared u now (started, reply, r)" "u \<noteq> 0" "rp_id r \<in> rp_id ` set (mg_busy m)"
  shows "prep_and_release started reply now' r m =
    Inr (m\<lparr>mg_busy := without_repl (rp_id r) (mg_busy m), mg_free := mg_free m @ [prepared now' reply r]\<rparr>)"
proof -
  obtain i h where r: "r = new_repl i h u now" "started = None" "header_answered reply (new_repl i h u now)"
    using assms(1) by (auto simp: unprepared_def)
  obtain resp r1 where p: "prep (lit ''init'') False None reply (new_repl i h u now) = (Prepared resp, r1, False)"
    "rp_id r1 = i" "rp_header r1 = h" "ready r1" using prep_fresh [OF r(3) assms(2)] .
  have "rp_id r = i" using r by (simp add: new_repl_def)
  with p r assms(3) show ?thesis
    by (simp add: prep_and_release_def release_repl_def prepared_def ready_def)
qed

lemma prep_all_fresh:
  assumes "\<And>w. w \<in> set ws \<Longrightarrow> unprepared u now w" "u \<noteq> 0" "distinct (map (\<lambda>w. rp_id (snd (snd w))) ws)"
    and "(\<lambda>w. rp_id (snd (snd w))) ` set ws \<subseteq> rp_id ` set (mg_busy m)"
  shows "prep_all ws now' m = Inr (m\<lparr>mg_busy := filter (\<lambda>r. rp_id r \<notin> (\<lambda>w. rp_id (snd (snd w))) ` set ws) (mg_busy m),
    mg_free := mg_free m @ map (\<lambda>(started, reply, r). prepared now' reply r) ws\<rparr>)"
  using assms(1,3,4)
proof (induction ws arbitrary: m)
  case (Cons w ws)
  obtain started reply r where w: "w = (started, reply, r)" by (cases w)
  have one: "prep_and_release started reply now' r m =
      Inr (m\<lparr>mg_busy := without_repl (rp_id r) (mg_busy m), mg_free := mg_free m @ [prepared now' reply r]\<rparr>)"
    using Cons.prems w assms(2) by (intro prep_and_release_fresh) auto
  have sub: "(\<lambda>w. rp_id (snd (snd w))) ` set ws \<subseteq> rp_id ` set (without_repl (rp_id r) (mg_busy m))"
  proof
    fix x assume "x \<in> (\<lambda>w. rp_id (snd (snd w))) ` set ws"
    then obtain v where v: "v \<in> set ws" "x = rp_id (snd (snd v))" by blast
    have "x \<noteq> rp_id r" using Cons.prems(2) v w by (metis (mono_tags, lifting) distinct.simps(2) image_eqI list.simps(9) set_map snd_conv)
    moreover have "x \<in> rp_id ` set (mg_busy m)" using Cons.prems(3) v by auto
    ultimately show "x \<in> rp_id ` set (without_repl (rp_id r) (mg_busy m))" by (auto simp: without_repl_def)
  qed
  define m1 where "m1 = m\<lparr>mg_busy := without_repl (rp_id r) (mg_busy m), mg_free := mg_free m @ [prepared now' reply r]\<rparr>"
  have "prep_all ws now' m1 = Inr (m1\<lparr>mg_busy := filter (\<lambda>r. rp_id r \<notin> (\<lambda>w. rp_id (snd (snd w))) ` set ws) (mg_busy m1),
      mg_free := mg_free m1 @ map (\<lambda>(started, reply, r). prepared now' reply r) ws\<rparr>)"
    using Cons.prems sub by (intro Cons.IH) (auto simp: m1_def)
  moreover have "filter (\<lambda>r. rp_id r \<notin> (\<lambda>w. rp_id (snd (snd w))) ` set ws) (mg_busy m1) =
      filter (\<lambda>r. rp_id r \<notin> (\<lambda>w. rp_id (snd (snd w))) ` set (w # ws)) (mg_busy m)"
    unfolding m1_def by (auto simp: without_repl_def w intro: filter_cong)
  ultimately show ?case
    unfolding w by (simp add: one m1_def del: filter.simps)
qed simp

lemma pop_header_finds: "r \<in> set rs \<Longrightarrow> rp_header r = h \<Longrightarrow> \<exists>r' rest. pop_header h rs = Some (r', rest)"
  by (induction rs) auto

text \<open>
  Filling the pool at the start: when the counts of \<open>INIT_REPLS\<close> fit into the cap and every process
  starts and answers its header, the pool afterwards holds exactly the requested number of processes of
  each header, all free, running, not exhausted and without a failed header, in whatever order their
  preparations end; so the first request for each of these headers gets one without a start.
\<close>

theorem initialization_fills_pool:
  assumes "init \<noteq> []" "list_all (\<lambda>(h, c). 0 \<le> c) init" "dsum (\<lambda>c. c) init \<le> mg_max m"
    and "mg_free m = []" "mg_busy m = []" "mg_max_uses m \<noteq> 0"
    and "mset order = mset [0..<length (init_headers init)]"
    and "\<And>k. k < length (init_headers init) \<Longrightarrow> fst (worlds ! k) = None \<and>
      header_answered (snd (worlds ! k)) (new_repl (i + k) (init_headers init ! k) (mg_max_uses m) now)"
  shows "\<exists>m'. initialize_repls init i deadline now worlds order m = InitDone m' \<and> mg_busy m' = [] \<and>
    mset (map rp_header (mg_free m')) = mset (init_headers init) \<and> list_all ready (mg_free m') \<and>
    (\<forall>h\<in>set (init_headers init). \<exists>r m''. try_get_repl h True dl now' m' = (Reuse r, m'') \<and> rp_running r)"
proof -
  let ?hs = "init_headers init" and ?u = "mg_max_uses m"
  let ?rs = "fresh_repls i ?hs ?u now"
  let ?m1 = "m\<lparr>mg_busy := rev ?rs @ mg_busy m\<rparr>"
  let ?ws = "map (\<lambda>k. (fst (worlds ! k), snd (worlds ! k), ?rs ! k)) order"
  have len: "int (length ?hs) \<le> mg_max m" using init_headers_length [OF assms(2)] assms(3) by simp
  have lease: "lease_all i ?hs deadline now m = Some (?rs, ?m1)"
    using lease_all_fresh [OF assms(4), of ?hs i] len assms(5) by simp
  have ks: "k \<in> set order \<longleftrightarrow> k < length ?hs" for k
    using assms(7) by (metis atLeast0LessThan atLeastLessThan_upt lessThan_iff set_mset_mset)
  have nth: "?rs ! k = new_repl (i + k) (?hs ! k) ?u now" if "k < length ?hs" for k
    using that by (simp add: fresh_repls_def)
  have dist: "distinct order" using assms(7) by (metis distinct_upt mset_eq_imp_distinct_iff)
  have unp: "unprepared ?u now w" if "w \<in> set ?ws" for w
    using that ks nth assms(8) by (auto simp: unprepared_def)
  have ids: "map (\<lambda>w. rp_id (snd (snd w))) ?ws = map (\<lambda>k. i + k) order"
    using ks nth by (auto simp: new_repl_def)
  have "distinct (map (\<lambda>w. rp_id (snd (snd w))) ?ws)"
    unfolding ids using dist by (simp add: distinct_map)
  moreover have idset: "(\<lambda>w. rp_id (snd (snd w))) ` set ?ws = rp_id ` set ?rs"
  proof -
    have "(\<lambda>w. rp_id (snd (snd w))) ` set ?ws = set (map (\<lambda>k. i + k) order)" by (metis ids set_map)
    also have "\<dots> = (+) i ` set order" by (rule set_map)
    also have "set order = {0..<length ?hs}" by (rule set_eqI) (simp add: ks)
    also have "(+) i ` {0..<length ?hs} = set [i..<i + length ?hs]"
      unfolding image_add_atLeastLessThan by (simp add: add.commute)
    finally show ?thesis using fresh_facts(3) [of i ?hs ?u now] by (metis set_map)
  qed
  moreover have "rp_id ` set ?rs \<subseteq> rp_id ` set (mg_busy ?m1)" by auto
  ultimately have prep: "prep_all ?ws now ?m1 = Inr (?m1\<lparr>mg_busy := filter (\<lambda>r. rp_id r \<notin> rp_id ` set ?rs) (mg_busy ?m1),
      mg_free := mg_free ?m1 @ map (\<lambda>(started, reply, r). prepared now reply r) ?ws\<rparr>)"
    using prep_all_fresh [of ?ws ?u now ?m1 now] unp assms(6) by simp
  define m' where "m' = ?m1\<lparr>mg_busy := filter (\<lambda>r. rp_id r \<notin> rp_id ` set ?rs) (mg_busy ?m1),
      mg_free := mg_free ?m1 @ map (\<lambda>(started, reply, r). prepared now reply r) ?ws\<rparr>"
  have res: "initialize_repls init i deadline now worlds order m = InitDone m'"
    using assms(1,3) lease prep by (simp add: initialize_repls_def m'_def)
  have busy: "mg_busy m' = []" using assms(5) by (simp add: m'_def filter_empty_conv)
  have free: "mg_free m' = map (\<lambda>k. prepared now (snd (worlds ! k)) (?rs ! k)) order"
    using assms(4) by (simp add: m'_def)
  have pf: "rp_header (prepared now (snd (worlds ! k)) (?rs ! k)) = ?hs ! k \<and> ready (prepared now (snd (worlds ! k)) (?rs ! k))"
    if "k < length ?hs" for k
    using prepared_fresh [OF conjunct2 [OF assms(8) [OF that]] assms(6)] nth [OF that] by simp
  have "map rp_header (mg_free m') = map (\<lambda>k. ?hs ! k) order" using pf ks by (simp add: free)
  then have "mset (map rp_header (mg_free m')) = image_mset (\<lambda>k. ?hs ! k) (mset [0..<length ?hs])"
    using assms(7) by (metis mset_map)
  also have "\<dots> = mset ?hs" by (metis map_nth mset_map)
  finally have hdrs: "mset (map rp_header (mg_free m')) = mset ?hs" .
  have rdy: "list_all ready (mg_free m')" using pf ks by (auto simp: free list_all_iff)
  have "\<exists>r m''. try_get_repl h True dl now' m' = (Reuse r, m'') \<and> rp_running r" if h: "h \<in> set ?hs" for h
  proof -
    have "h \<in> set (map rp_header (mg_free m'))" using h hdrs by (metis set_mset_mset)
    then obtain r0 where "r0 \<in> set (mg_free m')" "rp_header r0 = h" by auto
    then obtain r rest where pop: "pop_header h (mg_free m') = Some (r, rest)" using pop_header_finds by metis
    have "r \<in> set rs'" if "pop_header h rs' = Some (r, rest')" for rs' rest'
      using that by (induction rs' arbitrary: rest') (auto split: if_splits)
    then have "r \<in> set (mg_free m')" using pop by blast
    then have "rp_running r" using rdy by (auto simp: list_all_iff ready_def)
    with pop show ?thesis by (simp add: try_get_repl_def)
  qed
  with res busy hdrs rdy show ?thesis by blast
qed

definition demo_init :: "(pystr, int) pydict" where
  "demo_init = [(lit ''import Mathlib'', 2), ([], 1)]"

definition demo_worlds :: "(pystr option \<times> repl_reply) list" where
  "demo_worlds = replicate 3 (None, Replied (CommandDone \<lparr>co_env = Some 0, co_messages = None, co_sorries = None\<rparr>) 1)"

theorem initialization_fills_pool_witness:
  "\<exists>m'. initialize_repls demo_init 5 99 0 demo_worlds [2, 0, 1] \<lparr>mg_max = 3, mg_max_uses = 4, mg_free = [], mg_busy = []\<rparr>
     = InitDone m' \<and> mset (map rp_header (mg_free m')) = {#lit ''import Mathlib'', lit ''import Mathlib'', []#}"
proof -
  let ?m = "\<lparr>mg_max = 3, mg_max_uses = 4, mg_free = [], mg_busy = []\<rparr>"
  have hs: "init_headers demo_init = [lit ''import Mathlib'', lit ''import Mathlib'', []]"
    by (simp add: init_headers_def demo_init_def numeral_2_eq_2)
  have w: "fst (demo_worlds ! k) = None \<and> header_answered (snd (demo_worlds ! k)) r" if "k < 3" for k r
    using that by (simp add: demo_worlds_def header_answered_def)
  have "demo_init \<noteq> []" "list_all (\<lambda>(h, c). 0 \<le> c) demo_init" "dsum (\<lambda>c. c) demo_init \<le> mg_max ?m"
    by (simp_all add: demo_init_def)
  moreover have "mset [2, 0, 1] = mset [0..<length (init_headers demo_init)]"
    by (simp add: hs upt_rec)
  ultimately have "\<exists>m'. initialize_repls demo_init 5 99 0 demo_worlds [2, 0, 1] ?m = InitDone m' \<and> mg_busy m' = [] \<and>
    mset (map rp_header (mg_free m')) = mset (init_headers demo_init) \<and> list_all ready (mg_free m') \<and>
    (\<forall>h\<in>set (init_headers demo_init). \<exists>r m''. try_get_repl h True 0 0 m' = (Reuse r, m'') \<and> rp_running r)"
    by (intro initialization_fills_pool) (simp_all add: hs w)
  then show ?thesis by (auto simp: hs)
qed

section \<open>A request of several snippets\<close>

text \<open>
  \<open>asyncio.gather\<close> without \<open>return_exceptions\<close>: all results in the order of the snippets, or the first
  failure in the order in which the checks end; the other checks go on.
\<close>

datatype checks_result = ChecksDone "check_response list" | ChecksFailed int pystr | ChecksCancelled

fun first_failure :: "check_outcome list \<Rightarrow> nat list \<Rightarrow> checks_result option" where
  "first_failure outs [] = None"
| "first_failure outs (k # ks) =
     (case outs ! k of
        Answered r \<Rightarrow> first_failure outs ks
      | HttpFailed n what \<Rightarrow> Some (ChecksFailed n what)
      | CheckCancelled \<Rightarrow> Some ChecksCancelled)"

fun answers :: "check_outcome list \<Rightarrow> check_response list" where
  "answers [] = []"
| "answers (Answered r # outs) = r # answers outs"
| "answers (out # outs) = answers outs"

definition gather_checks :: "check_outcome list \<Rightarrow> nat list \<Rightarrow> checks_result" where
  "gather_checks outs order = (case first_failure outs order of Some f \<Rightarrow> f | None \<Rightarrow> ChecksDone (answers outs))"

text \<open>One snippet of a request with what its check meets and the pool at its start.\<close>

record check_run =
  cu_id :: pystr
  cu_code :: pystr
  cu_world :: check_world
  cu_pool :: manager

definition run_check :: "int \<Rightarrow> pystr \<Rightarrow> bool \<Rightarrow> int \<Rightarrow> check_run \<Rightarrow> check_outcome" where
  "run_check timeout shown debug now c = fst (run_one (cu_id c) (cu_code c) timeout shown debug now (cu_world c) (cu_pool c))"

definition run_checks :: "int \<Rightarrow> pystr \<Rightarrow> bool \<Rightarrow> int \<Rightarrow> check_run list \<Rightarrow> nat list \<Rightarrow> checks_result" where
  "run_checks timeout shown debug now cs order = gather_checks (map (run_check timeout shown debug now) cs) order"

text \<open>
  The route polls every tenth of a second: whether the task is done, then whether the client is gone;
  \<open>None\<close>: it polls on.  Cancelling the task is not awaited.
\<close>

datatype check_reply = CheckResults "check_response list" | CheckStatus int pystr | CheckAborted

fun check_route :: "(bool \<times> bool) list \<Rightarrow> checks_result \<Rightarrow> check_reply option" where
  "check_route [] res = None"
| "check_route ((finished, disconnected) # polls) res =
     (if finished then Some (case res of ChecksDone rs \<Rightarrow> CheckResults rs | ChecksFailed n what \<Rightarrow> CheckStatus n what
        | ChecksCancelled \<Rightarrow> CheckAborted)
      else if disconnected then Some (CheckStatus 499 (lit ''Client disconnected''))
      else check_route polls res)"

definition check_fine :: "check_run \<Rightarrow> bool" where
  "check_fine c \<longleftrightarrow> (case cw_lease (cu_world c) of LeaseGot r \<Rightarrow> header_clean r | _ \<Rightarrow> True)"

lemma offset_id: "ck_id (apply_header_offset r n) = ck_id r"
  by (auto simp: apply_header_offset_def split: option.split repl_payload.split list.split)

lemma run_one_id:
  assumes "run_one snippet code timeout shown debug now w m = (Answered resp, m')"
    and "case cw_lease w of LeaseGot r \<Rightarrow> header_clean r | _ \<Rightarrow> True"
  shows "ck_id resp = snippet"
proof (cases "cw_lease w")
  case (LeaseGot r)
  then have clean: "header_clean r" using assms(2) by simp
  obtain res r1 des where p: "prep snippet debug (cw_started w) (cw_header w) r = (res, r1, des)" by (metis prod_cases3)
  note pf = prep_facts [OF p clean]
  show ?thesis
  proof (cases res)
    case (Prepared h)
    have ok: "\<not> (case h of Some h \<Rightarrow> truthy (ck_error h) | None \<Rightarrow> False)"
      using pf(3) Prepared by (auto simp: truthy_def split: option.split)
    obtain x r2 where s: "send_timeout snippet False (sr_body (split_snippet code)) (cw_body w) r1 = (x, r2)" by force
    have body: "ck_id b = snippet" if "x = Inr b" for b
      using s that by (auto simp: send_timeout_def split: if_splits repl_reply.splits)
    have "x = Inl e \<Longrightarrow> e \<noteq> TimeoutExn \<Longrightarrow> False" for e
      using assms(1) LeaseGot p Prepared ok s by (cases e) (simp_all add: run_one_def Let_def)
    then show ?thesis
      using assms(1) LeaseGot p Prepared ok s body
      by (cases x; cases "cw_db w") (auto simp: run_one_def Let_def timeout_response_def offset_id split: if_splits repl_exn.splits)
  next
    case PrepTimeout
    then show ?thesis using assms(1) LeaseGot p by (auto simp: run_one_def Let_def timeout_response_def)
  qed (use assms(1) LeaseGot p in \<open>simp_all add: run_one_def Let_def\<close>)
qed (use assms(1) in \<open>simp_all add: run_one_def Let_def\<close>)

lemma run_one_status:
  "run_one snippet code timeout shown debug now w m = (HttpFailed n what, m') \<Longrightarrow> n = 500 \<or> (n = 429 \<and> cw_lease w = LeaseNone)"
  by (auto simp: run_one_def Let_def split: repl_lease.splits prod.splits prep_result.splits sum.splits repl_exn.splits
      db_write.splits if_splits)

lemma first_failure_None: "first_failure outs ks = None \<longleftrightarrow> (\<forall>k\<in>set ks. \<exists>r. outs ! k = Answered r)"
  by (induction ks) (auto split: check_outcome.splits)

lemma first_failure_Some: "first_failure outs ks = Some f \<Longrightarrow>
    \<exists>k\<in>set ks. case f of ChecksDone rs \<Rightarrow> False | ChecksFailed n what \<Rightarrow> outs ! k = HttpFailed n what
      | ChecksCancelled \<Rightarrow> outs ! k = CheckCancelled"
  by (induction ks) (auto split: check_outcome.splits)

lemma answers_all:
  "(\<And>k. k < length outs \<Longrightarrow> \<exists>r. outs ! k = Answered r) \<Longrightarrow> map Answered (answers outs) = outs"
proof (induction outs)
  case (Cons out outs)
  obtain r where "out = Answered r" using Cons.prems [of 0] by auto
  moreover have "map Answered (answers outs) = outs" using Cons.prems [of "Suc k" for k] by (intro Cons.IH) auto
  ultimately show ?case by simp
qed simp


definition demo_runs :: "check_run list" where
  "demo_runs = [
     \<lparr>cu_id = lit ''a'', cu_code = demo_check_code, cu_world = demo_check_world demo_answer (Replied demo_answer 2) DbDone,
       cu_pool = demo_manager\<rparr>,
     \<lparr>cu_id = lit ''b'', cu_code = demo_check_code,
       cu_world = (demo_check_world demo_answer (Replied demo_answer 2) DbDone)\<lparr>cw_lease := LeaseNone\<rparr>, cu_pool = demo_manager\<rparr>]"


text \<open>A poll that finds the client gone ends the request unless the checks are done by then.\<close>

lemma check_route_first:
  "check_route (replicate n (False, False) @ (finished, disconnected) # polls) res =
     (if finished \<or> disconnected then check_route [(finished, disconnected)] res else check_route polls res)"
  by (induction n) auto

end
