(* ===== verification/WorkerProcess.thy ===== *)
theory WorkerProcess
  imports Complex_Main Worker
begin

text \<open>
  The process side of \<open>server/pantograph_worker.py\<close>: whether a worker is alive, how it is closed, and the
  measurements that \<open>debug\<close> adds to an operation.  The operating system is the environment: whether the
  process ends in time, and what \<open>psutil\<close> reads or raises.  CPU times are rationals (the code rounds them
  as floats do), memory is in bytes.
\<close>

section \<open>The worker's process\<close>

text \<open>\<open>wk_proc\<close> is \<open>server.proc\<close>: absent, running (no return code) or ended.\<close>

record worker_process =
  wk_proc :: "int option option"
  wk_timeout :: int

definition worker_alive :: "worker_process \<Rightarrow> bool" where
  "worker_alive w \<longleftrightarrow> wk_proc w = Some None"

definition set_timeout_seconds :: "int \<Rightarrow> worker_process \<Rightarrow> worker_process" where
  "set_timeout_seconds s w = w\<lparr>wk_timeout := s\<rparr>"

datatype proc_signal = SigTerm | SigKill

text \<open>
  \<open>aclose\<close>: \<open>in_time\<close> is the return code if the process ends within five seconds of the first signal.
\<close>

definition aclose :: "int option \<Rightarrow> worker_process \<Rightarrow> proc_signal list \<times> worker_process" where
  "aclose in_time w =
     (case wk_proc w of
        None \<Rightarrow> ([], w)
      | Some rc \<Rightarrow>
          (if rc \<noteq> None then [] else case in_time of Some c \<Rightarrow> [SigTerm] | None \<Rightarrow> [SigTerm, SigKill],
           w\<lparr>wk_proc := None\<rparr>))"

lemma aclose_ends:
  "\<not> worker_alive (snd (aclose in_time w))" "aclose t (snd (aclose in_time w)) = ([], snd (aclose in_time w))"
  "fst (aclose in_time w) = [] \<longleftrightarrow> \<not> worker_alive w" "SigKill \<in> set (fst (aclose in_time w)) \<longrightarrow> in_time = None"
  by (auto simp: aclose_def worker_alive_def split: option.splits)

section \<open>Measurements\<close>

text \<open>
  One reading of a process tree: the process itself, its list of children, and each child; \<open>None\<close> is a
  \<open>psutil\<close> error.
\<close>

record 'a tree_reading =
  tr_main :: "'a option"
  tr_children :: "'a option list option"

definition present :: "'a option list \<Rightarrow> 'a list" where
  "present xs = map the (filter (\<lambda>x. x \<noteq> None) xs)"

text \<open>\<open>_sum_cpu_times\<close>: only the errors of the children are caught; \<open>None\<close>: it raises.\<close>

definition sum_cpu_times :: "rat tree_reading \<Rightarrow> rat option" where
  "sum_cpu_times r =
     (case (tr_main r, tr_children r) of
        (Some main, Some children) \<Rightarrow> Some (main + sum_list (present children))
      | _ \<Rightarrow> None)"

text \<open>\<open>_memory_bytes\<close>: 0 if the process is gone.\<close>

definition memory_bytes :: "int tree_reading \<Rightarrow> int option" where
  "memory_bytes r =
     (case tr_main r of
        None \<Rightarrow> Some 0
      | Some main \<Rightarrow> map_option (\<lambda>children. main + sum_list (present children)) (tr_children r))"

record debug_info =
  di_cpu_max :: rat
  di_memory_max :: int

record sampler =
  sa_cpu_max :: rat
  sa_memory_max :: int
  sa_last_cpu :: rat
  sa_last_time :: rat

record debug_tick =
  dt_now :: rat
  dt_cpu :: "rat tree_reading"
  dt_memory :: "int tree_reading"

definition least_interval :: rat where
  "least_interval = 1 / 1000000000"

text \<open>One round of \<open>monitor\<close>; \<open>None\<close>: the task ends with the exception.\<close>

definition debug_sample :: "debug_tick \<Rightarrow> sampler \<Rightarrow> sampler option" where
  "debug_sample t s =
     (case sum_cpu_times (dt_cpu t) of
        None \<Rightarrow> None
      | Some cpu \<Rightarrow>
          (case memory_bytes (dt_memory t) of
             None \<Rightarrow> None
           | Some mem \<Rightarrow>
               Some \<lparr>sa_cpu_max = max (sa_cpu_max s) ((cpu - sa_last_cpu s) / max (dt_now t - sa_last_time s) least_interval * 100),
                     sa_memory_max = max (sa_memory_max s) mem, sa_last_cpu = cpu, sa_last_time = dt_now t\<rparr>))"

fun run_sampler :: "debug_tick list \<Rightarrow> sampler \<Rightarrow> sampler option" where
  "run_sampler [] s = Some s"
| "run_sampler (t # ts) s = (case debug_sample t s of None \<Rightarrow> None | Some s1 \<Rightarrow> run_sampler ts s1)"

text \<open>
  What \<open>_with_debug\<close> meets: the process at its start, whether \<open>psutil\<close> finds it, the first and the last
  reading and the rounds of the monitor in between.
\<close>

record debug_world =
  dw_proc :: "int option option"
  dw_found :: bool
  dw_start :: debug_tick
  dw_ticks :: "debug_tick list"
  dw_end :: debug_tick

datatype 'e debug_failure = OperationRaised 'e | ReadingFailed

definition measured :: "debug_world \<Rightarrow> sampler option \<Rightarrow> debug_info option" where
  "measured w sampled =
     (case (sampled, sum_cpu_times (dt_cpu (dw_start w)), sum_cpu_times (dt_cpu (dw_end w)), memory_bytes (dt_memory (dw_end w))) of
        (Some s, Some cpu0, Some cpu1, Some mem1) \<Rightarrow>
          Some \<lparr>di_cpu_max = max (sa_cpu_max s) ((cpu1 - cpu0) / max (dt_now (dw_end w) - dt_now (dw_start w)) least_interval * 100),
                di_memory_max = max (sa_memory_max s) mem1\<rparr>
      | _ \<Rightarrow> None)"

text \<open>
  \<open>_with_debug\<close>: the operation's own exception is replaced by that of the monitor, whose task is awaited
  in the \<open>finally\<close>; the readings after it are taken only if both ended well.
\<close>

definition with_debug :: "debug_world \<Rightarrow> 'e + 'r \<Rightarrow> 'e debug_failure + 'r \<times> debug_info option" where
  "with_debug w outcome =
     (let plain = (case outcome of Inl e \<Rightarrow> Inl (OperationRaised e) | Inr r \<Rightarrow> Inr (r, None))
      in if dw_proc w \<noteq> Some None then plain
         else if \<not> dw_found w then Inl ReadingFailed
         else case (sum_cpu_times (dt_cpu (dw_start w)), memory_bytes (dt_memory (dw_start w))) of
           (Some cpu0, Some mem0) \<Rightarrow>
             (let sampled = run_sampler (dw_ticks w) \<lparr>sa_cpu_max = 0, sa_memory_max = mem0, sa_last_cpu = cpu0,
                sa_last_time = dt_now (dw_start w)\<rparr>
              in if sampled = None then Inl ReadingFailed
                 else case outcome of
                   Inl e \<Rightarrow> Inl (OperationRaised e)
                 | Inr r \<Rightarrow> (case measured w sampled of None \<Rightarrow> Inl ReadingFailed | Some d \<Rightarrow> Inr (r, Some d)))
         | _ \<Rightarrow> Inl ReadingFailed)"

text \<open>Whether the operation is run at all: not when the first readings raise.\<close>

definition runs_operation :: "debug_world \<Rightarrow> bool" where
  "runs_operation w \<longleftrightarrow> dw_proc w = Some None \<longrightarrow> dw_found w \<and> sum_cpu_times (dt_cpu (dw_start w)) \<noteq> None \<and>
     memory_bytes (dt_memory (dw_start w)) \<noteq> None"

text \<open>\<open>_attach_debug\<close> on the results of a step: every result carries the same measurement.\<close>

definition attach_debug :: "debug_info \<Rightarrow> step_result list \<Rightarrow> (step_result \<times> debug_info option) list" where
  "attach_debug d rs = map (\<lambda>r. (r, Some d)) rs"

text \<open>\<open>_debug_from_worker_results\<close> of \<open>server/exec_backends.py\<close>\<close>

definition debug_from_worker_results :: "(step_result \<times> debug_info option) list \<Rightarrow> debug_info option" where
  "debug_from_worker_results rs =
     (let ds = present (map snd rs)
      in if ds = [] then None
         else Some \<lparr>di_cpu_max = fold max (map di_cpu_max (tl ds)) (di_cpu_max (hd ds)),
                    di_memory_max = fold max (map di_memory_max (tl ds)) (di_memory_max (hd ds))\<rparr>)"

definition readings_ok :: "debug_world \<Rightarrow> bool" where
  "readings_ok w \<longleftrightarrow> dw_found w \<and> list_all (\<lambda>t. sum_cpu_times (dt_cpu t) \<noteq> None \<and> memory_bytes (dt_memory t) \<noteq> None)
     (dw_start w # dw_ticks w @ [dw_end w])"

definition readings_of :: "debug_world \<Rightarrow> int list" where
  "readings_of w = map (\<lambda>t. the (memory_bytes (dt_memory t))) (dw_start w # dw_ticks w @ [dw_end w])"

lemma run_sampler_total:
  "list_all (\<lambda>t. sum_cpu_times (dt_cpu t) \<noteq> None \<and> memory_bytes (dt_memory t) \<noteq> None) ts \<Longrightarrow>
     \<exists>s'. run_sampler ts s = Some s' \<and> sa_cpu_max s \<le> sa_cpu_max s' \<and>
       sa_memory_max s' = Max (insert (sa_memory_max s) (set (map (\<lambda>t. the (memory_bytes (dt_memory t))) ts)))"
proof (induction ts arbitrary: s)
  case (Cons t ts)
  then obtain cpu mem where r: "sum_cpu_times (dt_cpu t) = Some cpu" "memory_bytes (dt_memory t) = Some mem" by auto
  then obtain s1 where s1: "debug_sample t s = Some s1" "sa_cpu_max s \<le> sa_cpu_max s1" "sa_memory_max s1 = max (sa_memory_max s) mem"
    by (simp add: debug_sample_def)
  obtain s' where s': "run_sampler ts s1 = Some s'" "sa_cpu_max s1 \<le> sa_cpu_max s'"
      "sa_memory_max s' = Max (insert (sa_memory_max s1) (set (map (\<lambda>t. the (memory_bytes (dt_memory t))) ts)))"
    using Cons.IH [of s1] Cons.prems by auto
  have "Max (insert (max a b) M) = Max (insert a (insert b M))" if "finite M" for a b :: int and M
    using that by (cases "M = {}") (simp_all add: max.assoc max.left_commute)
  with s1 s' r show ?case by auto
qed simp

lemma run_sampler_fails:
  "run_sampler ts s = None \<longleftrightarrow> (\<exists>t\<in>set ts. sum_cpu_times (dt_cpu t) = None \<or> memory_bytes (dt_memory t) = None)"
  by (induction ts arbitrary: s) (auto simp: debug_sample_def split: option.splits)

section \<open>Properties\<close>

lemma measured_ok:
  assumes "readings_ok w"
  obtains s cpu0 mem0 cpu1 mem1 where
    "sum_cpu_times (dt_cpu (dw_start w)) = Some cpu0" "memory_bytes (dt_memory (dw_start w)) = Some mem0"
    "run_sampler (dw_ticks w) \<lparr>sa_cpu_max = 0, sa_memory_max = mem0, sa_last_cpu = cpu0, sa_last_time = dt_now (dw_start w)\<rparr> = Some s"
    "0 \<le> sa_cpu_max s" "sum_cpu_times (dt_cpu (dw_end w)) = Some cpu1" "memory_bytes (dt_memory (dw_end w)) = Some mem1"
    "max (sa_memory_max s) mem1 = Max (set (readings_of w))"
proof -
  obtain cpu0 mem0 cpu1 mem1 where r: "sum_cpu_times (dt_cpu (dw_start w)) = Some cpu0" "memory_bytes (dt_memory (dw_start w)) = Some mem0"
    "sum_cpu_times (dt_cpu (dw_end w)) = Some cpu1" "memory_bytes (dt_memory (dw_end w)) = Some mem1"
    and ticks: "list_all (\<lambda>t. sum_cpu_times (dt_cpu t) \<noteq> None \<and> memory_bytes (dt_memory t) \<noteq> None) (dw_ticks w)"
    using assms by (auto simp: readings_ok_def)
  let ?s0 = "\<lparr>sa_cpu_max = 0, sa_memory_max = mem0, sa_last_cpu = cpu0, sa_last_time = dt_now (dw_start w)\<rparr>"
  let ?M = "set (map (\<lambda>t. the (memory_bytes (dt_memory t))) (dw_ticks w))"
  obtain s where s: "run_sampler (dw_ticks w) ?s0 = Some s" "0 \<le> sa_cpu_max s" "sa_memory_max s = Max (insert mem0 ?M)"
    using run_sampler_total [OF ticks, of ?s0] by auto
  have "set (readings_of w) = insert mem1 (insert mem0 ?M)" using r by (auto simp: readings_of_def)
  then have "Max (set (readings_of w)) = max mem1 (Max (insert mem0 ?M))" by simp
  with s r that show ?thesis by (simp add: max.commute)
qed

lemma max_power: "(max x ^^ n) x = (x :: 'x :: linorder)"
  by (induction n) auto

text \<open>
  What \<open>debug\<close> reports: if \<open>psutil\<close> can read the worker's process throughout, the operation's result is
  unchanged and carries the largest of all readings of the memory of the process tree, from the start to
  the end of the operation, and a CPU share that is not negative; every result of a step carries the same
  measurement, and the response of the item reports exactly that one.
\<close>

theorem debug_reports_peak:
  assumes "dw_proc w = Some None" "readings_ok w"
  shows "\<exists>d. with_debug w (Inr rs :: 'e + step_result list) = Inr (rs, Some d) \<and>
    di_memory_max d = Max (set (readings_of w)) \<and> 0 \<le> di_cpu_max d \<and>
    map fst (attach_debug d rs) = rs \<and>
    debug_from_worker_results (attach_debug d rs) = (if rs = [] then None else Some d)"
proof -
  have found: "dw_found w" using assms(2) by (simp add: readings_ok_def)
  obtain s cpu0 mem0 cpu1 mem1 where
    m: "sum_cpu_times (dt_cpu (dw_start w)) = Some cpu0" "memory_bytes (dt_memory (dw_start w)) = Some mem0"
    "run_sampler (dw_ticks w) \<lparr>sa_cpu_max = 0, sa_memory_max = mem0, sa_last_cpu = cpu0, sa_last_time = dt_now (dw_start w)\<rparr> = Some s"
    "0 \<le> sa_cpu_max s" "sum_cpu_times (dt_cpu (dw_end w)) = Some cpu1" "memory_bytes (dt_memory (dw_end w)) = Some mem1"
    "max (sa_memory_max s) mem1 = Max (set (readings_of w))" using measured_ok [OF assms(2)] .
  obtain d where d: "measured w (Some s) = Some d" "di_memory_max d = Max (set (readings_of w))" "0 \<le> di_cpu_max d"
    using m by (simp add: measured_def)
  have "with_debug w (Inr rs :: 'e + step_result list) = Inr (rs, Some d)"
    using assms(1) found m(1-3) d(1) by (simp add: with_debug_def Let_def)
  moreover have "debug_from_worker_results (attach_debug d rs) = (if rs = [] then None else Some d)"
    by (cases rs) (simp_all add: debug_from_worker_results_def attach_debug_def present_def comp_def filter_map map_replicate_const max_power)
  moreover have "map fst (attach_debug d rs) = rs" by (simp add: attach_debug_def comp_def)
  ultimately show ?thesis using d by blast
qed

definition demo_tick :: "rat \<Rightarrow> rat \<Rightarrow> int \<Rightarrow> debug_tick" where
  "demo_tick now cpu mem = \<lparr>dt_now = now, dt_cpu = \<lparr>tr_main = Some cpu, tr_children = Some [None, Some 1]\<rparr>,
     dt_memory = \<lparr>tr_main = Some mem, tr_children = Some [Some 10, None]\<rparr>\<rparr>"

definition demo_world :: "debug_tick \<Rightarrow> debug_world" where
  "demo_world final = \<lparr>dw_proc = Some None, dw_found = True, dw_start = demo_tick 0 0 500,
     dw_ticks = [demo_tick 1 1 900, demo_tick 2 2 700], dw_end = final\<rparr>"

theorem debug_reports_peak_witness:
  "\<exists>d. with_debug (demo_world (demo_tick 3 2 600)) (Inr [] :: nat + step_result list) = Inr ([], Some d) \<and> di_memory_max d = 910"
proof -
  let ?w = "demo_world (demo_tick 3 2 600)"
  have "dw_proc ?w = Some None" "readings_ok ?w"
    by (simp_all add: demo_world_def demo_tick_def readings_ok_def sum_cpu_times_def memory_bytes_def)
  moreover have "Max (set (readings_of ?w)) = 910"
    by (simp add: readings_of_def demo_world_def demo_tick_def memory_bytes_def present_def)
  ultimately show ?thesis using debug_reports_peak [of ?w "[]"] by auto
qed

text \<open>
  \<open>debug\<close> is not transparent: when the worker's process ends during an operation that has begun, so that
  one of the later readings raises, the operation's result is lost and the exception of \<open>psutil\<close> leaves
  the worker instead, although without \<open>debug\<close> every tactic would have been answered.  The scratch files
  of the child states that were saved stay behind in the store's directory.
\<close>

theorem debug_loses_results:
  assumes "dw_proc w = Some None" "runs_operation w" "\<not> readings_ok w"
    and "step_state srv now path tactics goal_id auto_resume goal_group ws = (Inr rs, ws')"
  shows "with_debug w (fst (step_state srv now path tactics goal_id auto_resume goal_group ws)) = Inl ReadingFailed \<and>
    list_all2 step_result_ok tactics rs \<and> files_grew (ws_files ws) (ws_files ws') (result_paths rs)"
proof -
  obtain cpu0 mem0 where r: "sum_cpu_times (dt_cpu (dw_start w)) = Some cpu0" "memory_bytes (dt_memory (dw_start w)) = Some mem0"
    "dw_found w"
    using assms(1,2) by (auto simp: runs_operation_def)
  let ?s = "run_sampler (dw_ticks w) \<lparr>sa_cpu_max = 0, sa_memory_max = mem0, sa_last_cpu = cpu0, sa_last_time = dt_now (dw_start w)\<rparr>"
  have "?s = None \<or> measured w ?s = None"
    using assms(3) r run_sampler_fails [of "dw_ticks w" "\<lparr>sa_cpu_max = 0, sa_memory_max = mem0, sa_last_cpu = cpu0,
        sa_last_time = dt_now (dw_start w)\<rparr>"]
    by (auto simp: readings_ok_def measured_def list_all_iff split: option.splits)
  then have "with_debug w (fst (step_state srv now path tactics goal_id auto_resume goal_group ws)) = Inl ReadingFailed"
    using assms(1,4) r by (auto simp: with_debug_def Let_def)
  with step_state_leaves [OF assms(4)] show ?thesis by simp
qed

text \<open>The process is gone when the operation has ended: its last CPU reading raises.\<close>

definition gone_tick :: debug_tick where
  "gone_tick = \<lparr>dt_now = 3, dt_cpu = \<lparr>tr_main = None, tr_children = None\<rparr>, dt_memory = \<lparr>tr_main = None, tr_children = None\<rparr>\<rparr>"

theorem debug_loses_results_witness:
  "with_debug (demo_world gone_tick) (fst demo_step) = Inl ReadingFailed \<and> (\<exists>rs. fst demo_step = Inr rs \<and>
     files_grew [] (ws_files (snd demo_step)) (result_paths rs))"
proof -
  have "map_sum id (map sr_status) (fst demo_step) = Inr [StOpen, StError, StComplete]" by code_simp
  then obtain rs where rs: "fst demo_step = Inr rs" by (cases "fst demo_step") auto
  then have s: "step_state demo_server 5 (lit ''st_a.bin'') [lit ''intro'', lit ''bad'', lit ''exact''] None None None demo_ws
      = (Inr rs, snd demo_step)"
    unfolding demo_step_def by (metis prod.collapse)
  have "dw_proc (demo_world gone_tick) = Some None" "runs_operation (demo_world gone_tick)" "\<not> readings_ok (demo_world gone_tick)"
    by (simp_all add: demo_world_def gone_tick_def demo_tick_def runs_operation_def readings_ok_def sum_cpu_times_def memory_bytes_def)
  from debug_loses_results [OF this s] show ?thesis using rs by (simp add: demo_step_def demo_ws_def)
qed

end
