(* ===== verification/Lifespan.thy ===== *)
theory Lifespan
  imports ServerLock StoreProps WorkerPool Limiter Lifecycle ExecRoutes CheckRoute
begin

text \<open>
  \<open>lifespan\<close> of \<open>server/main.py\<close>: how the server puts its parts together before it accepts requests, in
  either mode, and the \<open>finally\<close> that takes them apart after a failed start and after a run alike.  What
  the world decides, whether the database answers and whether the processes close without an exception,
  is an argument.
\<close>

section \<open>The parts of a server\<close>

record life_settings =
  lv_settings :: settings
  lv_ttl :: int
  lv_retention :: int
  lv_uses :: int
  lv_startup_s :: int
  lv_repls :: int
  lv_repl_uses :: int
  lv_init :: "(pystr, int) pydict"
  lv_database :: "pystr option"

text \<open>\<open>app.state\<close>, the file of the lock object, whether the collector's task runs, and \<open>db.connected\<close>\<close>

record server_app =
  sa_lock :: "nat option"
  sa_store :: "store option"
  sa_registry :: "registry option"
  sa_metrics :: "metrics option"
  sa_limiter :: "limiter option"
  sa_pool :: "pool option"
  sa_collecting :: bool
  sa_manager :: "manager option"
  sa_connected :: bool

definition no_app :: server_app where
  "no_app = \<lparr>sa_lock = None, sa_store = None, sa_registry = None, sa_metrics = None, sa_limiter = None,
     sa_pool = None, sa_collecting = False, sa_manager = None, sa_connected = False\<rparr>"

datatype start_failure = ExecStart start_error | RetentionRefused | LimiterRefused limiter_error
  | PoolRefused pool_error | ReplStart init_result

section \<open>Start\<close>

text \<open>What follows the state store in exec mode; the parts made before a failure stay.\<close>

definition start_parts :: "life_settings \<Rightarrow> server_app \<Rightarrow> start_failure option \<times> server_app" where
  "start_parts c a =
     (let s = sg_config (lv_settings c)
      in case new_registry (lv_retention c) of
           None \<Rightarrow> (Some RetentionRefused, a)
         | Some reg \<Rightarrow>
             (let a1 = a\<lparr>sa_registry := Some reg, sa_metrics := Some new_metrics\<rparr>
              in case new_limiter (xc_in_flight s) (xc_queued s) of
                   Inl e \<Rightarrow> (Some (LimiterRefused e), a1)
                 | Inr l \<Rightarrow>
                     (let a2 = a1\<lparr>sa_limiter := Some l\<rparr>
                      in case new_pool (xc_workers s) (lv_uses c) (xc_lean_processes s) (lv_startup_s c) of
                           Inl e \<Rightarrow> (Some (PoolRefused e), a2)
                         | Inr p \<Rightarrow> (None, a2\<lparr>sa_pool := Some p, sa_collecting := True\<rparr>))))"

definition start_exec :: "nat \<Rightarrow> int \<Rightarrow> life_settings \<Rightarrow> lock_fs \<Rightarrow> start_failure option \<times> server_app \<times> lock_fs" where
  "start_exec p now c fs =
     (let s = sg_config (lv_settings c)
      in case validate_bounded_exec_caps s of
           Inl e \<Rightarrow> (Some (ExecStart (CapsRefused e)), no_app, fs)
         | Inr _ \<Rightarrow>
             (let (held, fs1) = (if xc_single s then acquire_lock p now None fs else (None, fs));
                  a = no_app\<lparr>sa_lock := held\<rparr>
              in if xc_single s \<and> held = None then (Some (ExecStart AlreadyRunning), a, fs1)
                 else (let fs2 = fs1\<lparr>lf_files := opened_files (lv_ttl c) (xc_store_bytes s) (lf_files fs1)\<rparr>
                       in case new_store (lv_ttl c) (xc_store_bytes s) (lf_files fs1) of
                            Inl e \<Rightarrow> (Some (ExecStart (StoreFailed e)), a, fs2)
                          | Inr st \<Rightarrow> (let (err, a') = start_parts c (a\<lparr>sa_store := Some st\<rparr>) in (err, a', fs2)))))"

text \<open>
  In verify mode: whether the database can be reached, the clock and the processes of
  \<open>initialize_repls\<close>, and the manager as it is when that raises (the preparations run side by side).
\<close>

record verify_world =
  vw_connects :: bool
  vw_deadline :: int
  vw_worlds :: "(pystr option \<times> repl_reply) list"
  vw_order :: "nat list"
  vw_broken :: manager

definition start_verify :: "verify_world \<Rightarrow> int \<Rightarrow> life_settings \<Rightarrow> start_failure option \<times> server_app" where
  "start_verify w now c =
     (let a = no_app\<lparr>sa_connected := truthy (lv_database c) \<and> vw_connects w\<rparr>;
          m = ms_pool (new_manager (lv_repls c) (lv_repl_uses c))
      in case initialize_repls (lv_init c) 0 (vw_deadline w) now (vw_worlds w) (vw_order w) m of
           InitDone m' \<Rightarrow> (None, a\<lparr>sa_manager := Some m'\<rparr>)
         | InitRefused n k \<Rightarrow> (Some (ReplStart (InitRefused n k)), a\<lparr>sa_manager := Some m\<rparr>)
         | failed \<Rightarrow> (Some (ReplStart failed), a\<lparr>sa_manager := Some (vw_broken w)\<rparr>))"

definition start_app ::
  "nat \<Rightarrow> int \<Rightarrow> verify_world \<Rightarrow> life_settings \<Rightarrow> lock_fs \<Rightarrow> start_failure option \<times> server_app \<times> lock_fs" where
  "start_app p now w c fs =
     (case sg_mode (lv_settings c) of
        ModeExec \<Rightarrow> start_exec p now c fs
      | ModeVerify \<Rightarrow> (let (err, a) = start_verify w now c in (err, a, fs)))"

section \<open>End\<close>

datatype stop_failure = WorkerCloseFailed | DisconnectFailed

text \<open>
  The \<open>finally\<close>: the workers are closed side by side and the first exception of a close goes on, so what
  comes after it does not happen; the processes of the REPL manager are closed by tasks of their own.
\<close>

definition stop_app ::
  "(nat \<Rightarrow> bool) \<Rightarrow> bool \<Rightarrow> server_app \<Rightarrow> lock_fs \<Rightarrow> stop_failure option \<times> server_app \<times> lock_fs" where
  "stop_app closes disconnects a fs =
     (let a1 = a\<lparr>sa_collecting := False, sa_pool := map_option cleanup_pool (sa_pool a)\<rparr>;
          workers = (case sa_pool a of None \<Rightarrow> [] | Some p \<Rightarrow> map ls_id (pl_free p @ pl_busy p))
      in if \<not> list_all closes workers then (Some WorkerCloseFailed, a1, fs)
         else (let a2 = a1\<lparr>sa_manager := map_option cleanup_repls (sa_manager a)\<rparr>
               in if sa_connected a \<and> \<not> disconnects then (Some DisconnectFailed, a2, fs)
                  else (None, a2\<lparr>sa_connected := False, sa_lock := None\<rparr>, release_lock (sa_lock a) fs)))"

text \<open>The whole life of a server; \<open>run\<close> is what it does between its start and its end.\<close>

definition server_life ::
  "nat \<Rightarrow> int \<Rightarrow> verify_world \<Rightarrow> life_settings \<Rightarrow> (server_app \<times> lock_fs \<Rightarrow> server_app \<times> lock_fs) \<Rightarrow>
     (nat \<Rightarrow> bool) \<Rightarrow> bool \<Rightarrow> lock_fs \<Rightarrow> start_failure option \<times> stop_failure option \<times> server_app \<times> lock_fs" where
  "server_life p now w c run closes disconnects fs =
     (let (err, a, fs1) = start_app p now w c fs;
          (a', fs2) = (if err = None then run (a, fs1) else (a, fs1))
      in (err, stop_app closes disconnects a' fs2))"

section \<open>Facts\<close>

lemma start_parts_keeps:
  "start_parts c a = (err, a') \<Longrightarrow> sa_lock a' = sa_lock a \<and> sa_store a' = sa_store a \<and>
     sa_manager a' = sa_manager a \<and> sa_connected a' = sa_connected a \<and>
     (err \<noteq> None \<longrightarrow> sa_pool a' = sa_pool a \<and> sa_collecting a' = sa_collecting a)"
  by (auto simp: start_parts_def Let_def split: option.splits sum.splits)

lemma fresh_pool: "new_pool m u c b = Inr q \<Longrightarrow> pl_free q = [] \<and> pl_busy q = [] \<and> pool_inv q"
  by (auto simp: new_pool_def pool_inv_def starting_ok_def caps_ok_def ids_ok_def total_workers_def active_env_def
      lease_ids_def dget_or_def split: if_splits)

lemma start_parts_ready:
  assumes "start_parts c a = (None, a')"
  shows "\<exists>reg l q. sa_registry a' = Some reg \<and> sa_limiter a' = Some l \<and> sa_pool a' = Some q \<and> sa_collecting a' \<and>
    reg_inv reg \<and> lim_inv l \<and> pool_inv q"
  using assms new_registry_inv new_limiter_inv fresh_pool
  by (auto simp: start_parts_def Let_def split: option.splits sum.splits)

text \<open>Settings that the command line accepts are settings that every part accepts.\<close>

lemma accepted_config:
  assumes "check_server_config s = Inr ()"
  shows "validate_bounded_exec_caps s = Inr ()" "0 < xc_workers s" "0 < xc_lean_processes s"
    "xc_in_flight s = - 1 \<or> 0 < xc_in_flight s" "- 1 \<le> xc_queued s" "- 1 \<le> xc_store_bytes s"
  using assms
  by (auto simp: check_server_config_def positive_fields_def validate_bounded_exec_caps_def check_cap_def Let_def
      split: if_splits sum.splits)

lemma accepted_parts:
  assumes "check_server_config (sg_config (lv_settings c)) = Inr ()" "0 < lv_retention c" "- 1 \<le> lv_uses c" "0 < lv_startup_s c"
  shows "\<exists>a'. start_parts c a = (None, a')"
  using accepted_config [OF assms(1)] assms(2-)
  by (auto simp: start_parts_def Let_def new_registry_def new_limiter_def new_pool_def)

text \<open>The lock file is none of the store's files.\<close>

lemma lock_not_tracked: "state_path t \<noteq> lock_name" "metadata_path t \<noteq> lock_name"
proof -
  have "last (state_path t) \<noteq> last lock_name" "last (metadata_path t) \<noteq> last lock_name"
    by (simp_all add: state_path_def metadata_path_def lock_name_def lit_def)
  then show "state_path t \<noteq> lock_name" "metadata_path t \<noteq> lock_name" by metis+
qed

lemma run_inv_lock_file: "run_inv st \<Longrightarrow> run_inv (st\<lparr>st_files := dset lock_name f (st_files st)\<rparr>)"
  using lock_not_json
  by (auto simp: run_inv_def names_ok_def store_inv_def files_ok_def record_files_def lock_not_tracked has_state_def
      index_ok_def records_ok_def items_ok_def index_agrees_def tokens_of_item_def pins_ok_def)

lemma run_inv_acquired:
  assumes "run_inv old" "st_files old = lf_files fs" "acquire_lock p now None fs = (held, fs1)"
  shows "\<exists>old'. run_inv old' \<and> st_files old' = lf_files fs1 \<and> st_records old' = st_records old"
proof -
  have "lf_files fs1 = lf_files fs \<or> (\<exists>f. lf_files fs1 = dset lock_name f (lf_files fs)) \<or>
      (\<exists>f g. lf_files fs1 = dset lock_name g (dset lock_name f (lf_files fs)))"
    using assms(3) by (auto simp: acquire_lock_def lock_defs split: if_splits)
  then show ?thesis
  proof (elim disjE exE)
    fix f assume "lf_files fs1 = dset lock_name f (lf_files fs)"
    then show ?thesis using run_inv_lock_file [OF assms(1), of f] assms(2)
      by (intro exI [of _ "old\<lparr>st_files := dset lock_name f (st_files old)\<rparr>"]) simp
  next
    fix f g assume "lf_files fs1 = dset lock_name g (dset lock_name f (lf_files fs))"
    then show ?thesis using run_inv_lock_file [OF run_inv_lock_file [OF assms(1), of f], of g] assms(2)
      by (intro exI [of _ "old\<lparr>st_files := dset lock_name g (dset lock_name f (st_files old))\<rparr>"]) simp
  qed (use assms in auto)
qed

section \<open>Properties\<close>

text \<open>What a start in exec mode, successful or not, leaves to the \<open>finally\<close>.\<close>

lemma start_exec_made:
  assumes "start_exec p now c fs = (err, a, fs')" "dget (lf_owner fs) (lf_fresh fs) = None"
  shows "\<not> sa_connected a \<and> (err \<noteq> None \<longrightarrow> sa_pool a = None \<and> \<not> sa_collecting a) \<and>
    (sa_lock a = None \<and> lf_owner fs' = lf_owner fs \<and> (xc_single (sg_config (lv_settings c)) \<longrightarrow> err \<noteq> None) \<or>
     (\<exists>i. sa_lock a = Some i \<and> lf_owner fs' = dset i p (lf_owner fs) \<and> dget (lf_owner fs) i = None))"
proof (cases "validate_bounded_exec_caps (sg_config (lv_settings c))")
  case (Inl e)
  with assms show ?thesis by (auto simp: start_exec_def Let_def no_app_def)
next
  case (Inr u)
  let ?single = "xc_single (sg_config (lv_settings c))"
  obtain held fs1 where acq: "(if ?single then acquire_lock p now None fs else (None, fs)) = (held, fs1)" by fastforce
  have lock: "held = None \<and> lf_owner fs1 = lf_owner fs \<or>
      (\<exists>i. held = Some i \<and> lf_owner fs1 = dset i p (lf_owner fs) \<and> dget (lf_owner fs) i = None)"
    using acq acquire_kept [of p now fs held fs1] assms(2) by (cases held) (auto split: if_splits)
  show ?thesis
  proof (cases "?single \<and> held = None")
    case True
    with assms Inr acq lock show ?thesis by (auto simp: start_exec_def Let_def no_app_def)
  next
    case False
    have "sa_lock a = held \<and> lf_owner fs' = lf_owner fs1 \<and> \<not> sa_connected a \<and>
        (err \<noteq> None \<longrightarrow> sa_pool a = None \<and> \<not> sa_collecting a)"
      using False assms Inr acq
      by (auto simp: start_exec_def Let_def no_app_def split: sum.splits prod.splits dest!: start_parts_keeps)
    with lock False show ?thesis by auto
  qed
qed

lemma release_other: "dget (lf_owner (release_lock (Some i) fs)) j = (if j = i then None else dget (lf_owner fs) j)"
  by (simp add: release_lock_def lock_defs)

lemma stop_facts:
  assumes "stop_app closes disconnects a fs = (err, a', fs')"
  shows "\<not> sa_collecting a'" "sa_pool a' = map_option cleanup_pool (sa_pool a)"
    "err = None \<longleftrightarrow> (\<forall>q. sa_pool a = Some q \<longrightarrow> (\<forall>l\<in>set (pl_free q @ pl_busy q). closes (ls_id l))) \<and>
       (sa_connected a \<longrightarrow> disconnects)"
    "err = None \<Longrightarrow> fs' = release_lock (sa_lock a) fs \<and> sa_lock a' = None \<and> \<not> sa_connected a' \<and>
       sa_manager a' = map_option cleanup_repls (sa_manager a)"
    "err \<noteq> None \<Longrightarrow> fs' = fs \<and> sa_lock a' = sa_lock a"
proof -
  have all: "list_all closes (case sa_pool a of None \<Rightarrow> [] | Some p \<Rightarrow> map ls_id (pl_free p @ pl_busy p)) \<longleftrightarrow>
      (\<forall>q. sa_pool a = Some q \<longrightarrow> (\<forall>l\<in>set (pl_free q @ pl_busy q). closes (ls_id l)))"
    by (cases "sa_pool a") (auto simp: list_all_iff)
  show "\<not> sa_collecting a'" "sa_pool a' = map_option cleanup_pool (sa_pool a)"
    "err = None \<longleftrightarrow> (\<forall>q. sa_pool a = Some q \<longrightarrow> (\<forall>l\<in>set (pl_free q @ pl_busy q). closes (ls_id l))) \<and>
       (sa_connected a \<longrightarrow> disconnects)"
    "err = None \<Longrightarrow> fs' = release_lock (sa_lock a) fs \<and> sa_lock a' = None \<and> \<not> sa_connected a' \<and>
       sa_manager a' = map_option cleanup_repls (sa_manager a)"
    "err \<noteq> None \<Longrightarrow> fs' = fs \<and> sa_lock a' = sa_lock a"
    using assms unfolding all [symmetric] by (auto simp: stop_app_def Let_def split: if_splits)
qed


text \<open>The default settings of a machine with four workers, on an empty directory.\<close>

definition demo_life :: life_settings where
  "demo_life = \<lparr>lv_settings = \<lparr>sg_mode = ModeExec, sg_config = fill_config 4 []\<rparr>, lv_ttl = 3600, lv_retention = 660,
     lv_uses = - 1, lv_startup_s = 600, lv_repls = 4, lv_repl_uses = - 1, lv_init = [], lv_database = None\<rparr>"

definition demo_old_store :: store where
  "demo_old_store = \<lparr>st_ttl = 1, st_max_bytes = 1, st_records = [], st_by_item = [], st_pins = [], st_files = []\<rparr>"

lemma demo_config: "check_server_config (fill_config 4 []) = Inr ()"
  by (simp add: check_server_config_def positive_fields_def validate_bounded_exec_caps_def check_cap_def fill_config_def
      get_int_def get_bool_def Let_def default_max_in_flight_def default_max_queued_def default_max_state_store_bytes_def)

definition demo_world :: verify_world where
  "demo_world = \<lparr>vw_connects = False, vw_deadline = 60, vw_worlds = [], vw_order = [], vw_broken = ms_pool (new_manager 1 1)\<rparr>"



text \<open>A server that runs, leases a worker that cannot be closed and ends.\<close>

definition demo_run :: "server_app \<times> lock_fs \<Rightarrow> server_app \<times> lock_fs" where
  "demo_run af = (case af of (a, fs) \<Rightarrow>
     (a\<lparr>sa_pool := map_option (\<lambda>q. q\<lparr>pl_busy := [\<lparr>ls_id = 0, ls_env = [], ls_header = [], ls_hash = [], ls_used = 0, ls_uses = 1\<rparr>]\<rparr>)
         (sa_pool a), sa_connected := False\<rparr>, fs))"


end
