(* ===== verification/Backend.thy ===== *)
theory Backend
  imports ExecEnv Clients ExecRoutes StepBatch
begin

text \<open>
  The two ends of a step request: \<open>AsyncLeanExecBackend\<close> of the client's \<open>exec_backend.py\<close>, which connects
  and coalesces steps, and the route \<open>/exec/step_batch\<close> of \<open>server/routers/exec.py\<close>, which admits, checks
  and counts a request before and after it runs.
\<close>

section \<open>The route\<close>

text \<open>The \<open>StepBatchBackendConfig\<close> that the route makes of the settings.\<close>

definition server_caps :: "exec_config \<Rightarrow> batch_caps" where
  "server_caps c = \<lparr>cap_items = xc_items c, cap_tactics = xc_tactics c, cap_attempts = xc_attempts c,
     cap_lanes = xc_lean_processes c, cap_acquire_ms = xc_acquire c, cap_step_ms = xc_step c\<rparr>"

definition size_of_item :: "batch_item \<Rightarrow> item_size" where
  "size_of_item i = (int (length (bi_tactics i)), bi_acquire_ms i, bi_step_ms i)"

datatype 'r step_reply = StepAnswer 'r | StepRefused cap_error | StepBusy

text \<open>
  \<open>admitted\<close>: the request limiter gave a slot; \<open>run\<close> is the execution of the batch on the state of the
  server, and \<open>words\<close> the statuses of its results.
\<close>

definition step_batch_route ::
  "exec_config \<Rightarrow> bool \<Rightarrow> ('s \<Rightarrow> batch_item list \<Rightarrow> 'r \<times> 's) \<Rightarrow> ('r \<Rightarrow> pystr list) \<Rightarrow> batch_item list \<Rightarrow> 's \<times> metrics \<Rightarrow>
     'r step_reply \<times> 's \<times> metrics" where
  "step_batch_route c admitted run words items sm =
     (let (s, m) = sm
      in if \<not> admitted then (StepBusy, s, record_rejection (lit ''step_batch.request_limiter'') m)
         else case validate_step_batch_caps (server_caps c) (map size_of_item items) of
                Inl e \<Rightarrow> (StepRefused e, s, record_rejection (lit ''step_batch.cap'') m)
              | Inr _ \<Rightarrow>
                  (let (r, s') = run s items
                   in (StepAnswer r, s', record_exec_statuses (words r) (record_endpoint (lit ''step_batch'') m))))"

definition step_status_code :: "'r step_reply \<Rightarrow> int" where
  "step_status_code r = (case r of StepAnswer _ \<Rightarrow> 200 | StepRefused _ \<Rightarrow> 422 | StepBusy \<Rightarrow> 503)"

section \<open>The backend\<close>

record exec_backend =
  eb_client :: http_client
  eb_env :: exec_env
  eb_batcher :: batcher
  eb_open :: bool

datatype connect_error = LimitsUnavailable query_error | NotConnected env_error

text \<open>
  \<open>connect\<close>; \<open>got\<close> is what \<open>GET /exec/limits\<close> gives.  The session is opened with the client, so the
  flag beside an error says that it is still open.
\<close>

definition connect_backend ::
  "(pystr, pystr) pydict \<Rightarrow> pystr option \<Rightarrow> pystr option \<Rightarrow> pystr \<Rightarrow> int \<Rightarrow> int option \<Rightarrow> int option \<Rightarrow> int \<Rightarrow> int \<Rightarrow> int \<Rightarrow>
     (query_error + limits_response) \<Rightarrow> (connect_error \<times> bool) + exec_backend" where
  "connect_backend environ url key profile timeout acq step n_retries retries backoff got =
     (let client = fst (new_client environ url key [] n_retries); env = new_exec_env profile timeout acq step
      in case got of
           Inl e \<Rightarrow> Inl (LimitsUnavailable e, True)
         | Inr l \<Rightarrow>
             (case from_server_limits l retries backoff of
                Inl e \<Rightarrow> Inl (NotConnected e, True)
              | Inr b \<Rightarrow> Inr \<lparr>eb_client = client, eb_env = env, eb_batcher = b, eb_open = True\<rparr>))"

definition backend_step ::
  "pystr \<Rightarrow> pystr \<Rightarrow> pystr list \<Rightarrow> int option \<Rightarrow> int option \<Rightarrow> int option \<Rightarrow> int list option \<Rightarrow> nat \<Rightarrow> exec_backend \<Rightarrow>
     batcher_error + exec_backend" where
  "backend_step node token tactics timeout acq step goal_group future bk =
     (case submit \<lparr>qs_item = step_item (eb_env bk) node token tactics timeout acq step goal_group, qs_future = future\<rparr>
             (eb_batcher bk) of
        Inl e \<Rightarrow> Inl e
      | Inr b \<Rightarrow> Inr (bk\<lparr>eb_batcher := b\<rparr>))"

definition close_backend :: "exec_backend \<Rightarrow> exec_backend" where
  "close_backend bk = bk\<lparr>eb_batcher := close_batcher (eb_batcher bk), eb_open := False\<rparr>"

section \<open>Facts\<close>

lemma alone_accepted:
  assumes "validate_step_batch_caps (server_caps c) [size_of_item i] = Inr ()"
  shows "case size_of_item i of (n, a, s) \<Rightarrow> n \<le> xc_tactics c \<and> a \<le> xc_acquire c \<and> s \<le> xc_step c"
  using assms unfolding caps_accepted_iff by (cases "size_of_item i") (simp add: server_caps_def)

lemma together_accepted:
  assumes "\<forall>i\<in>set items. validate_step_batch_caps (server_caps c) [size_of_item i] = Inr ()"
    and "int (length items) \<le> k" "k \<le> xc_items c" "k * xc_tactics c \<le> xc_attempts c" "0 \<le> xc_tactics c"
  shows "validate_step_batch_caps (server_caps c) (map size_of_item items) = Inr ()"
proof -
  have each: "fst (size_of_item i) \<le> xc_tactics c \<and> fst (snd (size_of_item i)) \<le> xc_acquire c \<and> snd (snd (size_of_item i)) \<le> xc_step c"
    if "i \<in> set items" for i
    using alone_accepted [of c i] assms(1) that by (auto split: prod.splits)
  have "\<forall>i\<in>set items. fst (size_of_item i) \<le> xc_tactics c" using each by blast
  then have "sum_list (map fst (map size_of_item items)) \<le> int (length items) * xc_tactics c"
    by (induction items) (simp_all add: algebra_simps)
  also have "\<dots> \<le> k * xc_tactics c" using assms(2,5) by (rule mult_right_mono)
  also have "\<dots> \<le> xc_attempts c" by (rule assms(4))
  finally have "sum_list (map fst (map size_of_item items)) \<le> xc_attempts c" .
  moreover have "list_all (\<lambda>(n, am, sm). n \<le> xc_tactics c \<and> am \<le> xc_acquire c \<and> sm \<le> xc_step c) (map size_of_item items)"
    using each by (fastforce simp: list_all_iff case_prod_unfold)
  ultimately show ?thesis
    using assms(2,3) unfolding caps_accepted_iff by (simp add: server_caps_def)
qed

lemma accepted_submitted: "q \<in> set (accepted b ops) \<Longrightarrow> OpSubmit q \<in> set ops"
  by (induction ops arbitrary: b) (auto split: batcher_op.splits if_splits)

lemma connect_batcher:
  assumes "connect_backend environ url key profile timeout acq step n_retries retries backoff (Inr l) = Inr bk"
  shows "batcher_inv (eb_batcher bk) \<and> int (bt_max_items (eb_batcher bk)) = lr_rec_items l \<and>
    bt_batches (eb_batcher bk) = [] \<and> bt_queue (eb_batcher bk) = []"
  using assms
  by (auto simp: connect_backend_def Let_def from_server_limits_def new_batcher_def batcher_inv_def split: sum.splits if_splits)

section \<open>Properties\<close>


definition demo_step :: queued where
  "demo_step = \<lparr>qs_item = \<lparr>bi_node = lit ''n'', bi_token = lit ''st_a'', bi_tactics = [lit ''simp''], bi_acquire_ms = 5000,
     bi_step_ms = 5000, bi_goal_id = None, bi_resume = None, bi_group = None\<rparr>, qs_future = 0\<rparr>"


text \<open>
  Nothing keeps the recommended batch within the cap of attempts: from 129 workers on the defaults
  recommend batches that are refused when their steps have as many tactics as each may have.
\<close>

lemma default_batch_refused:
  assumes "length (bi_tactics i) = 64" "bi_acquire_ms i = 5000" "bi_step_ms i = 5000"
  shows "check_server_config (fill_config 129 []) = Inr ()" "xc_rec_items (fill_config 129 []) = 129"
    "validate_step_batch_caps (server_caps (fill_config 129 [])) [size_of_item i] = Inr ()"
    "validate_step_batch_caps (server_caps (fill_config 129 [])) (map size_of_item (replicate 129 i)) = Inl TooManyAttempts"
proof -
  have caps: "server_caps (fill_config 129 []) = \<lparr>cap_items = 1024, cap_tactics = 64, cap_attempts = 8192, cap_lanes = 129,
      cap_acquire_ms = 600000, cap_step_ms = 600000\<rparr>"
    by code_simp
  show "check_server_config (fill_config 129 []) = Inr ()" "xc_rec_items (fill_config 129 []) = 129" by code_simp+
  show "validate_step_batch_caps (server_caps (fill_config 129 [])) [size_of_item i] = Inr ()"
    unfolding caps using assms by (simp add: validate_step_batch_caps_def size_of_item_def)
  have "check_item_caps \<lparr>cap_items = 1024, cap_tactics = 64, cap_attempts = 8192, cap_lanes = 129,
      cap_acquire_ms = 600000, cap_step_ms = 600000\<rparr> a (map size_of_item (replicate n i)) = Inr (a + int n * 64)" for a n
    using assms by (induction n arbitrary: a) (simp_all add: size_of_item_def)
  from this [of 0 129] show "validate_step_batch_caps (server_caps (fill_config 129 [])) (map size_of_item (replicate 129 i)) = Inl TooManyAttempts"
    unfolding caps by (simp add: validate_step_batch_caps_def ensure_def)
qed

text \<open>A connection that fails leaves its session open, and there is no backend to close it with.\<close>

lemma failed_connect_leaks:
  "connect_backend environ url key profile timeout acq step n_retries retries backoff got = Inl (e, still_open) \<Longrightarrow> still_open"
  by (auto simp: connect_backend_def Let_def split: sum.splits)

end
