(* ===== verification/Mining.thy ===== *)
theory Mining
  imports JsonText "HOL-Library.Multiset"
begin

text \<open>
  \<open>examples/pantograph_benchmark/mining.py\<close>: complete Lean proofs become benchmark workloads, a root state
  with \<open>sorry\<close> and the tactic units of the proof's body.  Which characters are part of a word (\<open>\w\<close> of
  Python's regular expressions) is the argument \<open>word\<close>; the hash of a source and the shuffles of the random
  generator are arguments, too.
\<close>

section \<open>Comments\<close>

fun strip_blocks :: "nat \<Rightarrow> pystr \<Rightarrow> pystr" where
  "strip_blocks depth [] = []"
| "strip_blocks depth [c] = (if depth = 0 then [c] else [])"
| "strip_blocks depth (a # b # s) =
     (if a = 47 \<and> b = 45 then strip_blocks (Suc depth) s
      else if a = 45 \<and> b = 47 \<and> 0 < depth then strip_blocks (depth - 1) s
      else if depth = 0 then a # strip_blocks depth (b # s)
      else strip_blocks depth (b # s))"

text \<open>\<open>re.sub("--[^\n]*", "", s)\<close>\<close>

function strip_line_comments :: "pystr \<Rightarrow> pystr" where
  "strip_line_comments [] = []"
| "strip_line_comments (c # s) =
     (if c = 45 \<and> starts_with [45] s then strip_line_comments (dropWhile (\<lambda>d. d \<noteq> 10) s)
      else c # strip_line_comments s)"
  by pat_completeness auto
termination
  by (relation "measure length") (auto simp: less_Suc_eq_le length_dropWhile_le)

definition strip_comments :: "pystr \<Rightarrow> pystr" where
  "strip_comments src = strip_line_comments (strip_blocks 0 src)"

section \<open>Header and body\<close>

text \<open>\<open>\b\<close> between two characters, \<open>None\<close> at the ends of the text\<close>

definition boundary :: "(int \<Rightarrow> bool) \<Rightarrow> int option \<Rightarrow> int option \<Rightarrow> bool" where
  "boundary word a b \<longleftrightarrow> case_option False word a \<noteq> case_option False word b"

definition first_char :: "pystr \<Rightarrow> int option" where
  "first_char s = (case s of [] \<Rightarrow> None | c # cs \<Rightarrow> Some c)"

definition intro_words :: "pystr list" where
  "intro_words = [lit ''theorem'', lit ''lemma'', lit ''example'']"

text \<open>The end of the first match of \<open>\b(theorem|lemma|example)\b\<close>.\<close>

fun search_intro :: "(int \<Rightarrow> bool) \<Rightarrow> int option \<Rightarrow> pystr \<Rightarrow> nat option" where
  "search_intro word prev [] = None"
| "search_intro word prev (c # s) =
     (case find (\<lambda>w. starts_with w (c # s) \<and> boundary word prev (Some c) \<and>
             boundary word (Some (last w)) (first_char (drop (length w) (c # s)))) intro_words of
        Some w \<Rightarrow> Some (length w)
      | None \<Rightarrow> map_option Suc (search_intro word (Some c) s))"

text \<open>The length of a match of \<open>:=\s*by\b\<close> at the start of the text.\<close>

definition match_by :: "(int \<Rightarrow> bool) \<Rightarrow> pystr \<Rightarrow> nat option" where
  "match_by word s =
     (let t = drop 2 s; ws = takeWhile is_space t; r = drop (length ws) t
      in if starts_with (lit '':='') s \<and> starts_with (lit ''by'') r \<and> boundary word (Some (of_char CHR ''y'')) (first_char (drop 2 r))
         then Some (2 + length ws + 2) else None)"

fun search_by :: "(int \<Rightarrow> bool) \<Rightarrow> pystr \<Rightarrow> nat option" where
  "search_by word [] = None"
| "search_by word (c # s) =
     (case match_by word (c # s) of Some n \<Rightarrow> Some n | None \<Rightarrow> map_option Suc (search_by word s))"

definition split_header_body :: "(int \<Rightarrow> bool) \<Rightarrow> pystr \<Rightarrow> (pystr \<times> pystr) option" where
  "split_header_body word full =
     (case search_intro word None full of
        None \<Rightarrow> None
      | Some i \<Rightarrow>
          (case search_by word (drop i full) of
             None \<Rightarrow> None
           | Some n \<Rightarrow> Some (take (i + n) full @ lit '' sorry'', drop (i + n) full)))"

section \<open>Tactic units\<close>

definition indent_of :: "pystr \<Rightarrow> nat" where
  "indent_of line = length line - length (lstrip line)"

definition brackets_balanced :: "pystr \<Rightarrow> bool" where
  "brackets_balanced s \<longleftrightarrow> count_list s 91 = count_list s 93 \<and> count_list s 40 = count_list s 41 \<and>
     count_list s 123 = count_list s 125"

definition unit_is_complete :: "pystr \<Rightarrow> pystr \<Rightarrow> bool" where
  "unit_is_complete joined next_line \<longleftrightarrow> brackets_balanced joined \<and> \<not> ends_with (lit ''<;>'') (rstrip joined) \<and>
     \<not> starts_with (lit ''<;>'') (lstrip next_line)"

text \<open>The loop over the lines: the finished units and the lines of the current one.\<close>

fun gather_units :: "nat \<Rightarrow> pystr list \<Rightarrow> pystr list \<Rightarrow> pystr list \<Rightarrow> pystr list" where
  "gather_units base units cur [] = (if cur = [] then units else units @ [strip (join [10] cur)])"
| "gather_units base units cur (line # lines) =
     (if strip line = [] then gather_units base units cur lines
      else if cur \<noteq> [] \<and> indent_of line \<le> base \<and> unit_is_complete (join [10] cur) line
           then gather_units base (units @ [strip (join [10] cur)]) [line] lines
           else gather_units base units (cur @ [line]) lines)"

definition tokenize_tactics :: "pystr \<Rightarrow> pystr list" where
  "tokenize_tactics body =
     (let lines = split_on 10 (strip_comments body); non_blank = filter (\<lambda>l. strip l \<noteq> []) lines
      in if non_blank = [] then []
         else filter (\<lambda>u. u \<noteq> []) (gather_units (indent_of (hd non_blank)) [] [] lines))"

definition structured_prefixes :: "pystr list" where
  "structured_prefixes = [[183], [183], lit ''case '', lit ''next '', lit ''| '', lit ''{'']"

definition is_structured_proof :: "pystr \<Rightarrow> bool" where
  "is_structured_proof body \<longleftrightarrow>
     list_ex (\<lambda>line. list_ex (\<lambda>p. starts_with p (strip line)) structured_prefixes) (split_on 10 (strip_comments body))"

section \<open>Workloads\<close>

record proof_workload =
  pw_problem :: pystr
  pw_hash :: pystr
  pw_root :: pystr
  pw_units :: "pystr list"

definition mine_row :: "(int \<Rightarrow> bool) \<Rightarrow> (pystr \<Rightarrow> pystr) \<Rightarrow> pystr \<Rightarrow> pystr \<Rightarrow> proof_workload option" where
  "mine_row word hash problem full =
     (case split_header_body word full of
        None \<Rightarrow> None
      | Some (root, body) \<Rightarrow>
          if is_structured_proof body then None
          else if tokenize_tactics body = [] then None
          else Some \<lparr>pw_problem = problem, pw_hash = take 16 (hash full), pw_root = root, pw_units = tokenize_tactics body\<rparr>)"

text \<open>The loop over the shuffled pool; \<open>shuffle1\<close> and \<open>shuffle2\<close> are the two uses of the generator.\<close>

fun add_distractors :: "int \<Rightarrow> pystr list \<Rightarrow> pystr list \<Rightarrow> pystr list" where
  "add_distractors cap [] candidates = candidates"
| "add_distractors cap (t # pool) candidates =
     (if cap \<le> int (length candidates) then candidates
      else if t \<in> set candidates then add_distractors cap pool candidates
      else add_distractors cap pool (candidates @ [t]))"

definition build_candidate_tactics :: "(pystr list \<Rightarrow> pystr list) \<Rightarrow> (pystr list \<Rightarrow> pystr list) \<Rightarrow> pystr \<Rightarrow> pystr list \<Rightarrow> int \<Rightarrow> pystr list" where
  "build_candidate_tactics shuffle1 shuffle2 gold pool cap =
     shuffle2 (add_distractors cap (shuffle1 (filter (\<lambda>t. t \<noteq> gold) pool)) [gold])"

definition distractor_pool :: "proof_workload list \<Rightarrow> pystr list" where
  "distractor_pool ws = foldl (\<lambda>pool t. if t \<in> set pool then pool else pool @ [t]) [] (concat (map pw_units ws))"

text \<open>The rows up to the \<open>n\<close>-th that can be mined; the check comes after the row.\<close>

fun mine_rows :: "(int \<Rightarrow> bool) \<Rightarrow> (pystr \<Rightarrow> pystr) \<Rightarrow> int \<Rightarrow> (pystr \<times> pystr) list \<Rightarrow> proof_workload list \<Rightarrow> proof_workload list" where
  "mine_rows word hash n [] mined = mined"
| "mine_rows word hash n ((problem, full) # rows) mined =
     (let mined' = (case mine_row word hash problem full of None \<Rightarrow> mined | Some w \<Rightarrow> mined @ [w])
      in if n \<le> int (length mined') then mined' else mine_rows word hash n rows mined')"

text \<open>\<open>mined[:n]\<close>, where a negative \<open>n\<close> counts from the end\<close>

definition first_n :: "int \<Rightarrow> 'a list \<Rightarrow> 'a list" where
  "first_n n xs = take (nat (if n < 0 then int (length xs) + n else n)) xs"

text \<open>\<open>build_workload\<close> without a cache\<close>

definition build_workload ::
  "(int \<Rightarrow> bool) \<Rightarrow> (pystr \<Rightarrow> pystr) \<Rightarrow> (proof_workload list \<Rightarrow> proof_workload list) \<Rightarrow> int \<Rightarrow> (pystr \<times> pystr) list \<Rightarrow>
     proof_workload list" where
  "build_workload word hash shuffle n rows = first_n n (shuffle (mine_rows word hash n rows []))"

section \<open>Facts\<close>

lemma strip_line_no_comment: "\<not> contains (lit ''--'') (strip_line_comments s)"
proof (induction s rule: strip_line_comments.induct)
  case (2 c s)
  show ?case
  proof (cases "c = 45 \<and> starts_with [45] s")
    case True
    with 2(1) show ?thesis by simp
  next
    case False
    then have IH: "\<not> contains (lit ''--'') (strip_line_comments s)" by (rule 2(2))
    have "\<not> starts_with (lit ''--'') (c # strip_line_comments s)"
    proof (cases s)
      case (Cons d t)
      have "c = 45 \<Longrightarrow> d \<noteq> 45" using False Cons by auto
      then show ?thesis using Cons by (auto simp: lit_def)
    qed (simp add: lit_def)
    moreover have "strip_line_comments (c # s) = c # strip_line_comments s"
      by (subst strip_line_comments.simps(2)) (rule if_not_P [OF False])
    ultimately show ?thesis using IH by (simp only: contains.simps simp_thms)
  qed
qed (simp add: lit_def)

lemma search_intro_bound: "search_intro word prev s = Some i \<Longrightarrow> i \<le> length s"
proof (induction s arbitrary: prev i)
  case (Cons c s)
  have len: "starts_with w (c # s) \<Longrightarrow> length w \<le> length (c # s)" for w
    by (metis starts_with_iff length_append le_add1)
  show ?case using Cons len by (auto simp: find_Some_iff split: option.splits)
qed simp

lemma match_by_shape:
  assumes "match_by word s = Some n"
  shows "n \<le> length s \<and> (\<exists>ws. take n s = lit '':='' @ ws @ lit ''by'' \<and> list_all is_space ws)"
proof -
  define ws where "ws = takeWhile is_space (drop 2 s)"
  have m: "starts_with (lit '':='') s" "starts_with (lit ''by'') (drop (length ws) (drop 2 s))" "n = 2 + length ws + 2"
    using assms by (auto simp: match_by_def Let_def ws_def split: if_splits)
  obtain t where t: "s = lit '':='' @ t" using m(1) by (auto simp: starts_with_iff)
  then have d: "drop 2 s = t" by (simp add: lit_def)
  have tw: "t = ws @ drop (length ws) t" unfolding ws_def d by (metis dropWhile_eq_drop takeWhile_dropWhile_id)
  obtain r where r: "drop (length ws) t = lit ''by'' @ r" using m(2) unfolding d by (auto simp: starts_with_iff)
  have s: "s = (lit '':='' @ ws @ lit ''by'') @ r" using t tw r by simp
  have n: "n = length (lit '':='' @ ws @ lit ''by'')" using m(3) by simp
  have "list_all is_space ws" unfolding ws_def by (auto simp: list_all_iff dest: set_takeWhileD)
  then show ?thesis unfolding s n by auto
qed

lemma search_by_shape:
  "search_by word s = Some n \<Longrightarrow> n \<le> length s \<and> (\<exists>pre ws. take n s = pre @ lit '':='' @ ws @ lit ''by'' \<and> list_all is_space ws)"
proof (induction s arbitrary: n)
  case (Cons c s)
  show ?case
  proof (cases "match_by word (c # s)")
    case (Some m)
    with Cons.prems match_by_shape [OF Some] show ?thesis by (metis append_Nil option.inject option.simps(5) search_by.simps(2))
  next
    case None
    with Cons.prems obtain m where m: "search_by word s = Some m" "n = Suc m" by auto
    from Cons.IH [OF m(1)] obtain pre ws where "m \<le> length s" "take m s = pre @ lit '':='' @ ws @ lit ''by''" "list_all is_space ws"
      by auto
    then have "take n (c # s) = (c # pre) @ lit '':='' @ ws @ lit ''by''" using m by simp
    with \<open>m \<le> length s\<close> \<open>list_all is_space ws\<close> m show ?thesis by (metis Suc_le_mono length_Cons)
  qed
qed simp

section \<open>What is left of a text without its white space\<close>

definition ink :: "pystr \<Rightarrow> pystr" where
  "ink s = filter (\<lambda>c. \<not> is_space c) s"

lemma ink_append [simp]: "ink (s @ t) = ink s @ ink t"
  by (simp add: ink_def)

lemma ink_spaces: "\<forall>c\<in>set s. is_space c \<Longrightarrow> ink s = []"
  by (simp add: ink_def filter_empty_conv)

lemma ink_rstrip: "ink (rstrip s) = ink s"
proof -
  obtain w where w: "s = rstrip_by is_space s @ w" "\<forall>c\<in>set w. is_space c"
    using rstrip_by_suffix [of s is_space] by blast
  have "ink s = ink (rstrip_by is_space s @ w)" by (rule arg_cong [OF w(1), of ink])
  with ink_spaces [OF w(2)] show ?thesis by (simp add: rstrip_def)
qed

lemma ink_lstrip: "ink (lstrip s) = ink s"
proof -
  have "ink (takeWhile is_space s) = []" by (rule ink_spaces) (auto dest: set_takeWhileD)
  moreover have "ink s = ink (takeWhile is_space s) @ ink (dropWhile is_space s)"
    by (metis ink_append takeWhile_dropWhile_id)
  ultimately show ?thesis by (simp add: lstrip_def lstrip_by_def)
qed

lemma ink_strip [simp]: "ink (strip s) = ink s"
  by (simp add: strip_def ink_rstrip ink_lstrip)

lemma ink_Nil: "ink s = [] \<longleftrightarrow> strip s = []"
  by (simp add: ink_def filter_empty_conv strip_Nil)

lemma ink_join: "ink (join [10] ls) = concat (map ink ls)"
  by (induction "[10::int]" ls rule: join.induct) (auto simp: ink_def is_space_def)

lemma ink_gather: "concat (map ink (gather_units base units cur lines)) = concat (map ink (units @ cur @ lines))"
  by (induction base units cur lines rule: gather_units.induct) (auto simp: ink_join Let_def ink_Nil [symmetric])

lemma gather_units_nonempty:
  "list_all (\<lambda>u. u \<noteq> []) units \<Longrightarrow> list_all (\<lambda>l. strip l \<noteq> []) cur \<Longrightarrow>
     list_all (\<lambda>u. u \<noteq> []) (gather_units base units cur lines)"
proof (induction base units cur lines rule: gather_units.induct)
  case (1 base units cur)
  then show ?case by (cases cur) (auto simp: ink_Nil [symmetric] ink_join)
next
  case (2 base units cur line lines)
  have "strip (join [10] cur) \<noteq> []" if "cur \<noteq> []"
    using 2(5) that by (cases cur) (auto simp: ink_Nil [symmetric] ink_join)
  with 2 show ?case by auto
qed

lemma gather_units_balanced:
  "list_all brackets_balanced units \<Longrightarrow> list_all brackets_balanced (butlast (gather_units base units cur lines))"
proof (induction base units cur lines rule: gather_units.induct)
  case (1 base units cur)
  then show ?case by (auto simp: list_all_iff dest: in_set_butlastD)
next
  case (2 base units cur line lines)
  have "brackets_balanced (strip s) = brackets_balanced s" for s
  proof -
    have "count_list (filter P xs) x = (if P x then count_list xs x else 0)" for P and x :: int and xs
      by (induction xs) auto
    then have c: "count_list s x = count_list (ink s) x" if "\<not> is_space x" for x s
      using that by (simp add: ink_def)
    have "count_list (strip s) x = count_list s x" if "x \<in> {91, 93, 40, 41, 123, 125}" for x
      using that c [of x "strip s"] c [of x s] by (auto simp: is_space_def)
    then show ?thesis by (simp add: brackets_balanced_def)
  qed
  with 2 show ?case by (auto simp: unit_is_complete_def)
qed

lemma if_not_empty: "t = (if P then [] else u) \<Longrightarrow> t \<noteq> [] \<Longrightarrow> t = u"
  by (cases P) auto

lemma filter_all_id: "list_all P xs \<Longrightarrow> filter P xs = xs"
  by (simp add: filter_id_conv list_all_iff)

lemma tokenize_units:
  assumes "tokenize_tactics body \<noteq> []"
  obtains base where "tokenize_tactics body = gather_units base [] [] (split_on 10 (strip_comments body))"
    "list_all (\<lambda>u. u \<noteq> []) (tokenize_tactics body)"
proof -
  let ?lines = "split_on 10 (strip_comments body)"
  let ?base = "indent_of (hd (filter (\<lambda>l. strip l \<noteq> []) ?lines))"
  have all: "list_all (\<lambda>u. u \<noteq> []) (gather_units ?base [] [] ?lines)" by (rule gather_units_nonempty) simp_all
  have whole: "tokenize_tactics body = (if filter (\<lambda>l. strip l \<noteq> []) ?lines = [] then []
      else filter (\<lambda>u. u \<noteq> []) (gather_units ?base [] [] ?lines))"
    unfolding tokenize_tactics_def Let_def by (rule refl)
  then have "tokenize_tactics body = filter (\<lambda>u. u \<noteq> []) (gather_units ?base [] [] ?lines)"
    using assms by (rule if_not_empty)
  moreover have "filter (\<lambda>u. u \<noteq> []) (gather_units ?base [] [] ?lines) = gather_units ?base [] [] ?lines"
    using all by (rule filter_all_id)
  ultimately have "tokenize_tactics body = gather_units ?base [] [] ?lines" by (rule trans)
  moreover from this all have "list_all (\<lambda>u. u \<noteq> []) (tokenize_tactics body)" by (rule forw_subst)
  ultimately show ?thesis by (rule that)
qed

text \<open>
Mining a proof loses nothing of it: the root code is the source up to the theorem's \<open>:= by\<close> with
  \<open>sorry\<close> in place of the rest, and the tactic units in their order are exactly the rest without its
  comments, up to white space.  No unit is empty, and the brackets of every unit but the last are
  balanced.
\<close>

theorem mining_keeps_the_proof:
  assumes "mine_row word hash problem full = Some w"
  shows "\<exists>signature body ws. full = signature @ body \<and> pw_root w = signature @ lit '' sorry'' \<and>
    (\<exists>pre. signature = pre @ lit '':='' @ ws @ lit ''by'') \<and> list_all is_space ws \<and>
    concat (map ink (pw_units w)) = ink (strip_comments body) \<and> pw_units w \<noteq> [] \<and>
    list_all (\<lambda>u. u \<noteq> []) (pw_units w) \<and> list_all brackets_balanced (butlast (pw_units w))"
proof -
  obtain root body where split: "split_header_body word full = Some (root, body)"
    and ne: "tokenize_tactics body \<noteq> []" and w: "pw_root w = root" "pw_units w = tokenize_tactics body"
    using assms by (auto simp: mine_row_def split: option.splits if_splits)
  obtain i n where i: "search_intro word None full = Some i" and n: "search_by word (drop i full) = Some n"
    and rb: "root = take (i + n) full @ lit '' sorry''" "body = drop (i + n) full"
    using split by (auto simp: split_header_body_def split: option.splits)
  obtain pre ws where pre: "take n (drop i full) = pre @ lit '':='' @ ws @ lit ''by''" "list_all is_space ws"
    using search_by_shape [OF n] by auto
  have sig: "take (i + n) full = (take i full @ pre) @ lit '':='' @ ws @ lit ''by''"
    using pre(1) by (simp add: take_add)
  obtain base where tok: "tokenize_tactics body = gather_units base [] [] (split_on 10 (strip_comments body))"
    and nonempty: "list_all (\<lambda>u. u \<noteq> []) (tokenize_tactics body)" using tokenize_units [OF ne] .
  have "concat (map ink (tokenize_tactics body)) = ink (join [10] (split_on 10 (strip_comments body)))"
    unfolding tok by (simp add: ink_gather ink_join del: join_split_on)
  then have units: "concat (map ink (tokenize_tactics body)) = ink (strip_comments body)" by simp
  have bal: "list_all brackets_balanced (butlast (tokenize_tactics body))"
    unfolding tok by (rule gather_units_balanced) simp
  have "\<exists>p. take (i + n) full = p @ lit '':='' @ ws @ lit ''by''" using sig by blast
  moreover have "full = take (i + n) full @ body" using rb(2) by simp
  ultimately show ?thesis
    unfolding w using rb(1) units nonempty bal ne pre(2)
    by - (rule exI [of _ "take (i + n) full"], rule exI [of _ body], rule exI [of _ ws], intro conjI; assumption)
qed

section \<open>Candidates and distractors\<close>

lemma add_distractors_facts:
  assumes "distinct cs" "1 \<le> length cs"
  shows "distinct (add_distractors cap pool cs) \<and> set cs \<subseteq> set (add_distractors cap pool cs) \<and>
    set (add_distractors cap pool cs) \<subseteq> set cs \<union> set pool \<and>
    int (length (add_distractors cap pool cs)) =
      max (int (length cs)) (min cap (int (card (set cs \<union> set pool))))"
  using assms
proof (induction cap pool cs rule: add_distractors.induct)
  case (1 cap cs)
  then show ?case by (simp add: distinct_card)
next
  case (2 cap t pool cs)
  show ?case
  proof (cases "cap \<le> int (length cs)")
    case True
    with 2 show ?thesis by (auto simp: max_def min_def)
  next
    case False
    note cap = False
    have le: "int (length cs) \<le> int (card (set cs \<union> set pool))"
      using card_mono [of "set cs \<union> set pool" "set cs"] 2 by (simp add: distinct_card)
    show ?thesis
    proof (cases "t \<in> set cs")
      case True
      then have "set cs \<union> set (t # pool) = set cs \<union> set pool" by auto
      with 2 cap True show ?thesis by auto
    next
      case False
      have eq: "set (cs @ [t]) \<union> set pool = set cs \<union> set (t # pool)" by auto
      have ih: "distinct (add_distractors cap pool (cs @ [t])) \<and> set (cs @ [t]) \<subseteq> set (add_distractors cap pool (cs @ [t])) \<and>
          set (add_distractors cap pool (cs @ [t])) \<subseteq> set (cs @ [t]) \<union> set pool \<and>
          int (length (add_distractors cap pool (cs @ [t]))) =
            max (int (length (cs @ [t]))) (min cap (int (card (set (cs @ [t]) \<union> set pool))))"
        using 2 cap False by simp
      have "int (length (cs @ [t])) \<le> int (card (set (cs @ [t]) \<union> set pool))"
        using card_mono [of "set (cs @ [t]) \<union> set pool" "set (cs @ [t])"] 2 False
        by (simp add: distinct_card card_insert_if del: Un_insert_left)
      with ih cap False show ?thesis unfolding eq by auto
    qed
  qed
qed

text \<open>
The candidates of a step: whatever the generator does, the gold tactic is among them, none comes
  twice, all others come from the pool, and there are exactly as many as the cap allows and the pool
  has, at least the gold one.
\<close>

theorem candidates_contain_gold:
  assumes "\<And>xs. mset (shuffle1 xs) = mset xs" "\<And>xs. mset (shuffle2 xs) = mset xs"
  shows "gold \<in> set (build_candidate_tactics shuffle1 shuffle2 gold pool cap) \<and>
    distinct (build_candidate_tactics shuffle1 shuffle2 gold pool cap) \<and>
    set (build_candidate_tactics shuffle1 shuffle2 gold pool cap) \<subseteq> insert gold (set pool) \<and>
    int (length (build_candidate_tactics shuffle1 shuffle2 gold pool cap)) =
      max 1 (min cap (int (card (insert gold (set pool)))))"
proof -
  let ?p = "shuffle1 (filter (\<lambda>t. t \<noteq> gold) pool)"
  let ?c = "add_distractors cap ?p [gold]"
  have "set ?p = set (filter (\<lambda>t. t \<noteq> gold) pool)" using assms(1) by (metis set_mset_mset)
  then have sh1: "set ?p = set pool - {gold}" by auto
  have f: "distinct ?c \<and> set [gold] \<subseteq> set ?c \<and> set ?c \<subseteq> set [gold] \<union> set ?p \<and>
      int (length ?c) = max (int (length [gold])) (min cap (int (card (set [gold] \<union> set ?p))))"
    by (rule add_distractors_facts) simp_all
  have un: "set [gold] \<union> set ?p = insert gold (set pool)" using sh1 by auto
  have m: "mset (shuffle2 ?c) = mset ?c" by (rule assms(2))
  have "set (shuffle2 ?c) = set ?c" using m by (metis set_mset_mset)
  moreover have "distinct (shuffle2 ?c)" using f m by (metis mset_eq_imp_distinct_iff)
  moreover have "length (shuffle2 ?c) = length ?c" using m by (metis size_mset)
  ultimately show ?thesis using f unfolding un build_candidate_tactics_def by auto
qed

lemma gold_among_candidates:
  assumes "\<And>xs. mset (shuffle1 xs) = mset xs" "\<And>xs. mset (shuffle2 xs) = mset xs"
  shows "gold \<in> set (build_candidate_tactics shuffle1 shuffle2 gold pool cap)"
  using candidates_contain_gold [of shuffle1 shuffle2] assms by blast

lemma distractor_pool_facts:
  "distinct (distractor_pool ws) \<and> set (distractor_pool ws) = (\<Union>w\<in>set ws. set (pw_units w))"
proof -
  let ?f = "\<lambda>pool t. if t \<in> set pool then pool else pool @ [t]"
  have "distinct p \<Longrightarrow> distinct (foldl ?f p ts) \<and> set (foldl ?f p ts) = set p \<union> set ts" for p and ts :: "pystr list"
    by (induction ts arbitrary: p) auto
  then show ?thesis by (simp add: distractor_pool_def)
qed

lemma mine_rows_facts:
  assumes "int (length mined) < n" "\<forall>w\<in>set mined. \<exists>r\<in>set rows0. mine_row word hash (fst r) (snd r) = Some w"
    and "set rows \<subseteq> set rows0"
  shows "int (length (mine_rows word hash n rows mined)) \<le> n \<and>
    (\<forall>w\<in>set (mine_rows word hash n rows mined). \<exists>r\<in>set rows0. mine_row word hash (fst r) (snd r) = Some w)"
  using assms
proof (induction word hash n rows mined rule: mine_rows.induct)
  case (2 word hash n problem full rows mined)
  let ?m = "case mine_row word hash problem full of None \<Rightarrow> mined | Some w \<Rightarrow> mined @ [w]"
  have facts: "int (length ?m) \<le> n" "\<forall>w\<in>set ?m. \<exists>r\<in>set rows0. mine_row word hash (fst r) (snd r) = Some w"
    using 2(2-) by (auto split: option.split intro!: bexI [of _ "(problem, full)"])
  show ?case
  proof (cases "n \<le> int (length ?m)")
    case True
    with facts show ?thesis by (simp only: mine_rows.simps Let_def if_True simp_thms)
  next
    case False
    then have lt: "int (length ?m) < n" by simp
    have sub: "set rows \<subseteq> set rows0" using 2(4) by simp
    have eq: "mine_rows word hash n ((problem, full) # rows) mined = mine_rows word hash n rows ?m"
      by (subst mine_rows.simps, unfold Let_def, rule if_not_P [OF False])
    show ?thesis unfolding eq by (rule 2(1) [OF refl False lt facts(2) sub])
  qed
qed simp

text \<open>
  A workload has at most the proofs asked for, each mined from one of the rows, whatever the order the
  generator gives them.
\<close>

theorem workload_from_rows:
  assumes "1 \<le> n" "\<And>xs. mset (shuffle xs) = mset xs"
  shows "int (length (build_workload word hash shuffle n rows)) \<le> n \<and>
    (\<forall>w\<in>set (build_workload word hash shuffle n rows). \<exists>r\<in>set rows. mine_row word hash (fst r) (snd r) = Some w)"
proof -
  let ?m = "mine_rows word hash n rows []"
  have "set (shuffle ?m) = set ?m" using assms(2) [of ?m] by (metis set_mset_mset)
  moreover have "length (build_workload word hash shuffle n rows) \<le> nat n"
    using assms(1) by (simp add: build_workload_def first_n_def)
  moreover have "set (build_workload word hash shuffle n rows) \<subseteq> set (shuffle ?m)"
    by (auto simp: build_workload_def first_n_def dest: in_set_takeD)
  ultimately show ?thesis using mine_rows_facts [of "[]" n rows word hash rows] assms(1) by auto
qed

section \<open>Examples\<close>

definition ascii_word :: "int \<Rightarrow> bool" where
  "ascii_word c \<longleftrightarrow> 48 \<le> c \<and> c \<le> 57 \<or> 65 \<le> c \<and> c \<le> 90 \<or> c = 95 \<or> 97 \<le> c \<and> c \<le> 122"

definition demo_source :: pystr where
  "demo_source = lit ''theorem t : 1 = 1 := by'' @ [10] @ lit ''  have h := f ['' @ [10] @ lit ''    1]'' @ [10] @
     lit ''  simp -- done'' @ [10] @ lit ''    <;> rfl'' @ [10]"

lemma demo_mined:
  "map_option pw_units (mine_row ascii_word (\<lambda>s. s) (lit ''p'') demo_source) =
     Some [lit ''have h := f ['' @ [10] @ lit ''    1]'', lit ''simp'' @ [32, 10] @ lit ''    <;> rfl'']"
  by code_simp

text \<open>A line comment that mentions a block comment's opening takes the rest of the proof with it.\<close>

lemma line_comment_opens_block:
  "tokenize_tactics (lit ''simp -- see /- below'' @ [10] @ lit ''rfl'') = [lit ''simp'']"
  by code_simp

end
