(* ===== verification/Replay.thy ===== *)
theory Replay
  imports Mining
begin

text \<open>
  \<open>examples/pantograph_benchmark/replay.py\<close> and the counters of \<open>metrics.py\<close>: the mined workloads are
  replayed against the \<open>/exec\<close> server, level by level, and their states are cleaned up whatever happens.
  What the server answers to the requests of a phase is an argument; the latencies are left out.
\<close>

section \<open>Counters\<close>

record microbatch_record =
  mr_path :: pystr
  mr_id :: pystr
  mr_items :: nat
  mr_tactics :: nat

record collector =
  co_batches :: "microbatch_record list"
  co_counts :: "(pystr, int) pydict"
  co_status :: "(pystr, int) pydict"
  co_create_items :: int
  co_created :: int
  co_step_items :: int
  co_step_results :: int
  co_requests :: int

definition bump :: "pystr \<Rightarrow> (pystr, int) pydict \<Rightarrow> (pystr, int) pydict" where
  "bump k c = dset k (dget_or c k 0 + 1) c"

definition record_status :: "pystr \<Rightarrow> collector \<Rightarrow> collector" where
  "record_status s c = c\<lparr>co_status := bump s (co_status c)\<rparr>"

text \<open>\<open>endpoint.strip("/").replace("/", "_")\<close> and the running number\<close>

definition normal_endpoint :: "pystr \<Rightarrow> pystr" where
  "normal_endpoint p = map (\<lambda>c. if c = 47 then 95 else c) (rstrip_by (\<lambda>c. c = 47) (lstrip_by (\<lambda>c. c = 47) p))"

definition record_microbatch :: "pystr \<Rightarrow> nat \<Rightarrow> nat \<Rightarrow> collector \<Rightarrow> collector" where
  "record_microbatch path items tactics c =
     c\<lparr>co_counts := bump path (co_counts c),
       co_batches := co_batches c @ [\<lparr>mr_path = path,
         mr_id = normal_endpoint path @ [58] @ str_int (dget_or (co_counts c) path 0),
         mr_items = items, mr_tactics = tactics\<rparr>]\<rparr>"

section \<open>Requests\<close>

text \<open>A request ends with an \<open>httpx\<close> error, a status, an answer, or an answer that is no JSON, which raises.\<close>

datatype 'r http_outcome = HttpxError pystr | StatusError int | Answered 'r | NoJson

text \<open>\<open>_post\<close>: \<open>Inl ()\<close> is the exception, \<open>Inr None\<close> a request without an answer.\<close>

definition post_one :: "pystr \<Rightarrow> nat \<Rightarrow> nat \<Rightarrow> 'r http_outcome \<Rightarrow> collector \<Rightarrow> (unit + 'r option) \<times> collector" where
  "post_one path items tactics out c =
     (let c1 = record_microbatch path items tactics c; c2 = c1\<lparr>co_requests := co_requests c1 + 1\<rparr>
      in case out of
           HttpxError e \<Rightarrow> (Inr None, record_status (lit ''http_error:'' @ e) c2)
         | StatusError n \<Rightarrow> (Inr None, record_status (lit ''http_'' @ str_int n) c2)
         | Answered r \<Rightarrow> (Inr (Some r), c2)
         | NoJson \<Rightarrow> (Inl (), c2))"

text \<open>
  \<open>_fan_out\<close>: the semaphore lets the payloads start in their order, so the running numbers are those of
  the payloads; the answers come back in that order whatever order they arrive in.
\<close>

fun fan_out :: "pystr \<Rightarrow> ('p \<Rightarrow> nat) \<Rightarrow> ('p \<Rightarrow> nat) \<Rightarrow> ('p \<times> 'r http_outcome) list \<Rightarrow> collector \<Rightarrow>
    (unit + 'r option list) \<times> collector" where
  "fan_out path items tactics [] c = (Inr [], c)"
| "fan_out path items tactics ((p, out) # ps) c =
     (let (r, c1) = post_one path (items p) (tactics p) out c; (rs, c2) = fan_out path items tactics ps c1
      in (ebind r (\<lambda>x. ebind rs (\<lambda>xs. Inr (x # xs))), c2))"

text \<open>\<open>_chunks\<close>; \<open>None\<close>: \<open>range\<close> refuses a zero step.\<close>

definition payloads_of :: "int \<Rightarrow> 'a list \<Rightarrow> 'a list list option" where
  "payloads_of n xs = (if n = 0 then None else if n < 0 then Some [] else Some (chunks (nat n) xs))"

section \<open>The replay\<close>

record replay_config =
  rf_run :: pystr
  rf_items :: int
  rf_tactics :: int
  rf_depth :: int

record active_state =
  as_item :: pystr
  as_problem :: pystr
  as_token :: pystr
  as_gold :: nat

type_synonym workload_index = "(pystr, proof_workload) pydict"

definition item_id_for :: "pystr \<Rightarrow> pystr \<Rightarrow> pystr" where
  "item_id_for run problem = lit ''bench:'' @ run @ [58] @ problem"

definition workload_index :: "pystr \<Rightarrow> proof_workload list \<Rightarrow> workload_index" where
  "workload_index run ws = foldl (\<lambda>d w. dset (item_id_for run (pw_problem w)) w d) [] ws"

text \<open>The answers, as far as the replay reads them; a created root has the tokens of its states.\<close>

record root_answer =
  ra_item :: pystr
  ra_status :: pystr
  ra_tokens :: "pystr list"

record tactic_answer =
  ta_tactic :: pystr
  ta_status :: pystr
  ta_token :: "pystr option"

record node_answer =
  na_node :: pystr
  na_results :: "tactic_answer list"

definition all_answers :: "'r list option list \<Rightarrow> 'r list" where
  "all_answers rs = concat (map (\<lambda>r. case r of None \<Rightarrow> [] | Some xs \<Rightarrow> xs) rs)"

text \<open>The loop of \<open>_create_roots\<close> over the answers; \<open>None\<close> is the \<open>KeyError\<close> of an unknown item.\<close>

fun open_roots :: "workload_index \<Rightarrow> root_answer list \<Rightarrow> collector \<Rightarrow> active_state list option \<times> collector" where
  "open_roots index [] c = (Some [], c)"
| "open_roots index (r # rs) c =
     (let c1 = record_status (ra_status r) c
      in if ra_status r = lit ''open'' \<and> ra_tokens r \<noteq> []
         then (case dget index (ra_item r) of
                 None \<Rightarrow> (None, c1\<lparr>co_created := co_created c1 + 1\<rparr>)
               | Some w \<Rightarrow>
                   (let (more, c2) = open_roots index rs (c1\<lparr>co_created := co_created c1 + 1\<rparr>)
                    in (map_option ((#) \<lparr>as_item = ra_item r, as_problem = pw_problem w, as_token = hd (ra_tokens r), as_gold = 0\<rparr>) more, c2)))
         else open_roots index rs c1)"

record node_request =
  sn_node :: pystr
  sn_token :: pystr
  sn_tactics :: "pystr list"

definition node_id :: "nat \<Rightarrow> active_state \<Rightarrow> pystr" where
  "node_id depth s = as_item s @ lit '':d'' @ str_int (int depth)"

definition node_states :: "nat \<Rightarrow> active_state list \<Rightarrow> (pystr, active_state) pydict" where
  "node_states depth ss = foldl (\<lambda>d s. dset (node_id depth s) s d) [] ss"

text \<open>The gold tactic of a state; \<open>None\<close>: its item is unknown or its proof has no such unit.\<close>

definition gold_of :: "workload_index \<Rightarrow> active_state \<Rightarrow> pystr option" where
  "gold_of index s =
     (case dget index (as_item s) of
        None \<Rightarrow> None
      | Some w \<Rightarrow> if as_gold s < length (pw_units w) then Some (pw_units w ! as_gold s) else None)"

text \<open>The items of a level; \<open>gens\<close> are the uses of the level's generator, two for each item.\<close>

fun step_nodes :: "workload_index \<Rightarrow> replay_config \<Rightarrow> pystr list \<Rightarrow> (nat \<Rightarrow> pystr list \<Rightarrow> pystr list) \<Rightarrow> nat \<Rightarrow>
    (pystr \<times> active_state) list \<Rightarrow> node_request list option" where
  "step_nodes index cfg pool gens i [] = Some []"
| "step_nodes index cfg pool gens i ((node, s) # rest) =
     (case gold_of index s of
        None \<Rightarrow> None
      | Some gold \<Rightarrow>
          map_option ((#) \<lparr>sn_node = node, sn_token = as_token s,
              sn_tactics = build_candidate_tactics (gens i) (gens (Suc i)) gold pool (rf_tactics cfg)\<rparr>)
            (step_nodes index cfg pool gens (Suc (Suc i)) rest))"

text \<open>One answered node: the statuses are counted, and the state that the gold tactic leads to goes on.\<close>

definition count_results :: "tactic_answer list \<Rightarrow> collector \<Rightarrow> collector" where
  "count_results rs c = foldl (\<lambda>c r. let c1 = record_status (ta_status r) c in c1\<lparr>co_step_results := co_step_results c1 + 1\<rparr>) c rs"

definition next_state :: "proof_workload \<Rightarrow> pystr \<Rightarrow> active_state \<Rightarrow> tactic_answer list \<Rightarrow> active_state option" where
  "next_state w gold s rs =
     (case find (\<lambda>r. ta_tactic r = gold) rs of
        None \<Rightarrow> None
      | Some r \<Rightarrow>
          (case ta_token r of
             None \<Rightarrow> None
           | Some t \<Rightarrow>
               if ta_status r = lit ''open'' \<and> t \<noteq> [] \<and> as_gold s + 1 < length (pw_units w)
               then Some (s\<lparr>as_token := t, as_gold := as_gold s + 1\<rparr>) else None))"

fun next_level :: "workload_index \<Rightarrow> (pystr, active_state) pydict \<Rightarrow> node_answer list \<Rightarrow> collector \<Rightarrow>
    active_state list option \<times> collector" where
  "next_level index nodes [] c = (Some [], c)"
| "next_level index nodes (a # as) c =
     (case dget nodes (na_node a) of
        None \<Rightarrow> (None, c)
      | Some s \<Rightarrow>
          (case (dget index (as_item s), gold_of index s) of
             (Some w, Some gold) \<Rightarrow>
               (let (more, c1) = next_level index nodes as (count_results (na_results a) c)
                in (map_option (\<lambda>xs. case next_state w gold s (na_results a) of None \<Rightarrow> xs | Some x \<Rightarrow> x # xs) more, c1))
           | _ \<Rightarrow> (None, c)))"

text \<open>What the server answers in each phase, and the generators of the levels.\<close>

record replay_world =
  wo_create :: "(pystr \<times> pystr) list list \<Rightarrow> root_answer list http_outcome list"
  wo_step :: "nat \<Rightarrow> node_request list list \<Rightarrow> node_answer list http_outcome list"
  wo_clean :: "pystr list list \<Rightarrow> (int \<times> int) list http_outcome list"
  wo_shuffles :: "nat \<Rightarrow> nat \<Rightarrow> pystr list \<Rightarrow> pystr list"

definition create_roots :: "replay_world \<Rightarrow> replay_config \<Rightarrow> workload_index \<Rightarrow> collector \<Rightarrow> active_state list option \<times> collector" where
  "create_roots w cfg index c =
     (let items = map (\<lambda>(item, wl). (item, pw_root wl)) index; c1 = c\<lparr>co_create_items := co_create_items c + int (length items)\<rparr>
      in case payloads_of (rf_items cfg) items of
           None \<Rightarrow> (None, c1)
         | Some payloads \<Rightarrow>
             (case fan_out (lit ''/exec/create_states'') length (\<lambda>p. 0) (zip payloads (wo_create w payloads)) c1 of
                (Inl _, c2) \<Rightarrow> (None, c2)
              | (Inr rs, c2) \<Rightarrow> open_roots index (all_answers rs) c2))"

definition step_once :: "replay_world \<Rightarrow> replay_config \<Rightarrow> workload_index \<Rightarrow> pystr list \<Rightarrow> nat \<Rightarrow> active_state list \<Rightarrow> collector \<Rightarrow>
    active_state list option \<times> collector" where
  "step_once w cfg index pool depth active c =
     (let nodes = node_states depth active
      in case step_nodes index cfg pool (wo_shuffles w depth) 0 nodes of
           None \<Rightarrow> (None, c)
         | Some items \<Rightarrow>
             (let c1 = c\<lparr>co_step_items := co_step_items c + int (length items)\<rparr>
              in case payloads_of (rf_items cfg) items of
                   None \<Rightarrow> (None, c1)
                 | Some payloads \<Rightarrow>
                     (case fan_out (lit ''/exec/step_batch'') length (\<lambda>p. sum_list (map (\<lambda>n. length (sn_tactics n)) p))
                         (zip payloads (wo_step w depth payloads)) c1 of
                        (Inl _, c2) \<Rightarrow> (None, c2)
                      | (Inr rs, c2) \<Rightarrow> next_level index nodes (all_answers rs) c2)))"

text \<open>The loop of \<open>run_replay\<close>, with the levels that are left.\<close>

fun replay_levels :: "replay_world \<Rightarrow> replay_config \<Rightarrow> workload_index \<Rightarrow> pystr list \<Rightarrow> nat \<Rightarrow> nat \<Rightarrow> active_state list \<Rightarrow> collector \<Rightarrow>
    active_state list option \<times> collector" where
  "replay_levels w cfg index pool 0 depth active c = (Some active, c)"
| "replay_levels w cfg index pool (Suc k) depth active c =
     (if active = [] then (Some [], c)
      else case step_once w cfg index pool depth active c of
             (None, c1) \<Rightarrow> (None, c1)
           | (Some next, c1) \<Rightarrow> replay_levels w cfg index pool k (Suc depth) next c1)"

text \<open>\<open>_cleanup\<close>: the totals of deleted states and bytes; \<open>None\<close>: it raises.\<close>

definition clean_items :: "replay_world \<Rightarrow> replay_config \<Rightarrow> pystr list \<Rightarrow> collector \<Rightarrow> (int \<times> int) option \<times> collector" where
  "clean_items w cfg item_ids c =
     (if item_ids = [] then (Some (0, 0), c)
      else case payloads_of (rf_items cfg) item_ids of
             None \<Rightarrow> (None, c)
           | Some payloads \<Rightarrow>
               (case fan_out (lit ''/exec/cleanup'') length (\<lambda>p. 0) (zip payloads (wo_clean w payloads)) c of
                  (Inl _, c1) \<Rightarrow> (None, c1)
                | (Inr rs, c1) \<Rightarrow> (Some (sum_list (map fst (all_answers rs)), sum_list (map snd (all_answers rs))), c1)))"

text \<open>\<open>run_replay\<close>: the first component says whether the levels ended without an exception.\<close>

definition run_replay :: "replay_world \<Rightarrow> replay_config \<Rightarrow> proof_workload list \<Rightarrow> pystr list \<Rightarrow> collector \<Rightarrow>
    bool \<times> (int \<times> int) option \<times> collector" where
  "run_replay w cfg workloads pool c =
     (let index = workload_index (rf_run cfg) workloads;
          (ran, c1) = (case create_roots w cfg index c of
                         (None, c1) \<Rightarrow> (None, c1)
                       | (Some active, c1) \<Rightarrow> replay_levels w cfg index pool (nat (rf_depth cfg)) 0 active c1)
      in (ran \<noteq> None, clean_items w cfg (map fst index) c1))"

section \<open>Facts\<close>

lemma split_chunks_facts:
  "0 < k \<Longrightarrow> concat (chunks k xs) = xs \<and> list_all (\<lambda>p. p \<noteq> [] \<and> length p \<le> k) (chunks k xs)"
  using chunks_bounds by (auto simp: concat_chunks list_all_iff)

lemma payloads_concat: "0 < n \<Longrightarrow> payloads_of n xs = Some (chunks (nat n) xs) \<and> concat (chunks (nat n) xs) = xs"
  using split_chunks_facts [of "nat n" xs] by (simp add: payloads_of_def)

lemma payloads_members: "payloads_of n xs = Some ps \<Longrightarrow> p \<in> set ps \<Longrightarrow> set p \<subseteq> set xs"
  using split_chunks_facts [of "nat n" xs] by (auto simp: payloads_of_def split: if_splits) (metis UN_I set_concat)

text \<open>The answers of a phase are the answers of its requests.\<close>

definition answers_in :: "'r http_outcome list \<Rightarrow> 'r list" where
  "answers_in outs = concat (map (\<lambda>out. case out of Answered r \<Rightarrow> [r] | _ \<Rightarrow> []) outs)"

lemma fan_out_answers:
  assumes "NoJson \<notin> set outs"
  shows "\<exists>rs c'. fan_out path f g (zip ps outs) c = (Inr rs, c') \<and> set (all_answers rs) \<subseteq> set (concat (answers_in outs))"
  using assms
proof (induction ps outs arbitrary: c rule: list_induct2')
  case (4 p ps out outs)
  obtain r c1 where r: "post_one path (f p) (g p) out c = (Inr r, c1)"
      "\<And>x. r = Some x \<Longrightarrow> out = Answered x"
    using 4(2) by (cases out) (auto simp: post_one_def Let_def)
  obtain rs c' where rs: "fan_out path f g (zip ps outs) c1 = (Inr rs, c')" "set (all_answers rs) \<subseteq> set (concat (answers_in outs))"
    using 4(1) [of c1] 4(2) by auto
  have "set (all_answers (r # rs)) \<subseteq> set (concat (answers_in (out # outs)))"
    using rs(2) r(2) by (cases r) (auto simp: all_answers_def answers_in_def)
  then show ?case using r(1) rs(1) by simp
qed (simp_all add: all_answers_def)

text \<open>Dictionaries built from a list: \<open>{key(x): x for x in xs}\<close>.\<close>

lemma dset_values: "snd ` set (dset k v d) \<subseteq> insert v (snd ` set d)"
  by (induction d) auto

lemma dset_keys: "fst ` set (dset k v d) = insert k (fst ` set d)"
  using dom_update [of k v d] by (simp add: dom_map_of_conv_image_fst)

lemma fold_dset:
  "(dwf d \<longrightarrow> dwf (foldl (\<lambda>d x. dset (key x) x d) d xs)) \<and>
   snd ` set (foldl (\<lambda>d x. dset (key x) x d) d xs) \<subseteq> snd ` set d \<union> set xs \<and>
   fst ` set (foldl (\<lambda>d x. dset (key x) x d) d xs) = fst ` set d \<union> key ` set xs"
proof (induction xs arbitrary: d)
  case (Cons x xs)
  let ?e = "foldl (\<lambda>d x. dset (key x) x d) (dset (key x) x d) xs"
  note ih = Cons.IH [of "dset (key x) x d"]
  have "snd ` set ?e \<subseteq> snd ` set d \<union> set (x # xs)" using ih dset_values [of "key x" x d] by (simp; blast)
  moreover have "fst ` set ?e = fst ` set d \<union> key ` set (x # xs)" using ih by (simp add: dset_keys insert_commute)
  ultimately show ?case using ih by simp
qed simp

lemma workload_index_keys: "map fst (workload_index run ws) = [] \<longleftrightarrow> ws = []"
  "set (map fst (workload_index run ws)) = (\<lambda>w. item_id_for run (pw_problem w)) ` set ws" "dwf (workload_index run ws)"
  using fold_dset [of "[]" "\<lambda>w. item_id_for run (pw_problem w)" ws]
  by (auto simp: workload_index_def simp flip: set_empty)

lemma dget_fold:
  assumes "dget (foldl (\<lambda>d x. dset (key x) x d) [] xs) k = Some x"
  shows "x \<in> set xs"
  using fold_dset [of "[]" key xs] map_of_SomeD [OF assms] by force

lemma index_value: "dget (workload_index run ws) item = Some w \<Longrightarrow> w \<in> set ws"
  unfolding workload_index_def by (rule dget_fold)

text \<open>A state is on its proof when the unit it is to be stepped with is there.\<close>

definition on_proof :: "workload_index \<Rightarrow> active_state \<Rightarrow> bool" where
  "on_proof index s \<longleftrightarrow> gold_of index s \<noteq> None"

lemma fresh_on_proof:
  "dget index i = Some w \<Longrightarrow> pw_units w \<noteq> [] \<Longrightarrow> on_proof index \<lparr>as_item = i, as_problem = q, as_token = t, as_gold = 0\<rparr>"
  by (simp add: on_proof_def gold_of_def)

lemma open_roots_on_proof:
  assumes "\<forall>r\<in>set rs. dget index (ra_item r) \<noteq> None" "\<forall>i w. dget index i = Some w \<longrightarrow> pw_units w \<noteq> []"
  shows "\<exists>ss c'. open_roots index rs c = (Some ss, c') \<and> list_all (on_proof index) ss"
  using assms(1)
proof (induction rs arbitrary: c)
  case (Cons r rs)
  let ?c = "record_status (ra_status r) c"
  show ?case
  proof (cases "ra_status r = lit ''open'' \<and> ra_tokens r \<noteq> []")
    case True
    obtain w where w: "dget index (ra_item r) = Some w" using Cons.prems by auto
    then have "pw_units w \<noteq> []" using assms(2) by blast
    moreover obtain ss c' where "open_roots index rs (?c\<lparr>co_created := co_created ?c + 1\<rparr>) = (Some ss, c')" "list_all (on_proof index) ss"
      using Cons.IH [of "?c\<lparr>co_created := co_created ?c + 1\<rparr>"] Cons.prems by auto
    ultimately show ?thesis using True fresh_on_proof [OF w] by (simp add: Let_def w)
  next
    case False
    have eq: "open_roots index (r # rs) c = open_roots index rs ?c"
      by (subst open_roots.simps, unfold Let_def, rule if_not_P [OF False])
    show ?thesis unfolding eq using Cons.IH [of ?c] Cons.prems by simp
  qed
qed simp

lemma next_state_on_proof:
  assumes "dget index (as_item s) = Some w" "next_state w gold s rs = Some s'"
  shows "on_proof index s' \<and> as_item s' = as_item s \<and> as_gold s' = Suc (as_gold s)"
  using assms by (auto simp: next_state_def on_proof_def gold_of_def split: option.splits if_splits)

lemma next_level_on_proof:
  assumes "\<forall>a\<in>set as. dget nodes (na_node a) \<noteq> None" "\<forall>k s. dget nodes k = Some s \<longrightarrow> on_proof index s"
  shows "\<exists>ss c'. next_level index nodes as c = (Some ss, c') \<and> list_all (on_proof index) ss"
  using assms(1)
proof (induction as arbitrary: c)
  case (Cons a as)
  obtain s where s: "dget nodes (na_node a) = Some s" using Cons.prems by auto
  then have "on_proof index s" using assms(2) by blast
  then obtain w gold where w: "dget index (as_item s) = Some w" and gold: "gold_of index s = Some gold"
    by (auto simp: on_proof_def gold_of_def split: option.splits if_splits)
  obtain ss c' where "next_level index nodes as (count_results (na_results a) c) = (Some ss, c')" "list_all (on_proof index) ss"
    using Cons.IH [of "count_results (na_results a) c"] Cons.prems by auto
  then show ?case using s w gold next_state_on_proof [OF w] by (auto split: option.split)
qed simp

lemma step_nodes_made:
  assumes "list_all (\<lambda>p. on_proof index (snd p)) nodes"
  shows "\<exists>items. step_nodes index cfg pool gens i nodes = Some items \<and> map sn_node items = map fst nodes"
  using assms
proof (induction nodes arbitrary: i)
  case (Cons p nodes)
  obtain node s where p: "p = (node, s)" by fastforce
  obtain gold where "gold_of index s = Some gold" using Cons.prems by (auto simp: p on_proof_def)
  moreover obtain items where "step_nodes index cfg pool gens (Suc (Suc i)) nodes = Some items" "map sn_node items = map fst nodes"
    using Cons.IH [of "Suc (Suc i)"] Cons.prems by auto
  ultimately show ?case by (simp add: p)
qed simp

text \<open>Every item of a level submits the next unit of its proof.\<close>

lemma step_nodes_gold:
  assumes "step_nodes index cfg pool gens i nodes = Some items" "\<And>j xs. mset (gens j xs) = mset xs"
  shows "list_all2 (\<lambda>p n. \<exists>gold. gold_of index (snd p) = Some gold \<and> gold \<in> set (sn_tactics n) \<and> sn_token n = as_token (snd p)) nodes items"
  using assms(1)
proof (induction nodes arbitrary: i items)
  case (Cons p nodes)
  obtain node s where p: "p = (node, s)" by fastforce
  obtain gold where gold: "gold_of index s = Some gold" using Cons.prems p by (auto split: option.splits)
  with Cons.prems p obtain rest where rest: "step_nodes index cfg pool gens (Suc (Suc i)) nodes = Some rest"
    "items = \<lparr>sn_node = node, sn_token = as_token s,
       sn_tactics = build_candidate_tactics (gens i) (gens (Suc i)) gold pool (rf_tactics cfg)\<rparr> # rest"
    by auto
  have "gold \<in> set (build_candidate_tactics (gens i) (gens (Suc i)) gold pool (rf_tactics cfg))"
    using gold_among_candidates [of "gens i" "gens (Suc i)"] assms(2) by blast
  with gold Cons.IH [OF rest(1)] show ?case by (simp add: p rest(2))
qed simp

section \<open>Properties\<close>

text \<open>A server that answers what it is asked, though it may refuse or lose any request.\<close>

definition answers_asked :: "replay_world \<Rightarrow> bool" where
  "answers_asked w \<longleftrightarrow>
     (\<forall>ps. NoJson \<notin> set (wo_create w ps) \<and> (\<forall>r\<in>set (concat (answers_in (wo_create w ps))). \<exists>p\<in>set ps. ra_item r \<in> set (map fst p))) \<and>
     (\<forall>d ps. NoJson \<notin> set (wo_step w d ps) \<and> (\<forall>a\<in>set (concat (answers_in (wo_step w d ps))). \<exists>p\<in>set ps. na_node a \<in> set (map sn_node p))) \<and>
     (\<forall>ps. NoJson \<notin> set (wo_clean w ps))"

lemma answers_askedD:
  assumes "answers_asked w"
  shows "NoJson \<notin> set (wo_create w ps)" "NoJson \<notin> set (wo_step w d qs)" "NoJson \<notin> set (wo_clean w ids)"
    and "r \<in> set (concat (answers_in (wo_create w ps))) \<Longrightarrow> \<exists>p\<in>set ps. ra_item r \<in> set (map fst p)"
    and "a \<in> set (concat (answers_in (wo_step w d qs))) \<Longrightarrow> \<exists>p\<in>set qs. na_node a \<in> set (map sn_node p)"
  using assms unfolding answers_asked_def by blast+

lemma create_roots_runs:
  assumes "answers_asked w" "rf_items cfg \<noteq> 0" "\<forall>wl\<in>set ws. pw_units wl \<noteq> []"
  shows "\<exists>ss c'. create_roots w cfg (workload_index run ws) c = (Some ss, c') \<and> list_all (on_proof (workload_index run ws)) ss"
proof -
  let ?index = "workload_index run ws"
  let ?items = "map (\<lambda>(item, wl). (item, pw_root wl)) ?index"
  obtain ps where ps: "payloads_of (rf_items cfg) ?items = Some ps" using assms(2) by (cases "rf_items cfg < 0") (auto simp: payloads_of_def)
  let ?c = "c\<lparr>co_create_items := co_create_items c + int (length ?items)\<rparr>"
  obtain rs c2 where fan: "fan_out (lit ''/exec/create_states'') length (\<lambda>p. 0) (zip ps (wo_create w ps)) ?c = (Inr rs, c2)"
      and sub: "set (all_answers rs) \<subseteq> set (concat (answers_in (wo_create w ps)))"
    using fan_out_answers [OF answers_askedD(1) [OF assms(1)]] by blast
  have "dget ?index (ra_item r) \<noteq> None" if "r \<in> set (all_answers rs)" for r
  proof -
    obtain p where "p \<in> set ps" "ra_item r \<in> set (map fst p)"
      using answers_askedD(4) [OF assms(1)] sub \<open>r \<in> set (all_answers rs)\<close> by blast
    then have "ra_item r \<in> fst ` set ?items" using payloads_members [OF ps] by fastforce
    then have "ra_item r \<in> set (map fst ?index)" by force
    then show ?thesis by (simp add: dget_keys del: set_map)
  qed
  then obtain ss c' where "open_roots ?index (all_answers rs) c2 = (Some ss, c')" "list_all (on_proof ?index) ss"
    using open_roots_on_proof [of "all_answers rs" ?index c2] index_value assms(3) by blast
  then show ?thesis using ps fan by (simp add: create_roots_def Let_def)
qed

lemma step_once_runs:
  assumes "answers_asked w" "rf_items cfg \<noteq> 0" "list_all (on_proof index) active"
  shows "\<exists>ss c'. step_once w cfg index pool depth active c = (Some ss, c') \<and> list_all (on_proof index) ss"
proof -
  let ?nodes = "node_states depth active"
  have vals: "snd ` set ?nodes \<subseteq> set active" using fold_dset [of "[]" "node_id depth" active] by (simp add: node_states_def)
  then have "list_all (\<lambda>p. on_proof index (snd p)) ?nodes" using assms(3) by (auto simp: list_all_iff)
  then obtain items where items: "step_nodes index cfg pool (wo_shuffles w depth) 0 ?nodes = Some items" "map sn_node items = map fst ?nodes"
    using step_nodes_made by blast
  obtain ps where ps: "payloads_of (rf_items cfg) items = Some ps" using assms(2) by (cases "rf_items cfg < 0") (auto simp: payloads_of_def)
  let ?g = "\<lambda>p. sum_list (map (\<lambda>n. length (sn_tactics n)) p)" and ?c = "c\<lparr>co_step_items := co_step_items c + int (length items)\<rparr>"
  obtain rs c2 where fan: "fan_out (lit ''/exec/step_batch'') length ?g (zip ps (wo_step w depth ps)) ?c = (Inr rs, c2)"
      and sub: "set (all_answers rs) \<subseteq> set (concat (answers_in (wo_step w depth ps)))"
    using fan_out_answers [OF answers_askedD(2) [OF assms(1)]] by blast
  have "dget ?nodes (na_node a) \<noteq> None" if asked: "a \<in> set (all_answers rs)" for a
  proof -
    obtain p where "p \<in> set ps" "na_node a \<in> set (map sn_node p)"
      using answers_askedD(5) [OF assms(1)] sub asked by blast
    then have "na_node a \<in> set (map sn_node items)" using payloads_members [OF ps] by fastforce
    then show ?thesis unfolding items(2) by (simp add: dget_keys del: set_map)
  qed
  moreover have "\<forall>k s. dget ?nodes k = Some s \<longrightarrow> on_proof index s"
    using assms(3) dget_fold [of "node_id depth" active] by (auto simp: node_states_def list_all_iff)
  ultimately obtain ss c' where "next_level index ?nodes (all_answers rs) c2 = (Some ss, c')" "list_all (on_proof index) ss"
    using next_level_on_proof [of "all_answers rs" ?nodes index c2] by blast
  then show ?thesis using items(1) ps fan by (simp add: step_once_def Let_def)
qed

lemma levels_run:
  assumes "answers_asked w" "rf_items cfg \<noteq> 0" "list_all (on_proof index) active"
  shows "\<exists>ss c'. replay_levels w cfg index pool k depth active c = (Some ss, c')"
  using assms(3)
proof (induction k arbitrary: depth active c)
  case (Suc k)
  then obtain ss c' where "step_once w cfg index pool depth active c = (Some ss, c')" "list_all (on_proof index) ss"
    using step_once_runs [OF assms(1,2)] by blast
  with Suc.IH [of ss "Suc depth" c'] show ?case by simp
qed simp

text \<open>
  A replay of proofs that have tactic units ends without an exception whatever requests the server
  refuses or loses, as long as it answers with what it was asked: no state ever runs past the end of its
  proof.  The clean-up then asks for all items, each once, in requests of the configured size.
\<close>

theorem replay_runs_to_its_end:
  assumes "answers_asked w" "0 < rf_items cfg" "\<forall>wl\<in>set ws. pw_units wl \<noteq> []"
  shows "fst (run_replay w cfg ws pool c) \<and> fst (snd (run_replay w cfg ws pool c)) \<noteq> None \<and>
    (\<exists>ps. payloads_of (rf_items cfg) (map fst (workload_index (rf_run cfg) ws)) = Some ps \<and>
       distinct (concat ps) \<and> set (concat ps) = (\<lambda>wl. item_id_for (rf_run cfg) (pw_problem wl)) ` set ws \<and>
       list_all (\<lambda>p. p \<noteq> [] \<and> length p \<le> nat (rf_items cfg)) ps)"
proof -
  let ?index = "workload_index (rf_run cfg) ws"
  obtain ss c1 where roots: "create_roots w cfg ?index c = (Some ss, c1)" "list_all (on_proof ?index) ss"
    using create_roots_runs [OF assms(1) _ assms(3)] assms(2) by (metis less_irrefl)
  obtain ss' c2 where levels: "replay_levels w cfg ?index pool (nat (rf_depth cfg)) 0 ss c1 = (Some ss', c2)"
    using levels_run [OF assms(1) _ roots(2)] assms(2) by (metis less_irrefl)
  obtain ps where ps: "ps = chunks (nat (rf_items cfg)) (map fst ?index)" by simp
  obtain rs c3 where "fan_out (lit ''/exec/cleanup'') length (\<lambda>p. 0) (zip ps (wo_clean w ps)) c2 = (Inr rs, c3)"
    using fan_out_answers [OF answers_askedD(3) [OF assms(1)]] by blast
  then have "fst (clean_items w cfg (map fst ?index) c2) \<noteq> None"
    using payloads_concat [OF assms(2), of "map fst ?index"] by (simp add: clean_items_def ps)
  moreover have "list_all (\<lambda>p. p \<noteq> [] \<and> length p \<le> nat (rf_items cfg)) ps"
    using split_chunks_facts [of "nat (rf_items cfg)" "map fst ?index"] assms(2) by (simp add: ps)
  moreover have "distinct (concat ps)" "set (concat ps) = (\<lambda>wl. item_id_for (rf_run cfg) (pw_problem wl)) ` set ws"
    using payloads_concat [OF assms(2), of "map fst ?index"] workload_index_keys(2,3) [of "rf_run cfg" ws]
    by (simp_all add: ps dwf_def)
  moreover have "payloads_of (rf_items cfg) (map fst ?index) = Some ps"
    using payloads_concat [OF assms(2), of "map fst ?index"] by (simp add: ps)
  moreover have "run_replay w cfg ws pool c = (True, clean_items w cfg (map fst ?index) c2)"
    using roots(1) levels by (simp add: run_replay_def Let_def)
  ultimately show ?thesis by (simp only: fst_conv snd_conv simp_thms) blast
qed

end
