(* ===== verification/WireOps.thy ===== *)
theory WireOps
  imports WireResults Backend
begin

text \<open>
  The remaining answers of the \<open>/exec\<close> routes on the wire: clean-ups, cancellations and limits, from the
  decisions of the handlers to what the client reads of them (\<open>lean_client/exec_models.py\<close>).
\<close>

section \<open>Clean-ups\<close>

datatype cleanup_reason = ReasonInFlight | ReasonPinned

record wire_cleanup =
  wk_item :: pystr
  wk_deleted :: bool
  wk_reason :: "cleanup_reason option"
  wk_in_flight :: int
  wk_pinned :: int
  wk_states :: int
  wk_bytes :: int

definition cleanup_words :: "(pystr \<times> bool) list" where
  "cleanup_words = [(lit ''deleted'', True), (lit ''deferred'', False)]"

definition reason_words :: "(pystr \<times> cleanup_reason) list" where
  "reason_words = [(lit ''in_flight'', ReasonInFlight), (lit ''pinned'', ReasonPinned)]"

text \<open>The three \<open>CleanupResult(...)\<close> of the handler.\<close>

definition cleanup_result_of :: "pystr \<Rightarrow> cleanup_outcome \<Rightarrow> wire_cleanup" where
  "cleanup_result_of item out =
     (case out of
        CleanupInFlight n \<Rightarrow> \<lparr>wk_item = item, wk_deleted = False, wk_reason = Some ReasonInFlight, wk_in_flight = n, wk_pinned = 0,
          wk_states = 0, wk_bytes = 0\<rparr>
      | CleanupPinned n \<Rightarrow> \<lparr>wk_item = item, wk_deleted = False, wk_reason = Some ReasonPinned, wk_in_flight = 0, wk_pinned = n,
          wk_states = 0, wk_bytes = 0\<rparr>
      | CleanupDeleted ds \<Rightarrow> \<lparr>wk_item = item, wk_deleted = True, wk_reason = None, wk_in_flight = 0, wk_pinned = 0,
          wk_states = ds_states ds, wk_bytes = ds_bytes ds\<rparr>)"

definition cleanup_entries :: "wire_cleanup \<Rightarrow> fields" where
  "cleanup_entries r = [(lit ''item_id'', JText (wk_item r)), (lit ''status'', word_of cleanup_words (wk_deleted r))] @
     opt_entry True ''reason'' (word_of reason_words) (wk_reason r) @
     [(lit ''in_flight'', JInt (wk_in_flight r)), (lit ''pinned_states'', JInt (wk_pinned r)),
      (lit ''deleted_states'', JInt (wk_states r)), (lit ''deleted_bytes'', JInt (wk_bytes r))]"

definition cleanup_json :: "wire_cleanup \<Rightarrow> json" where
  "cleanup_json r = JObject (cleanup_entries r)"

definition parse_cleanup :: "coerce \<Rightarrow> json \<Rightarrow> wire_error + wire_cleanup" where
  "parse_cleanup co j =
     ebind (as_object j) (\<lambda>d.
     ebind (req_field ''item_id'' (co_text co) (\<lambda>t. True) d) (\<lambda>item.
     ebind (def_field ''status'' True (literal cleanup_words) (\<lambda>t. True) d) (\<lambda>deleted.
     ebind (def_field ''reason'' None (nullable (literal reason_words)) (\<lambda>t. True) d) (\<lambda>reason.
     ebind (def_field ''in_flight'' 0 (co_int co) (\<lambda>n. True) d) (\<lambda>in_flight.
     ebind (def_field ''pinned_states'' 0 (co_int co) (\<lambda>n. True) d) (\<lambda>pinned.
     ebind (req_field ''deleted_states'' (co_int co) (\<lambda>n. True) d) (\<lambda>states.
     ebind (req_field ''deleted_bytes'' (co_int co) (\<lambda>n. True) d) (\<lambda>bytes.
       Inr \<lparr>wk_item = item, wk_deleted = deleted, wk_reason = reason, wk_in_flight = in_flight, wk_pinned = pinned,
            wk_states = states, wk_bytes = bytes\<rparr>))))))))"

text \<open>The response has its list under \<open>deleted_items\<close>.\<close>

definition cleanup_response_json :: "wire_cleanup list \<Rightarrow> json" where
  "cleanup_response_json rs = JObject [(lit ''deleted_items'', JList (map cleanup_json rs))]"

definition parse_cleanup_response :: "coerce \<Rightarrow> json \<Rightarrow> wire_error + wire_cleanup list" where
  "parse_cleanup_response co j = ebind (as_object j) (models_field ''deleted_items'' (parse_cleanup co))"

section \<open>Cancellations\<close>

record wire_cancel =
  wl_item :: pystr
  wl_status :: lifecycle_status
  wl_in_flight :: int

text \<open>The model has no word for an active item.\<close>

definition cancel_words :: "(pystr \<times> lifecycle_status) list" where
  "cancel_words = [(lit ''cancelling'', Cancelling), (lit ''drained'', Drained), (lit ''cleaned'', Cleaned)]"

definition cancel_json :: "wire_cancel \<Rightarrow> json" where
  "cancel_json r = JObject [(lit ''item_id'', JText (wl_item r)), (lit ''status'', word_of cancel_words (wl_status r)),
     (lit ''in_flight'', JInt (wl_in_flight r))]"

definition parse_cancel :: "coerce \<Rightarrow> json \<Rightarrow> wire_error + wire_cancel" where
  "parse_cancel co j =
     ebind (as_object j) (\<lambda>d.
     ebind (req_field ''item_id'' (co_text co) (\<lambda>t. True) d) (\<lambda>item.
     ebind (req_field ''status'' (literal cancel_words) (\<lambda>t. True) d) (\<lambda>status.
     ebind (def_field ''in_flight'' 0 (co_int co) (\<lambda>n. True) d) (\<lambda>n.
       Inr \<lparr>wl_item = item, wl_status = status, wl_in_flight = n\<rparr>))))"

definition cancel_ok :: "wire_cancel \<Rightarrow> bool" where
  "cancel_ok r \<longleftrightarrow> wl_status r \<noteq> Active"

text \<open>The handler: the results of the items in their order; \<open>None\<close> is the \<open>ValidationError\<close> of a status without a word.\<close>

definition cancel_route :: "pystr list \<Rightarrow> int \<Rightarrow> registry \<Rightarrow> registry \<times> wire_cancel list option" where
  "cancel_route items now reg =
     (let (reg', rs) = cancel_items items now reg;
          ws = map2 (\<lambda>item (s, n). \<lparr>wl_item = item, wl_status = s, wl_in_flight = n\<rparr>) items rs
      in (reg', if list_all cancel_ok ws then Some ws else None))"

section \<open>Limits\<close>

definition limits_json :: "limits_response \<Rightarrow> json" where
  "limits_json l = JObject
     [(lit ''max_items_per_step_batch'', JInt (lr_items l)), (lit ''max_tactics_per_step_item'', JInt (lr_tactics l)),
      (lit ''max_attempts_per_step_batch'', JInt (lr_attempts l)), (lit ''max_create_items_per_request'', JInt (lr_creates l)),
      (lit ''max_pantograph_workers'', JInt (lr_workers l)), (lit ''max_lean_processes_per_env_profile'', JInt (lr_lean_processes l)),
      (lit ''max_in_flight_exec_requests'', JInt (lr_in_flight l)), (lit ''max_queued_exec_requests'', JInt (lr_queued l)),
      (lit ''max_state_store_bytes'', JInt (lr_store_bytes l)), (lit ''allow_unbounded_exec'', JBool (lr_unbounded l)),
      (lit ''max_acquire_timeout_ms'', JInt (lr_acquire l)), (lit ''max_step_timeout_ms'', JInt (lr_step l)),
      (lit ''recommended_items_per_step_batch'', JInt (lr_rec_items l)),
      (lit ''recommended_in_flight_step_batches'', JInt (lr_rec_batches l)), (lit ''single_process'', JBool (lr_single l)),
      (lit ''same_item_id_pipelining'', JBool (lr_pipelining l)), (lit ''cleanup_policy'', JText (lr_policy l))]"

definition parse_limits :: "coerce \<Rightarrow> json \<Rightarrow> wire_error + limits_response" where
  "parse_limits co j =
     ebind (as_object j) (\<lambda>d. let int = (\<lambda>name. req_field name (co_int co) (\<lambda>n. True) d) in
     ebind (int ''max_items_per_step_batch'') (\<lambda>items.
     ebind (int ''max_tactics_per_step_item'') (\<lambda>tactics.
     ebind (int ''max_attempts_per_step_batch'') (\<lambda>attempts.
     ebind (int ''max_create_items_per_request'') (\<lambda>creates.
     ebind (int ''max_pantograph_workers'') (\<lambda>workers.
     ebind (int ''max_lean_processes_per_env_profile'') (\<lambda>processes.
     ebind (int ''max_in_flight_exec_requests'') (\<lambda>in_flight.
     ebind (int ''max_queued_exec_requests'') (\<lambda>queued.
     ebind (int ''max_state_store_bytes'') (\<lambda>bytes.
     ebind (def_field ''allow_unbounded_exec'' False (co_bool co) (\<lambda>b. True) d) (\<lambda>unbounded.
     ebind (int ''max_acquire_timeout_ms'') (\<lambda>acq.
     ebind (int ''max_step_timeout_ms'') (\<lambda>step.
     ebind (int ''recommended_items_per_step_batch'') (\<lambda>rec_items.
     ebind (int ''recommended_in_flight_step_batches'') (\<lambda>rec_batches.
     ebind (def_field ''single_process'' True (co_bool co) (\<lambda>b. True) d) (\<lambda>single.
     ebind (def_field ''same_item_id_pipelining'' False (co_bool co) (\<lambda>b. True) d) (\<lambda>pipelining.
     ebind (def_field ''cleanup_policy'' (lit ''defer_while_in_flight'') (co_text co) (\<lambda>t. True) d) (\<lambda>policy.
       Inr \<lparr>lr_items = items, lr_tactics = tactics, lr_attempts = attempts, lr_creates = creates, lr_workers = workers,
         lr_lean_processes = processes, lr_in_flight = in_flight, lr_queued = queued, lr_store_bytes = bytes,
         lr_unbounded = unbounded, lr_acquire = acq, lr_step = step, lr_rec_items = rec_items, lr_rec_batches = rec_batches,
         lr_single = single, lr_pipelining = pipelining, lr_policy = policy\<rparr>))))))))))))))))))"

section \<open>Codecs\<close>

lemma cleanup_literal: "literal cleanup_words (word_of cleanup_words b) = Some b"
  by (cases b) (simp_all add: literal_def word_of_def cleanup_words_def)

lemma reason_literal: "literal reason_words (word_of reason_words r) = Some r"
  by (cases r) (simp_all add: literal_def word_of_def reason_words_def)

lemma cancel_literal: "s \<noteq> Active \<Longrightarrow> literal cancel_words (word_of cancel_words s) = Some s"
  by (cases s) (simp_all add: literal_def word_of_def cancel_words_def)

lemma cancel_literal_good: "literal cancel_words j = Some s \<Longrightarrow> s \<noteq> Active"
  by (auto simp: literal_def cancel_words_def split: json.splits if_splits)

lemma word_not_null [simp]: "word_of words x \<noteq> JNull"
  by (simp add: word_of_def)

lemma cleanup_entries_get:
  "dget (cleanup_entries r) (lit ''item_id'') = Some (JText (wk_item r))"
  "dget (cleanup_entries r) (lit ''status'') = Some (word_of cleanup_words (wk_deleted r))"
  "dget (cleanup_entries r) (lit ''reason'') = map_option (word_of reason_words) (wk_reason r)"
  "dget (cleanup_entries r) (lit ''in_flight'') = Some (JInt (wk_in_flight r))"
  "dget (cleanup_entries r) (lit ''pinned_states'') = Some (JInt (wk_pinned r))"
  "dget (cleanup_entries r) (lit ''deleted_states'') = Some (JInt (wk_states r))"
  "dget (cleanup_entries r) (lit ''deleted_bytes'') = Some (JInt (wk_bytes r))"
  by (simp_all add: cleanup_entries_def dget_append dget_opt_true del: map_of_append split: option.split)

context lenient
begin

lemma cleanup_parses: "parse_cleanup co (cleanup_json r) = Inr r"
  by (simp add: parse_cleanup_def cleanup_json_def as_object_def checked_def plain_values cleanup_literal
      req_field_at [OF cleanup_entries_get(1)] def_field_at [OF cleanup_entries_get(2)]
      def_field_opt [OF cleanup_entries_get(3) reason_literal word_not_null] def_field_at [OF cleanup_entries_get(4)]
      def_field_at [OF cleanup_entries_get(5)] req_field_at [OF cleanup_entries_get(6)] req_field_at [OF cleanup_entries_get(7)])

lemma cancel_parses: "cancel_ok r \<Longrightarrow> parse_cancel co (cancel_json r) = Inr r"
  by (simp add: parse_cancel_def cancel_json_def cancel_ok_def as_object_def req_field_def def_field_def checked_def plain_values
      cancel_literal)

lemma cancel_good: "parse_cancel co j = Inr r \<Longrightarrow> cancel_ok r"
  by (auto simp: parse_cancel_def cancel_ok_def req_field_Inr dest: cancel_literal_good)

lemma limits_parse: "parse_limits co (limits_json l) = Inr l"
  by (simp add: parse_limits_def limits_json_def as_object_def req_field_def def_field_def checked_def plain_values Let_def)

end

sublocale lenient < cleanups: codec cleanup_json "parse_cleanup co" "\<lambda>r. True"
  by unfold_locales (simp_all add: cleanup_parses)

sublocale lenient < cancels: codec cancel_json "parse_cancel co" cancel_ok
  by unfold_locales (auto intro: cancel_parses cancel_good)

sublocale lenient < advertised: codec limits_json "parse_limits co" "\<lambda>l. True"
  by unfold_locales (simp_all add: limits_parse)

interpretation json: lenient strict
  by unfold_locales (simp add: coerce_ok_def strict_def)


section \<open>What the handlers answer\<close>

lemma cancel_item_answer: "sn_status (snd (cancel_item item now reg)) \<noteq> Active"
  by (simp add: cancel_item_def snapshot_of_def set_terminal_def fresh_record_def Let_def split: option.split)

lemma cancel_answers:
  "list_all (\<lambda>r. fst r \<noteq> Active) (snd (cancel_items items now reg)) \<and> length (snd (cancel_items items now reg)) = length items"
  by (induction items arbitrary: reg) (auto simp: cancel_item_answer Let_def case_prod_unfold)

lemma cancel_records:
  "length rs = length items \<Longrightarrow> list_all (\<lambda>r. fst r \<noteq> Active) rs \<Longrightarrow>
     (let ws = map2 (\<lambda>item (s, n). \<lparr>wl_item = item, wl_status = s, wl_in_flight = n\<rparr>) items rs
      in list_all cancel_ok ws \<and> map wl_item ws = items)"
  by (induction rs items rule: list_induct2) (auto simp: cancel_ok_def Let_def)

lemma cancel_route_answers:
  "\<exists>ws. cancel_route items now reg = (fst (cancel_items items now reg), Some ws) \<and> list_all cancel_ok ws \<and> map wl_item ws = items"
  using cancel_answers [of items now reg] cancel_records [of "snd (cancel_items items now reg)" items]
  by (simp add: cancel_route_def Let_def case_prod_unfold)

lemma cleanup_answers: "length (snd (cleanup_items items now s)) = length items"
  by (induction items arbitrary: s) (simp_all add: Let_def case_prod_unfold)

context lenient
begin

lemma cleanup_response_parses: "parse_cleanup_response co (cleanup_response_json rs) = Inr rs"
  by (simp add: parse_cleanup_response_def cleanup_response_json_def as_object_def cleanups.models_field_enc list.pred_True)

lemmas cancel_response_parses = cancels.response_parses

end

text \<open>
  The answers to a clean-up and to a cancellation reach the client as they are: the cancel route never
  finds an item in the one status its model has no word for, both answers have the items of the request
  in its order, and the client reads the decisions that the registry and the store made.
\<close>

theorem lifecycle_answers_reach_client:
  assumes "coerce_ok co"
  shows "\<exists>ws. snd (cancel_route items now reg) = Some ws \<and> map wl_item ws = items \<and>
     parse_response (parse_cancel co) (response_json cancel_json ws) = Inr ws \<and>
     (let rs = map2 cleanup_result_of items (snd (cleanup_items items now (st, reg)))
      in map wk_item rs = items \<and> parse_cleanup_response co (cleanup_response_json rs) = Inr rs)"
proof -
  have co: "lenient co" using assms by unfold_locales
  have named: "map wk_item (map2 cleanup_result_of is outs) = is" if "length outs = length is" for "is" outs
    using that by (induction outs "is" rule: list_induct2) (simp_all add: cleanup_result_of_def split: cleanup_outcome.split)
  obtain ws where "cancel_route items now reg = (fst (cancel_items items now reg), Some ws)" "list_all cancel_ok ws"
    "map wl_item ws = items" using cancel_route_answers by blast
  then show ?thesis
    using lenient.cancel_response_parses [OF co] lenient.cleanup_response_parses [OF co] named [OF cleanup_answers] by (simp add: Let_def)
qed

theorem lifecycle_answers_reach_client_witness:
  "\<exists>ws. snd (cancel_route [lit ''i''] 5 \<lparr>reg_retention = 10, reg_records = []\<rparr>) = Some ws \<and>
     parse_response (parse_cancel strict) (response_json cancel_json ws) = Inr ws \<and> map wl_item ws = [lit ''i'']"
proof -
  have "coerce_ok strict" by (simp add: coerce_ok_def strict_def)
  from lifecycle_answers_reach_client [OF this, of "[lit ''i'']" 5 "\<lparr>reg_retention = 10, reg_records = []\<rparr>" demo_parent]
  obtain ws where ws: "snd (cancel_route [lit ''i''] 5 \<lparr>reg_retention = 10, reg_records = []\<rparr>) = Some ws" "map wl_item ws = [lit ''i'']"
    "parse_response (parse_cancel strict) (response_json cancel_json ws) = Inr ws" by (elim exE conjE) (rule that)
  show ?thesis by (intro exI conjI) (rule ws)+
qed

text \<open>
  A backend of a client connects over the wire as it would to the server's own settings: the limits it
  reads are the ones that the server answers with.
\<close>

lemma limits_reach_backend:
  assumes "coerce_ok co"
  shows "parse_limits co (limits_json (limits_of c)) = Inr (limits_of c)"
proof -
  have co: "lenient co" using assms by unfold_locales
  show ?thesis by (rule lenient.limits_parse [OF co])
qed

end
