(* ===== verification/Leases.thy ===== *)
theory Leases
  imports StepBatchProps WorkerPool
begin

text \<open>
  Step batches on the worker pool: a lane's local variable \<open>lease\<close>, how it is taken from
  \<open>PantographManager.get_worker\<close>, and \<open>return_worker\<close> (\<open>exec_backends.py\<close>), which gives it back.  The
  batch of \<open>StepBatch\<close> and the pool of \<open>WorkerPool\<close> run together with every other user of the pool; both are
  projections of the joint system, which adds who holds which worker.
\<close>

section \<open>Giving a worker back\<close>

text \<open>
  What \<open>return_worker\<close> sees of the worker: whether it is alive, how the collection of its goal states
  ends, and whether it is alive after that.  \<open>except Exception\<close> does not catch the cancellation of the
  task while it waits for the collection.
\<close>

datatype collect_end = CollectDone | CollectRaised | CollectCancelled

record worker_end =
  we_alive :: bool
  we_collect :: collect_end
  we_alive_after :: bool

definition return_worker :: "worker_end \<Rightarrow> int \<Rightarrow> nat option \<Rightarrow> pool \<Rightarrow> pool" where
  "return_worker e now lease p =
     (case lease of
        None \<Rightarrow> p
      | Some i \<Rightarrow>
          if \<not> we_alive e then fst (destroy_worker i p)
          else (case we_collect e of
                  CollectCancelled \<Rightarrow> p
                | CollectRaised \<Rightarrow> fst (destroy_worker i p)
                | CollectDone \<Rightarrow>
                    if we_alive_after e then fst (release_worker i now p) else fst (destroy_worker i p)))"

definition interrupted :: "worker_end \<Rightarrow> bool" where
  "interrupted e \<longleftrightarrow> we_alive e \<and> we_collect e = CollectCancelled"

text \<open>Release and destruction wake one waiter.\<close>

definition give_back :: "worker_end \<Rightarrow> int \<Rightarrow> nat option \<Rightarrow> pool_sys \<Rightarrow> pool_sys" where
  "give_back e now lease s =
     (if lease = None \<or> interrupted e then s else notify_pool (map_pool (return_worker e now lease) s))"

section \<open>Batch and pool together\<close>

text \<open>
  \<open>lz_held\<close> are the local variables \<open>lease\<close> of the lanes, \<open>lz_others\<close> the leases of every other request,
  and \<open>lz_lost\<close> those whose holder was cancelled while it gave them back.
\<close>

record lease_sys =
  lz_batch :: bstate
  lz_pool :: pool_sys
  lz_held :: "nat option list"
  lz_others :: "nat list"
  lz_lost :: "nat list"

text \<open>The call of \<open>get_worker\<close>; \<open>hash\<close> is \<open>header_hash\<close>, and times are in milliseconds.\<close>

definition lane_request :: "(pystr \<Rightarrow> pystr) \<Rightarrow> nat \<Rightarrow> resolved \<Rightarrow> int \<Rightarrow> request" where
  "lane_request hash k rv now =
     new_request hash k (rec_env (rv_record rv)) (rec_header (rv_record rv)) now (bi_acquire_ms (rv_item rv))"

text \<open>A request looks at the pool for the first time, or after it was woken.\<close>

definition enters :: "request \<Rightarrow> pool_sys \<Rightarrow> pool_sys \<Rightarrow> bool" where
  "enters rq s s' \<longleftrightarrow> s' = map_pool (\<lambda>p. p\<lparr>pl_requests := pl_requests p + 1\<rparr>) s \<or>
     (rq \<in> set (ps_woken s) \<and> s' = s\<lparr>ps_woken := remove1 rq (ps_woken s)\<rparr>)"

text \<open>Two ways to a lease: a free worker of the same environment and header, or one that the request started.\<close>

inductive gets_lease :: "request \<Rightarrow> nat \<Rightarrow> pool_sys \<Rightarrow> pool_sys \<Rightarrow> bool" where
  lease_free: "enters rq s s1 \<Longrightarrow> fst (attempt rq now (ps_pool s1)) = lease_decision.Leased x \<Longrightarrow>
     gets_lease rq (ls_id x) s (serve rq now s1)"
| lease_started: "(rq, c) \<in> set (ps_starters s) \<Longrightarrow> i \<notin> set (lease_ids (ps_pool s)) \<Longrightarrow>
     gets_lease rq i s (notify_pool (map_pool (start_done rq (new_lease rq i made) now) (drop_starter (rq, c) s)))"

definition lost_by :: "worker_end \<Rightarrow> nat option \<Rightarrow> nat list" where
  "lost_by e lease = (if interrupted e then (case lease of None \<Rightarrow> [] | Some i \<Rightarrow> [i]) else [])"

text \<open>\<open>await return_worker(pantograph_manager, lease)\<close> of lane \<open>l\<close>, after which it has none.\<close>

definition give_up :: "worker_end \<Rightarrow> int \<Rightarrow> nat \<Rightarrow> lease_sys \<Rightarrow> lease_sys" where
  "give_up e now l s =
     s\<lparr>lz_pool := give_back e now (lz_held s ! l) (lz_pool s), lz_held := (lz_held s)[l := None],
       lz_lost := lost_by e (lz_held s ! l) @ lz_lost s\<rparr>"

definition batch_does :: "(bstate \<Rightarrow> bstate) \<Rightarrow> lease_sys \<Rightarrow> lease_sys" where
  "batch_does f s = s\<lparr>lz_batch := f (lz_batch s)\<rparr>"

fun steps_lane :: "nat \<Rightarrow> batch_event \<Rightarrow> bool" where
  "steps_lane l (EvStepped k results draws now alive) = (k = l)"
| "steps_lane l (EvRaised k text alive) = (k = l)"
| "steps_lane l ev = False"

text \<open>
  The sections of the lanes, each with what it does to the pool; then the rest of the server, the other
  holders of workers, and the pool's own steps, which leave the busy workers alone.  With \<open>cancels\<close> the
  task of a holder may be cancelled while it gives its worker back.
\<close>

inductive lease_step :: "(pystr \<Rightarrow> pystr) \<Rightarrow> (store_error \<Rightarrow> pystr) \<Rightarrow> (pystr \<Rightarrow> pystr) \<Rightarrow> bool
    \<Rightarrow> lease_sys \<Rightarrow> lease_sys \<Rightarrow> bool" for repr etext hash cancels where
  lane_goes: "in_phase l LaneReady (lz_batch s) \<Longrightarrow> ln_items (bs_lanes (lz_batch s) ! l) \<noteq> [] \<Longrightarrow>
     lease_step repr etext hash cancels s (batch_does (batch_step repr etext (EvNext l)) s)"
| lane_ends: "in_phase l LaneReady (lz_batch s) \<Longrightarrow> ln_items (bs_lanes (lz_batch s) ! l) = [] \<Longrightarrow>
     (interrupted e \<Longrightarrow> cancels) \<Longrightarrow>
     lease_step repr etext hash cancels s (give_up e now l (batch_does (batch_step repr etext (EvNext l)) s))"
| lane_gets: "in_phase l LaneAcquiring (lz_batch s) \<Longrightarrow>
     gets_lease (lane_request hash k (hd (ln_items (bs_lanes (lz_batch s) ! l))) asked) i (lz_pool s) ps \<Longrightarrow>
     lease_step repr etext hash cancels s
       ((batch_does (batch_step repr etext (EvLeased l)) s)\<lparr>lz_pool := ps, lz_held := (lz_held s)[l := Some i]\<rparr>)"
| lane_refused: "in_phase l LaneAcquiring (lz_batch s) \<Longrightarrow>
     lease_step repr etext hash cancels s (batch_does (batch_step repr etext (EvNoWorker l text)) s)"
| lane_keeps: "in_phase l LaneStepping (lz_batch s) \<Longrightarrow> steps_lane l ev \<Longrightarrow>
     ln_leased (bs_lanes (batch_step repr etext ev (lz_batch s)) ! l) \<Longrightarrow>
     lease_step repr etext hash cancels s (batch_does (batch_step repr etext ev) s)"
| lane_loses: "in_phase l LaneStepping (lz_batch s) \<Longrightarrow> steps_lane l ev \<Longrightarrow>
     \<not> ln_leased (bs_lanes (batch_step repr etext ev (lz_batch s)) ! l) \<Longrightarrow> \<not> we_alive e \<Longrightarrow>
     lease_step repr etext hash cancels s (give_up e now l (batch_does (batch_step repr etext ev) s))"
| server_acts: "lease_step repr etext hash cancels s (batch_does (env_event ev) s)"
| other_gets: "gets_lease rq i (lz_pool s) ps \<Longrightarrow>
     lease_step repr etext hash cancels s (s\<lparr>lz_pool := ps, lz_others := i # lz_others s\<rparr>)"
| other_returns: "i \<in> set (lz_others s) \<Longrightarrow> (interrupted e \<Longrightarrow> cancels) \<Longrightarrow>
     lease_step repr etext hash cancels s
       (s\<lparr>lz_pool := give_back e now (Some i) (lz_pool s), lz_others := remove1 i (lz_others s),
          lz_lost := lost_by e (Some i) @ lz_lost s\<rparr>)"
| pool_works: "pool_step (lz_pool s) ps \<Longrightarrow> pl_busy (ps_pool ps) = pl_busy (ps_pool (lz_pool s)) \<Longrightarrow>
     lease_step repr etext hash cancels s (s\<lparr>lz_pool := ps\<rparr>)"

definition busy_of :: "lease_sys \<Rightarrow> lease list" where
  "busy_of s = pl_busy (ps_pool (lz_pool s))"

definition held_ids :: "nat option list \<Rightarrow> nat list" where
  "held_ids hs = List.map_filter id hs"

definition joined :: "bstate \<Rightarrow> pool_sys \<Rightarrow> lease_sys" where
  "joined b ps = \<lparr>lz_batch = b, lz_pool = ps, lz_held = replicate (length (bs_lanes b)) None,
     lz_others = map ls_id (pl_busy (ps_pool ps)), lz_lost = []\<rparr>"

section \<open>Projections\<close>

text \<open>
  A step system seen through a part of its state: where every step is a run of the part's own system, every
  run is.
\<close>

locale projection = step_system step inv fixed
  for step :: "'s \<Rightarrow> 's \<Rightarrow> bool" and inv :: "'s \<Rightarrow> bool" and fixed :: "'s \<Rightarrow> 'c" +
  fixes part_step :: "'p \<Rightarrow> 'p \<Rightarrow> bool" and part :: "'s \<Rightarrow> 'p"
  assumes simulated: "inv s \<Longrightarrow> step s t \<Longrightarrow> reaches part_step (part s) (part t)"
begin

lemma projected:
  assumes "reaches step s t" "inv s"
  shows "reaches part_step (part s) (part t)"
  using assms
proof (induction rule: reaches.induct)
  case (reaches_step s t u)
  then show ?case using reached [of s t] by (blast intro: reaches_trans simulated)
qed auto

end

section \<open>Leases in the pool\<close>

lemma held_ids_simps [simp]: "held_ids [] = []" "held_ids (None # hs) = held_ids hs" "held_ids (Some i # hs) = i # held_ids hs"
  by (simp_all add: held_ids_def map_filter_simps)

lemma held_ids_none: "held_ids (replicate n None) = []"
  by (induction n) simp_all

lemma held_ids_take:
  "l < length hs \<Longrightarrow> hs ! l = None \<Longrightarrow> mset (held_ids (hs[l := Some i])) = add_mset i (mset (held_ids hs))"
proof (induction hs arbitrary: l)
  case (Cons h hs)
  then show ?case by (cases l; cases h) auto
qed simp

lemma held_ids_drop:
  "l < length hs \<Longrightarrow> hs ! l = Some i \<Longrightarrow> mset (held_ids hs) = add_mset i (mset (held_ids (hs[l := None])))"
proof (induction hs arbitrary: l)
  case (Cons h hs)
  then show ?case by (cases l; cases h) auto
qed simp

lemma ps_pool_notify [simp]: "ps_pool (notify_pool s) = ps_pool s" "ps_pool (map_pool f s) = f (ps_pool s)"
  "ps_pool (drop_starter rc s) = ps_pool s"
  by (simp_all add: notify_pool_def map_pool_def drop_starter_def split: list.split)

lemma busy_distinct: "sys_inv s \<Longrightarrow> distinct (map ls_id (pl_busy (ps_pool s)))"
  by (simp add: sys_inv_def pool_inv_def ids_ok_def lease_ids_def)

lemma enters_inv: "enters rq s s1 \<Longrightarrow> pl_busy (ps_pool s1) = pl_busy (ps_pool s)"
  by (auto simp: enters_def map_pool_def)

lemma serve_step: "enters rq s s1 \<Longrightarrow> pool_step s (serve rq now s1)"
  unfolding enters_def by (elim disjE conjE) (auto intro: pool_request pool_resume)

lemma attempt_busy:
  "attempt rq now p = (lease_decision.Leased x, p') \<Longrightarrow>
     pl_busy p' = x # pl_busy p \<and> ls_env x = rq_env rq \<and> ls_hash x = rq_hash rq"
  by (auto simp: attempt_def record_wait_def Let_def split: option.splits if_splits dest!: pop_matching_Some)

lemma gets_lease_pool:
  assumes "gets_lease rq i s s'"
  shows "pool_step s s'"
    and "\<exists>x. pl_busy (ps_pool s') = x # pl_busy (ps_pool s) \<and> ls_id x = i \<and> ls_env x = rq_env rq \<and> ls_hash x = rq_hash rq"
  using assms
proof (atomize (full), cases rule: gets_lease.cases)
  case (lease_free s1 now x)
  obtain p' where a: "attempt rq now (ps_pool s1) = (lease_decision.Leased x, p')"
    using lease_free(4) by (cases "attempt rq now (ps_pool s1)") auto
  have "ps_pool s' = p'" unfolding lease_free(2) using a by (simp add: serve_def Let_def)
  then show "pool_step s s' \<and> (\<exists>x. pl_busy (ps_pool s') = x # pl_busy (ps_pool s) \<and> ls_id x = i \<and>
      ls_env x = rq_env rq \<and> ls_hash x = rq_hash rq)"
    using attempt_busy [OF a] enters_inv [OF lease_free(3)] serve_step [OF lease_free(3)] lease_free(1,2) by auto
next
  case (lease_started c made now)
  then show "pool_step s s' \<and> (\<exists>x. pl_busy (ps_pool s') = x # pl_busy (ps_pool s) \<and> ls_id x = i \<and>
      ls_env x = rq_env rq \<and> ls_hash x = rq_hash rq)"
    using pool_started [OF lease_started(2,3), of made now] by (auto simp: start_done_def new_lease_def record_wait_def Let_def)
qed


lemma filter_other: "distinct (map f xs) \<Longrightarrow> x \<in> set xs \<Longrightarrow>
    mset (map f xs) = add_mset (f x) (mset (map f (filter (\<lambda>y. f y \<noteq> f x) xs)))"
proof (induction xs)
  case (Cons y ys)
  show ?case
  proof (cases "y = x")
    case True
    moreover have "filter (\<lambda>z. f z \<noteq> f x) ys = ys" using Cons.prems(1) True by (auto simp: filter_id_conv) (metis image_eqI)
    ultimately show ?thesis by simp
  next
    case False
    then have "x \<in> set ys" "f y \<noteq> f x" using Cons.prems by auto
    then show ?thesis using Cons by simp
  qed
qed simp

text \<open>A worker that is given back leaves the busy ones, and only it; a cancelled one stays among them.\<close>

lemma give_back_pool:
  assumes "sys_inv s" "i \<in> ls_id ` set (pl_busy (ps_pool s))"
  shows "reaches pool_step s (give_back e now (Some i) s)"
    and "mset (map ls_id (pl_busy (ps_pool s))) =
      mset (map ls_id (pl_busy (ps_pool (give_back e now (Some i) s)))) + (if interrupted e then {#} else {#i#})"
    and "x \<in> set (pl_busy (ps_pool s)) \<Longrightarrow> ls_id x \<noteq> i \<Longrightarrow> x \<in> set (pl_busy (ps_pool (give_back e now (Some i) s)))"
proof -
  let ?p = "ps_pool s"
  have d: "distinct (map ls_id (pl_busy ?p))" using assms(1) by (rule busy_distinct)
  obtain y where y: "y \<in> set (pl_busy ?p)" "ls_id y = i" using assms(2) by blast
  obtain l rest where tl: "take_lease i (pl_busy ?p) = Some (l, rest)"
    using assms(2) take_lease_None [of i "pl_busy ?p"] by (cases "take_lease i (pl_busy ?p)") auto
  have l: "ls_id l = i" "mset (pl_busy ?p) = add_mset l (mset rest)" using take_lease_Some [OF tl] by auto
  have rel: "pl_busy (fst (release_worker i now ?p)) = rest" by (simp add: release_worker_def tl Let_def)
  have des: "pl_busy (fst (destroy_worker i ?p)) = filter (\<lambda>l. ls_id l \<noteq> i) (pl_busy ?p)" by (simp add: destroy_worker_def)
  consider (gone) "interrupted e" | (free) "\<not> interrupted e" "return_worker e now (Some i) ?p = fst (release_worker i now ?p)"
    | (dead) "\<not> interrupted e" "return_worker e now (Some i) ?p = fst (destroy_worker i ?p)"
    by (cases "we_alive e"; cases "we_collect e"; cases "we_alive_after e") (simp_all add: return_worker_def interrupted_def)
  note ways = this
  have mids: "mset (map ls_id (pl_busy ?p)) = add_mset i (mset (map ls_id rest))" by (simp add: l)
  have fids: "mset (map ls_id (filter (\<lambda>l. ls_id l \<noteq> i) (pl_busy ?p))) = mset (map ls_id rest)"
    using filter_other [OF d y(1), unfolded y(2)] mids by simp
  show "reaches pool_step s (give_back e now (Some i) s)"
  proof (cases rule: ways)
    case gone then show ?thesis by (auto simp: give_back_def)
  next
    case free
    then have "pool_step s (give_back e now (Some i) s)"
      using pool_release [OF assms(2), of now] by (simp add: give_back_def map_pool_def)
    then show ?thesis by (rule reaches_step [OF reaches_refl])
  next
    case dead
    then have "pool_step s (give_back e now (Some i) s)"
      using pool_destroy [of s i] by (simp add: give_back_def map_pool_def)
    then show ?thesis by (rule reaches_step [OF reaches_refl])
  qed
  show "mset (map ls_id (pl_busy ?p)) =
      mset (map ls_id (pl_busy (ps_pool (give_back e now (Some i) s)))) + (if interrupted e then {#} else {#i#})"
    by (cases rule: ways) (simp_all add: give_back_def rel des mids fids del: mset_map)
  show "x \<in> set (pl_busy (ps_pool (give_back e now (Some i) s)))" if x: "x \<in> set (pl_busy ?p)" "ls_id x \<noteq> i"
  proof -
    have "x \<in># add_mset l (mset rest)" unfolding l(2) [symmetric] using x(1) by simp
    then have "x \<in> set rest" using x(2) l(1) by auto
    then show ?thesis using x by (cases rule: ways) (auto simp: give_back_def rel des)
  qed
qed


section \<open>What an event does to its lane\<close>

lemma answer_lanes [simp]:
  "bs_lanes (answer l r leased b) =
     (bs_lanes b)[l := (bs_lanes b ! l)\<lparr>ln_items := tl (ln_items (bs_lanes b ! l)), ln_leased := leased, ln_phase := LaneReady\<rparr>]"
  by (simp add: answer_def set_lane_def set_slot_def Let_def)

lemma set_tl: "set (tl xs) \<subseteq> set xs"
  by (cases xs) auto

lemma answer_lane:
  "bs_lanes b' = bs_lanes b \<Longrightarrow>
     \<exists>ln. bs_lanes (answer l r leased b') = (bs_lanes b)[l := ln] \<and> set (ln_items ln) \<subseteq> set (ln_items (bs_lanes b ! l)) \<and>
       ln_leased ln = leased \<and> ln_phase ln = LaneReady"
  by (rule exI [of _ "(bs_lanes b ! l)\<lparr>ln_items := tl (ln_items (bs_lanes b ! l)), ln_leased := leased, ln_phase := LaneReady\<rparr>"])
    (simp add: set_tl)

lemma set_lane_lanes [simp]: "bs_lanes (set_lane l ln b) = (bs_lanes b)[l := ln]"
  by (simp add: set_lane_def)

definition next_lane :: "lane \<Rightarrow> lane \<Rightarrow> bool" where
  "next_lane ln ln' \<longleftrightarrow> set (ln_items ln') \<subseteq> set (ln_items ln) \<and>
     (if ln_items ln = [] then \<not> ln_leased ln' \<and> ln_phase ln' = LaneDone
      else ln_leased ln' = ln_leased ln \<and> (ln_phase ln' = LaneStepping \<longrightarrow> ln_leased ln) \<and>
        (ln_phase ln' = LaneAcquiring \<longrightarrow> \<not> ln_leased ln) \<and> ln_phase ln' \<noteq> LaneDone)"

lemma next_lanes:
  "in_phase l LaneReady b \<Longrightarrow>
     \<exists>ln. bs_lanes (batch_step repr etext (EvNext l) b) = (bs_lanes b)[l := ln] \<and> next_lane (bs_lanes b ! l) ln"
  by (cases "ln_items (bs_lanes b ! l)")
    (auto simp: lane_next_def Let_def next_lane_def set_tl)

lemma leased_lanes:
  "in_phase l LaneAcquiring b \<Longrightarrow>
     \<exists>ln. bs_lanes (batch_step repr etext (EvLeased l) b) = (bs_lanes b)[l := ln] \<and> set (ln_items ln) \<subseteq> set (ln_items (bs_lanes b ! l)) \<and>
       ln_leased ln \<and> ln_phase ln \<in> {LaneReady, LaneStepping}"
  using answer_lane [of b b l _ True, OF refl]
  by (cases "rv_cancelled b (hd (ln_items (bs_lanes b ! l)))")
    (force simp: lane_leased_def Let_def simp del: answer_lanes, auto simp: lane_leased_def Let_def)

lemma refused_lanes:
  "in_phase l LaneAcquiring b \<Longrightarrow>
     \<exists>ln. bs_lanes (batch_step repr etext (EvNoWorker l text) b) = (bs_lanes b)[l := ln] \<and>
       set (ln_items ln) \<subseteq> set (ln_items (bs_lanes b ! l)) \<and> \<not> ln_leased ln \<and> ln_phase ln = LaneReady"
  using answer_lane [of b b l _ False, OF refl] by (force simp: lane_no_worker_def simp del: answer_lanes)

lemma stepped_lanes:
  assumes "in_phase l LaneStepping b" "steps_lane l ev"
  shows "\<exists>ln. bs_lanes (batch_step repr etext ev b) = (bs_lanes b)[l := ln] \<and>
    (ln = bs_lanes b ! l \<or> set (ln_items ln) \<subseteq> set (ln_items (bs_lanes b ! l)) \<and> ln_phase ln = LaneReady)"
proof -
  let ?goal = "\<lambda>b'. \<exists>ln. bs_lanes b' = (bs_lanes b)[l := ln] \<and>
    (ln = bs_lanes b ! l \<or> set (ln_items ln) \<subseteq> set (ln_items (bs_lanes b ! l)) \<and> ln_phase ln = LaneReady)"
  have same: "?goal b" by (rule exI [of _ "bs_lanes b ! l"]) simp
  have moved: "?goal (answer l r leased b')" if "bs_lanes b' = bs_lanes b" for r leased b'
    using answer_lane [OF that, of l r leased] by blast
  have "?goal (lane_stepped repr etext l results draws now alive b)" for results draws now alive
    unfolding lane_stepped_def Let_def by (simp add: moved same del: answer_lanes split: option.split sum.split)
  moreover have "?goal (lane_raised l msg alive b)" for msg alive
    unfolding lane_raised_def by (rule moved) (rule refl)
  ultimately show ?thesis using assms by (cases ev) (simp_all del: answer_lanes)
qed

section \<open>Who holds which worker\<close>

text \<open>A lane and its variable \<open>lease\<close>: the items are of one environment and header, and so is a leased worker.\<close>

definition lane_fits :: "(pystr \<Rightarrow> pystr) \<Rightarrow> lease list \<Rightarrow> lane \<Rightarrow> nat option \<Rightarrow> bool" where
  "lane_fits hash busy ln h \<longleftrightarrow> (ln_leased ln \<longleftrightarrow> h \<noteq> None) \<and> (ln_phase ln = LaneStepping \<longrightarrow> ln_leased ln) \<and>
     (ln_phase ln \<in> {LaneAcquiring, LaneDone} \<longrightarrow> \<not> ln_leased ln) \<and>
     (\<exists>key. (\<forall>rv \<in> set (ln_items ln). resolved_key rv = key \<and> rec_hash (rv_record rv) = hash (rec_header (rv_record rv))) \<and>
        (\<forall>i. h = Some i \<longrightarrow> (\<exists>x \<in> set busy. ls_id x = i \<and> compatibility_key (ls_env x) (ls_hash x) = key)))"

definition lease_inv :: "(pystr \<Rightarrow> pystr) \<Rightarrow> bool \<Rightarrow> lease_sys \<Rightarrow> bool" where
  "lease_inv hash cancels s \<longleftrightarrow> sys_inv (lz_pool s) \<and>
     mset (map ls_id (busy_of s)) = mset (held_ids (lz_held s)) + mset (lz_others s) + mset (lz_lost s) \<and>
     list_all2 (lane_fits hash (busy_of s)) (bs_lanes (lz_batch s)) (lz_held s) \<and> (\<not> cancels \<longrightarrow> lz_lost s = [])"

lemma lane_fits_less:
  "lane_fits hash busy ln h \<Longrightarrow> set (ln_items ln') \<subseteq> set (ln_items ln) \<Longrightarrow> ln_leased ln' = ln_leased ln \<Longrightarrow>
     (ln_phase ln' = LaneStepping \<longrightarrow> ln_leased ln) \<Longrightarrow> (ln_phase ln' \<in> {LaneAcquiring, LaneDone} \<longrightarrow> \<not> ln_leased ln) \<Longrightarrow>
     lane_fits hash busy ln' h"
  unfolding lane_fits_def by blast

lemma lane_fits_without:
  "lane_fits hash busy ln h \<Longrightarrow> set (ln_items ln') \<subseteq> set (ln_items ln) \<Longrightarrow> \<not> ln_leased ln' \<Longrightarrow> ln_phase ln' \<noteq> LaneStepping \<Longrightarrow>
     lane_fits hash busy ln' None"
  unfolding lane_fits_def by blast

lemma acquiring_free: "lane_fits hash busy ln h \<Longrightarrow> ln_phase ln = LaneAcquiring \<Longrightarrow> \<not> ln_leased ln \<and> h = None"
  by (cases h) (auto simp: lane_fits_def)

lemma held_ids_member: "i \<in> set (held_ids hs) \<longleftrightarrow> Some i \<in> set hs"
  by (induction hs) (auto simp: held_ids_def map_filter_simps split: option.splits)

lemma fits_busy:
  assumes "list_all2 (lane_fits hash busy) lanes hs" "\<And>x. x \<in> set busy \<Longrightarrow> ls_id x \<in> set (held_ids hs) \<Longrightarrow> x \<in> set busy'"
  shows "list_all2 (lane_fits hash busy') lanes hs"
proof (rule list_all2_all_nthI)
  show len: "length lanes = length hs" using assms(1) by (rule list_all2_lengthD)
  show "lane_fits hash busy' (lanes ! k) (hs ! k)" if k: "k < length lanes" for k
  proof -
    have old: "lane_fits hash busy (lanes ! k) (hs ! k)" using assms(1) k by (rule list_all2_nthD)
    have "hs ! k \<in> set hs" using k len by simp
    then have "x \<in> set busy'" if "x \<in> set busy" "hs ! k = Some (ls_id x)" for x
      using that by (intro assms(2)) (simp_all add: held_ids_member)
    with old show ?thesis unfolding lane_fits_def by metis
  qed
qed

lemma fits_same:
  assumes "list_all2 P lanes hs" "l < length lanes" "P ln (hs ! l)"
  shows "list_all2 P (lanes[l := ln]) hs"
  using list_all2_update_cong [OF assms(1,3), of l] by simp


lemma lease_invD:
  assumes "lease_inv hash cancels s"
  shows "sys_inv (lz_pool s)" "distinct (map ls_id (busy_of s))" "length (lz_held s) = length (bs_lanes (lz_batch s))"
    "mset (map ls_id (busy_of s)) = mset (held_ids (lz_held s)) + mset (lz_others s) + mset (lz_lost s)"
    "list_all2 (lane_fits hash (busy_of s)) (bs_lanes (lz_batch s)) (lz_held s)"
    "l < length (bs_lanes (lz_batch s)) \<Longrightarrow> lane_fits hash (busy_of s) (bs_lanes (lz_batch s) ! l) (lz_held s ! l)"
  using assms
  by (auto simp: lease_inv_def busy_of_def busy_distinct dest: list_all2_lengthD list_all2_nthD)

text \<open>The workers change hands only as they should: what a change of the pool has to respect.\<close>

lemma lease_inv_pool:
  assumes "lease_inv hash cancels s" "sys_inv ps"
    and "mset (map ls_id (pl_busy (ps_pool ps))) = mset (held_ids (lz_held s)) + mset others + mset lost"
    and "\<And>x. x \<in> set (busy_of s) \<Longrightarrow> ls_id x \<in> set (held_ids (lz_held s)) \<Longrightarrow> x \<in> set (pl_busy (ps_pool ps))"
    and "\<not> cancels \<Longrightarrow> lost = []"
  shows "lease_inv hash cancels (s\<lparr>lz_pool := ps, lz_others := others, lz_lost := lost\<rparr>)"
  using assms fits_busy [OF lease_invD(5) [OF assms(1)] assms(4)] by (simp add: lease_inv_def busy_of_def)

lemma lease_inv_lane:
  assumes "lease_inv hash cancels s" "bs_lanes b' = (bs_lanes (lz_batch s))[l := ln]" "l < length (bs_lanes (lz_batch s))"
    and "lane_fits hash (busy_of s) ln (lz_held s ! l)"
  shows "lease_inv hash cancels (s\<lparr>lz_batch := b'\<rparr>)"
  using assms(1) fits_same [OF lease_invD(5) [OF assms(1)] assms(3,4)] by (simp add: lease_inv_def busy_of_def assms(2))

lemma owned_apart:
  assumes "lease_inv hash cancels s" "mset (held_ids (lz_held s)) + mset (lz_others s) = add_mset i rest" "x \<in> set (busy_of s)"
    "ls_id x \<in># rest"
  shows "ls_id x \<noteq> i"
proof -
  have "mset (map ls_id (busy_of s)) = add_mset i (rest + mset (lz_lost s))"
    using lease_invD(4) [OF assms(1)] assms(2) by simp
  moreover have "count (mset (map ls_id (busy_of s))) i \<le> 1"
    using lease_invD(2) [OF assms(1)] by (simp add: distinct_count_atmost_1 del: mset_map)
  ultimately have "count rest i = 0" by simp
  then show ?thesis using assms(4) by (metis count_greater_zero_iff less_irrefl)
qed

lemma give_back_inv:
  assumes "sys_inv ps" "lease \<noteq> None \<Longrightarrow> the lease \<in> ls_id ` set (pl_busy (ps_pool ps))"
  shows "sys_inv (give_back e now lease ps)" "reaches pool_step ps (give_back e now lease ps)"
proof -
  show r: "reaches pool_step ps (give_back e now lease ps)"
    using give_back_pool(1) [OF assms(1)] assms(2) by (cases lease) (auto simp: give_back_def)
  show "sys_inv (give_back e now lease ps)" using WorkerPool.leases.reached [OF r assms(1)] by simp
qed

lemma give_up_inv:
  assumes inv: "lease_inv hash cancels s" and lanes: "bs_lanes b' = (bs_lanes (lz_batch s))[l := ln]"
    and l: "l < length (bs_lanes (lz_batch s))" and fits: "lane_fits hash (busy_of s) ln None" and c: "interrupted e \<Longrightarrow> cancels"
  shows "lease_inv hash cancels (give_up e now l (s\<lparr>lz_batch := b'\<rparr>))"
proof (cases "lz_held s ! l")
  case None
  then have "(lz_held s)[l := None] = lz_held s" by (metis list_update_id)
  then have "give_up e now l (s\<lparr>lz_batch := b'\<rparr>) = s\<lparr>lz_batch := b'\<rparr>"
    using None by (simp add: give_up_def give_back_def lost_by_def)
  then show ?thesis using lease_inv_lane [OF inv lanes l] fits None by simp
next
  case (Some i)
  note D = lease_invD [OF inv]
  let ?held = "(lz_held s)[l := None]" and ?ps = "give_back e now (Some i) (lz_pool s)"
  have drop: "mset (held_ids (lz_held s)) = add_mset i (mset (held_ids ?held))"
    using held_ids_drop [OF _ Some] l D(3) by simp
  have "i \<in> set_mset (mset (map ls_id (busy_of s)))" unfolding D(4) drop by simp
  then have i: "i \<in> ls_id ` set (pl_busy (ps_pool (lz_pool s)))" by (simp add: busy_of_def)
  have "mset (map ls_id (pl_busy (ps_pool ?ps))) + (if interrupted e then {#} else {#i#}) =
      add_mset i (mset (held_ids ?held)) + mset (lz_others s) + mset (lz_lost s)"
    using give_back_pool(2) [OF D(1) i, of e now] D(4) unfolding drop busy_of_def by simp
  then have owned: "mset (map ls_id (pl_busy (ps_pool ?ps))) =
      mset (held_ids ?held) + mset (lz_others s) + mset (lost_by e (Some i) @ lz_lost s)"
    by (simp add: lost_by_def split: if_splits)
  have "list_all2 (lane_fits hash (busy_of s)) (bs_lanes b') ?held"
    unfolding lanes using D(5) fits by (rule list_all2_update_cong)
  then have "list_all2 (lane_fits hash (pl_busy (ps_pool ?ps))) (bs_lanes b') ?held"
  proof (rule fits_busy)
    fix x assume x: "x \<in> set (busy_of s)" "ls_id x \<in> set (held_ids ?held)"
    have "ls_id x \<noteq> i"
      by (rule owned_apart [OF inv, of i "mset (held_ids ?held) + mset (lz_others s)"]) (simp_all add: drop x)
    then show "x \<in> set (pl_busy (ps_pool ?ps))" using x(1) give_back_pool(3) [OF D(1) i] by (simp add: busy_of_def)
  qed
  then show ?thesis
    using owned give_back_inv(1) [OF D(1), of "Some i" e now] i c inv Some
    by (auto simp: lease_inv_def give_up_def busy_of_def lost_by_def simp del: mset_map)
qed

lemma taken_inv:
  assumes "lease_inv hash cancels s" "gets_lease rq i (lz_pool s) ps"
  shows "sys_inv ps" "mset (map ls_id (pl_busy (ps_pool ps))) = add_mset i (mset (map ls_id (busy_of s)))"
    "set (busy_of s) \<subseteq> set (pl_busy (ps_pool ps))"
    "\<exists>x \<in> set (pl_busy (ps_pool ps)). ls_id x = i \<and> ls_env x = rq_env rq \<and> ls_hash x = rq_hash rq"
proof -
  obtain x where x: "pl_busy (ps_pool ps) = x # busy_of s" "ls_id x = i" "ls_env x = rq_env rq" "ls_hash x = rq_hash rq"
    using gets_lease_pool(2) [OF assms(2)] by (auto simp: busy_of_def)
  show "sys_inv ps" using pool_step_inv [OF lease_invD(1) [OF assms(1)] gets_lease_pool(1) [OF assms(2)]] .
  show "mset (map ls_id (pl_busy (ps_pool ps))) = add_mset i (mset (map ls_id (busy_of s)))" using x by simp
  show "set (busy_of s) \<subseteq> set (pl_busy (ps_pool ps))" using x by auto
  show "\<exists>x \<in> set (pl_busy (ps_pool ps)). ls_id x = i \<and> ls_env x = rq_env rq \<and> ls_hash x = rq_hash rq" using x by simp
qed


lemma gets_inv:
  assumes inv: "lease_inv hash cancels s" and acq: "in_phase l LaneAcquiring (lz_batch s)"
    and got: "gets_lease (lane_request hash k (hd (ln_items (bs_lanes (lz_batch s) ! l))) asked) i (lz_pool s) ps"
  shows "lease_inv hash cancels
    ((batch_does (batch_step repr etext (EvLeased l)) s)\<lparr>lz_pool := ps, lz_held := (lz_held s)[l := Some i]\<rparr>)"
proof -
  have l: "l < length (bs_lanes (lz_batch s))" using acq by (simp add: in_phase_def)
  note D = lease_invD [OF inv] and T = taken_inv [OF inv got]
  let ?old = "bs_lanes (lz_batch s) ! l"
  obtain ln where ln: "bs_lanes (batch_step repr etext (EvLeased l) (lz_batch s)) = (bs_lanes (lz_batch s))[l := ln]"
    "set (ln_items ln) \<subseteq> set (ln_items ?old)" "ln_leased ln" "ln_phase ln \<in> {LaneReady, LaneStepping}"
    using leased_lanes [OF acq] by blast
  have fits: "lane_fits hash (busy_of s) ?old (lz_held s ! l)" by (rule D(6) [OF l])
  have none: "lz_held s ! l = None" using acquiring_free [OF fits] acq by (simp add: in_phase_def)
  obtain key where key: "\<forall>rv \<in> set (ln_items ?old). resolved_key rv = key \<and> rec_hash (rv_record rv) = hash (rec_header (rv_record rv))"
    using fits unfolding lane_fits_def by blast
  obtain x where x: "x \<in> set (pl_busy (ps_pool ps))" "ls_id x = i"
    "ls_env x = rec_env (rv_record (hd (ln_items ?old)))" "ls_hash x = hash (rec_header (rv_record (hd (ln_items ?old))))"
    using T(4) by (auto simp: lane_request_def new_request_def)
  have new: "lane_fits hash (pl_busy (ps_pool ps)) ln (Some i)"
  proof (cases "ln_items ?old")
    case Nil
    then have "ln_items ln = []" using ln(2) by simp
    then show ?thesis
      using x(1,2) ln(3,4) by (auto simp: lane_fits_def compatibility_key_def)
  next
    case (Cons rv rvs)
    then have "compatibility_key (ls_env x) (ls_hash x) = key"
      using key x(3,4) by (auto simp: resolved_key_def compatibility_key_def)
    moreover have "\<forall>rv \<in> set (ln_items ln). resolved_key rv = key \<and> rec_hash (rv_record rv) = hash (rec_header (rv_record rv))"
      using ln(2) key by blast
    ultimately show ?thesis
      using x(1,2) ln(3,4) unfolding lane_fits_def by (intro conjI exI [of _ key]) auto
  qed
  have "list_all2 (lane_fits hash (pl_busy (ps_pool ps))) (bs_lanes (lz_batch s)) (lz_held s)"
    using fits_busy [OF D(5)] T(3) by blast
  then have "list_all2 (lane_fits hash (pl_busy (ps_pool ps))) ((bs_lanes (lz_batch s))[l := ln]) ((lz_held s)[l := Some i])"
    using new by (rule list_all2_update_cong)
  moreover have "mset (held_ids ((lz_held s)[l := Some i])) = add_mset i (mset (held_ids (lz_held s)))"
    using l D(3) none by (intro held_ids_take) simp_all
  ultimately show ?thesis
    using T(1,2) D(4) inv
    by (simp add: lease_inv_def batch_does_def busy_of_def ln(1) del: mset_map batch_step.simps)
qed

lemma returns_inv:
  assumes inv: "lease_inv hash cancels s" and i_in: "i \<in> set (lz_others s)" and c: "interrupted e \<Longrightarrow> cancels"
  shows "lease_inv hash cancels (s\<lparr>lz_pool := give_back e now (Some i) (lz_pool s), lz_others := remove1 i (lz_others s),
    lz_lost := lost_by e (Some i) @ lz_lost s\<rparr>)"
proof -
  note D = lease_invD [OF inv]
  let ?ps = "give_back e now (Some i) (lz_pool s)" and ?rest = "mset (held_ids (lz_held s)) + mset (remove1 i (lz_others s))"
  have own: "mset (held_ids (lz_held s)) + mset (lz_others s) = add_mset i ?rest"
    using i_in by (simp flip: insert_DiffM)
  have "i \<in> set_mset (mset (map ls_id (busy_of s)))" unfolding D(4) own by simp
  then have i: "i \<in> ls_id ` set (pl_busy (ps_pool (lz_pool s)))" by (simp add: busy_of_def)
  have "mset (map ls_id (pl_busy (ps_pool ?ps))) + (if interrupted e then {#} else {#i#}) = add_mset i ?rest + mset (lz_lost s)"
    using give_back_pool(2) [OF D(1) i, of e now] D(4) own by (simp add: busy_of_def)
  then have owned: "mset (map ls_id (pl_busy (ps_pool ?ps))) = mset (held_ids (lz_held s)) + mset (remove1 i (lz_others s)) +
      mset (lost_by e (Some i) @ lz_lost s)"
    by (simp add: lost_by_def split: if_splits)
  show ?thesis
  proof (rule lease_inv_pool [OF inv _ owned])
    show "sys_inv ?ps" using give_back_inv(1) [OF D(1)] i by simp
    show "x \<in> set (pl_busy (ps_pool ?ps))" if "x \<in> set (busy_of s)" "ls_id x \<in> set (held_ids (lz_held s))" for x
      using give_back_pool(3) [OF D(1) i] owned_apart [OF inv own that(1)] that by (simp add: busy_of_def)
    show "lost_by e (Some i) @ lz_lost s = []" if "\<not> cancels"
      using that inv c by (auto simp: lost_by_def lease_inv_def)
  qed
qed

lemma lease_step_inv:
  assumes inv: "lease_inv hash cancels s" and step: "lease_step repr etext hash cancels s t"
  shows "lease_inv hash cancels t"
  using step
proof (cases rule: lease_step.cases)
  case (lane_goes l)
  then have l: "l < length (bs_lanes (lz_batch s))" by (simp add: in_phase_def)
  obtain ln where ln: "bs_lanes (batch_step repr etext (EvNext l) (lz_batch s)) = (bs_lanes (lz_batch s))[l := ln]"
    "next_lane (bs_lanes (lz_batch s) ! l) ln" using next_lanes [OF lane_goes(2)] by blast
  show ?thesis
    unfolding lane_goes(1) batch_does_def
    by (rule lease_inv_lane [OF inv ln(1) l], rule lane_fits_less [OF lease_invD(6) [OF inv l]])
      (use ln(2) lane_goes(3) in \<open>auto simp: next_lane_def\<close>)
next
  case (lane_ends l e now)
  then have l: "l < length (bs_lanes (lz_batch s))" by (simp add: in_phase_def)
  obtain ln where ln: "bs_lanes (batch_step repr etext (EvNext l) (lz_batch s)) = (bs_lanes (lz_batch s))[l := ln]"
    "next_lane (bs_lanes (lz_batch s) ! l) ln" using next_lanes [OF lane_ends(2)] by blast
  show ?thesis
    unfolding lane_ends(1) batch_does_def
    by (rule give_up_inv [OF inv ln(1) l], rule lane_fits_without [OF lease_invD(6) [OF inv l]])
      (use ln(2) lane_ends(3,4) in \<open>auto simp: next_lane_def\<close>)
next
  case (lane_refused l words)
  then have l: "l < length (bs_lanes (lz_batch s))" by (simp add: in_phase_def)
  obtain ln where ln: "bs_lanes (batch_step repr etext (EvNoWorker l words) (lz_batch s)) = (bs_lanes (lz_batch s))[l := ln]"
    "set (ln_items ln) \<subseteq> set (ln_items (bs_lanes (lz_batch s) ! l))" "\<not> ln_leased ln" "ln_phase ln = LaneReady"
    using refused_lanes [OF lane_refused(2)] by blast
  have "\<not> ln_leased (bs_lanes (lz_batch s) ! l)"
    using acquiring_free [OF lease_invD(6) [OF inv l]] lane_refused(2) by (simp add: in_phase_def)
  then show ?thesis
    unfolding lane_refused(1) batch_does_def
    by (intro lease_inv_lane [OF inv ln(1) l], intro lane_fits_less [OF lease_invD(6) [OF inv l]]) (use ln in auto)
next
  case (lane_keeps l ev)
  then have l: "l < length (bs_lanes (lz_batch s))" by (simp add: in_phase_def)
  obtain ln where ln: "bs_lanes (batch_step repr etext ev (lz_batch s)) = (bs_lanes (lz_batch s))[l := ln]"
    "ln = bs_lanes (lz_batch s) ! l \<or> set (ln_items ln) \<subseteq> set (ln_items (bs_lanes (lz_batch s) ! l)) \<and> ln_phase ln = LaneReady"
    using stepped_lanes [OF lane_keeps(2,3)] by blast
  have "ln_leased (bs_lanes (lz_batch s) ! l)" "ln_leased ln"
    using lease_invD(6) [OF inv l] lane_keeps(2,4) l ln(1) by (auto simp: lane_fits_def in_phase_def)
  then show ?thesis
    unfolding lane_keeps(1) batch_does_def
    by (intro lease_inv_lane [OF inv ln(1) l])
      (use ln(2) lease_invD(6) [OF inv l] in \<open>auto intro: lane_fits_less [OF lease_invD(6) [OF inv l]]\<close>)
next
  case (lane_loses l ev e now)
  then have l: "l < length (bs_lanes (lz_batch s))" by (simp add: in_phase_def)
  obtain ln where ln: "bs_lanes (batch_step repr etext ev (lz_batch s)) = (bs_lanes (lz_batch s))[l := ln]"
    "ln = bs_lanes (lz_batch s) ! l \<or> set (ln_items ln) \<subseteq> set (ln_items (bs_lanes (lz_batch s) ! l)) \<and> ln_phase ln = LaneReady"
    using stepped_lanes [OF lane_loses(2,3)] by blast
  have "ln_leased (bs_lanes (lz_batch s) ! l)" "\<not> ln_leased ln"
    using lease_invD(6) [OF inv l] lane_loses(2,4) l ln(1) by (auto simp: lane_fits_def in_phase_def)
  then show ?thesis
    unfolding lane_loses(1) batch_does_def
    by (intro give_up_inv [OF inv ln(1) l], intro lane_fits_without [OF lease_invD(6) [OF inv l]])
      (use ln(2) lane_loses(5) in \<open>auto simp: interrupted_def\<close>)
next
  case (lane_gets l k asked i ps)
  show ?thesis unfolding lane_gets(1) by (rule gets_inv [OF inv lane_gets(2,3)])
next
  case (server_acts ev)
  then show ?thesis using inv by (simp add: lease_inv_def batch_does_def busy_of_def env_event_frame)
next
  case (other_gets rq i ps)
  note T = taken_inv [OF inv other_gets(2)]
  have "lease_inv hash cancels (s\<lparr>lz_pool := ps, lz_others := i # lz_others s, lz_lost := lz_lost s\<rparr>)"
    by (rule lease_inv_pool [OF inv T(1)])
      (use T(2,3) lease_invD(4) [OF inv] inv in \<open>auto simp: lease_inv_def simp del: mset_map\<close>)
  then show ?thesis unfolding other_gets(1) by simp
next
  case (other_returns i e now)
  show ?thesis unfolding other_returns(1) by (rule returns_inv [OF inv other_returns(2,3)])
next
  case (pool_works ps)
  have "lease_inv hash cancels (s\<lparr>lz_pool := ps, lz_others := lz_others s, lz_lost := lz_lost s\<rparr>)"
    by (rule lease_inv_pool [OF inv pool_step_inv [OF lease_invD(1) [OF inv] pool_works(2)]])
      (use pool_works(3) inv in \<open>auto simp: lease_inv_def busy_of_def simp del: mset_map\<close>)
  then show ?thesis unfolding pool_works(1) by simp
qed


section \<open>The joint system\<close>

definition batch_moves :: "(pystr \<Rightarrow> pystr) \<Rightarrow> (store_error \<Rightarrow> pystr) \<Rightarrow> bstate \<Rightarrow> bstate \<Rightarrow> bool" where
  "batch_moves repr etext b b' \<longleftrightarrow> (\<exists>ev. b' = batch_step repr etext ev b)"

lemma moved: "reaches (batch_moves repr etext) b (batch_step repr etext ev b)"
  by (rule reaches_step [OF reaches_refl]) (auto simp: batch_moves_def)

lemma env_moved: "reaches (batch_moves repr etext) b (env_event ev b)"
proof -
  have "env_event ev b = b \<or> env_event ev b = batch_step repr etext ev b" by (cases ev) simp_all
  then show ?thesis using moved [of repr etext b ev] by (metis reaches_refl)
qed

lemma moves_run: "reaches (batch_moves repr etext) b b' \<Longrightarrow> \<exists>evs. b' = run_events repr etext evs b"
proof (induction rule: reaches.induct)
  case (reaches_refl b)
  show ?case by (rule exI [of _ "[]"]) (simp add: run_events_def)
next
  case (reaches_step b b1 b2)
  then obtain evs ev where "b1 = run_events repr etext evs b" "b2 = batch_step repr etext ev b1"
    by (auto simp: batch_moves_def)
  then have "b2 = run_events repr etext (evs @ [ev]) b" by (simp add: run_events_def)
  then show ?case by blast
qed

lemma lease_step_batch: "lease_step repr etext hash cancels s t \<Longrightarrow> reaches (batch_moves repr etext) (lz_batch s) (lz_batch t)"
  by (cases rule: lease_step.cases)
    (auto simp: batch_does_def give_up_def moved env_moved simp del: batch_step.simps)

lemma lease_step_pool:
  assumes inv: "lease_inv hash cancels s" and step: "lease_step repr etext hash cancels s t"
  shows "reaches pool_step (lz_pool s) (lz_pool t)"
proof -
  note D = lease_invD [OF inv]
  have held: "the (lz_held s ! l) \<in> ls_id ` set (pl_busy (ps_pool (lz_pool s)))"
    if "l < length (bs_lanes (lz_batch s))" "lz_held s ! l \<noteq> None" for l
    using D(6) [OF that(1)] that(2) by (force simp: lane_fits_def busy_of_def)
  have other: "i \<in> ls_id ` set (pl_busy (ps_pool (lz_pool s)))" if "i \<in> set (lz_others s)" for i
  proof -
    have "i \<in> set_mset (mset (map ls_id (busy_of s)))" unfolding D(4) using that by simp
    then show ?thesis by (simp add: busy_of_def)
  qed
  have returned: "reaches pool_step (lz_pool s) (give_back e now (lz_held s ! l) (lz_pool s))"
    if "l < length (bs_lanes (lz_batch s))" for e now l
    using held [OF that] by (intro give_back_inv(2) [OF D(1)])
  have returned_other: "reaches pool_step (lz_pool s) (give_back e now (Some i) (lz_pool s))" if "i \<in> set (lz_others s)" for e now i
    using other [OF that] by (intro give_back_inv(2) [OF D(1)]) simp
  have one: "pool_step (lz_pool s) ps \<Longrightarrow> reaches pool_step (lz_pool s) ps" for ps
    by (rule reaches_step [OF reaches_refl])
  from step show ?thesis
    by (cases rule: lease_step.cases)
      (auto simp: batch_does_def give_up_def in_phase_def intro: one gets_lease_pool(1) returned returned_other)
qed

interpretation pool_part: projection "lease_step repr etext hash cancels" "lease_inv hash cancels" "\<lambda>s. ()" pool_step lz_pool
  for repr etext hash cancels
  by unfold_locales (auto intro: lease_step_inv lease_step_pool)

interpretation batch_part: projection "lease_step repr etext hash cancels" "lease_inv hash cancels" "\<lambda>s. ()"
    "batch_moves repr etext" lz_batch
  for repr etext hash cancels
  by unfold_locales (auto intro: lease_step_batch)

section \<open>A batch begins\<close>

lemma make_lanes_fit:
  assumes "\<forall>rv \<in> set rs. rec_hash (rv_record rv) = hash (rec_header (rv_record rv))"
  shows "list_all2 (lane_fits hash busy) (make_lanes m rs) (replicate (length (make_lanes m rs)) None)"
proof (rule list_all2_all_nthI)
  fix k assume k: "k < length (make_lanes m rs)"
  obtain key grp where g: "(key, grp) \<in> set (group_items resolved_key rs)"
    "ln_items (make_lanes m rs ! k) \<in> set (distribute_items grp m)"
    "\<not> ln_leased (make_lanes m rs ! k)" "ln_phase (make_lanes m rs ! k) = LaneReady"
    using nth_mem [OF k] by (auto simp: make_lanes_def)
  have "grp = filter (\<lambda>rv. resolved_key rv = key) rs"
    using g(1) unfolding dget_in_set [OF group_items_dwf] by (simp add: group_items_get Let_def split: if_splits)
  moreover have "set (ln_items (make_lanes m rs ! k)) \<subseteq> set grp"
    using g(2) set_distribute [of grp m] by auto
  ultimately have "\<forall>rv \<in> set (ln_items (make_lanes m rs ! k)). resolved_key rv = key \<and> rec_hash (rv_record rv) = hash (rec_header (rv_record rv))"
    using assms by auto
  then show "lane_fits hash busy (make_lanes m rs ! k) (replicate (length (make_lanes m rs)) None ! k)"
    using g(3,4) k by (auto simp: lane_fits_def intro!: exI [of _ key])
qed simp

lemma joined_inv:
  assumes "start_batch repr m now items st reg env_pins env_items = (b, rs)" "sys_inv ps"
    and "\<forall>rv \<in> set rs. rec_hash (rv_record rv) = hash (rec_header (rv_record rv))"
  shows "lease_inv hash cancels (joined b ps)"
proof -
  have "bs_lanes b = make_lanes m rs" using assms(1) by (auto simp: start_batch_def Let_def split: prod.splits)
  then show ?thesis
    using assms(2) make_lanes_fit [OF assms(3)] by (simp add: lease_inv_def joined_def busy_of_def held_ids_none)
qed



definition demo_asking :: lease_sys where
  "demo_asking = batch_does (batch_step (\<lambda>s. s) (\<lambda>e. []) (EvNext 0)) (joined (fst StepBatchProps.demo_start) (empty_sys demo_pool))"

definition demo_request :: request where
  "demo_request = lane_request (\<lambda>h. lit ''h'') 7
     (hd (ln_items (bs_lanes (lz_batch demo_asking) ! 0))) 0"

definition demo_starting :: lease_sys where
  "demo_starting = demo_asking\<lparr>lz_pool := serve demo_request 0 (map_pool (\<lambda>p. p\<lparr>pl_requests := pl_requests p + 1\<rparr>) (lz_pool demo_asking))\<rparr>"

definition demo_stepping :: lease_sys where
  "demo_stepping = (batch_does (batch_step (\<lambda>s. s) (\<lambda>e. []) (EvLeased 0)) demo_starting)
     \<lparr>lz_pool := notify_pool (map_pool (start_done demo_request (new_lease demo_request 1 3) 5)
        (drop_starter (demo_request, None) (lz_pool demo_starting))),
      lz_held := (lz_held demo_starting)[0 := Some 1]\<rparr>"

lemma demo_stepping_reached:
  "reaches (lease_step (\<lambda>s. s) (\<lambda>e. []) (\<lambda>h. lit ''h'') False)
     (joined (fst StepBatchProps.demo_start) (empty_sys demo_pool)) demo_stepping"
proof -
  let ?step = "lease_step (\<lambda>s. s) (\<lambda>e. []) (\<lambda>h. lit ''h'') False"
  have "reaches ?step (joined (fst StepBatchProps.demo_start) (empty_sys demo_pool)) demo_asking"
    unfolding demo_asking_def by (rule reaches_step [OF reaches_refl], rule lane_goes) code_simp+
  then have "reaches ?step (joined (fst StepBatchProps.demo_start) (empty_sys demo_pool)) demo_starting"
  proof (rule reaches_step)
    show "?step demo_asking demo_starting"
      unfolding demo_starting_def by (rule pool_works [OF pool_request]) code_simp
  qed
  then show ?thesis
  proof (rule reaches_step)
    have rq: "lane_request (\<lambda>h. lit ''h'') 7 (hd (ln_items (bs_lanes (lz_batch demo_starting) ! 0))) 0 = demo_request"
      by (simp add: demo_request_def demo_starting_def)
    have acq: "in_phase 0 LaneAcquiring (lz_batch demo_starting)" by code_simp
    have got: "gets_lease (lane_request (\<lambda>h. lit ''h'') 7 (hd (ln_items (bs_lanes (lz_batch demo_starting) ! 0))) 0) 1 (lz_pool demo_starting) (notify_pool (map_pool (start_done demo_request
        (new_lease demo_request 1 3) 5) (drop_starter (demo_request, None) (lz_pool demo_starting))))"
      unfolding rq by (rule lease_started; code_simp)
    show "?step demo_starting demo_stepping"
      unfolding demo_stepping_def by (rule lane_gets [OF acq got])
  qed
qed


end
