(* ===== verification/Spec2Isabelle.thy ===== *)
theory Spec2Isabelle
  imports Split Lifecycle StoreProps Limiter Sched WorkerPool Normalize Worker ExecProps StepBatchProps
    Infotree TacticText ServerConfig Microbatch Senders ExecEnv ServerLock Clients ReplProcess CheckRoute WorkerProcess
    Lifespan Backend Replay WireOps Leases
begin

text \<open>
  A verification development for the Lean server: the \<open>/exec\<close> proof-state server on Pantograph workers, the
  \<open>/check\<close> server on Lean REPL processes, and the Python client library of both.  Sources are named below
  \<open>src/server/\<close> (\<open>server/\<close>) and \<open>src/packages/lean-client/lean_client/\<close> (\<open>lean_client/\<close>).

  \<^bold>\<open>The program.\<close>  A client sends a Lean snippet to \<open>/exec/create_states\<close> and gets tokens of the proof states
  at its \<open>sorry\<close>s; it sends tactics for such a token to \<open>/exec/step_batch\<close> and gets tokens of the child
  states, goals and messages; \<open>/exec/verify\<close> judges a complete proof, \<open>/exec/cleanup\<close> and \<open>/exec/cancel\<close> end an
  item.  A request passes the API key check, the request limiter and the caps; the item registry admits
  its items; the state store resolves and pins the parent states; the items are grouped by environment
  and header and spread over lanes; a lane leases a Pantograph worker from the pool, which steps the state
  and leaves child states as scratch files; the handler promotes them into the store, and at the end
  unpins, finishes the items and returns the worker.  A sweeper deletes expired states and those over the
  byte budget.  One server process owns the directory, by a lock file.  The older routes \<open>/check\<close> and
  \<open>/verify\<close> run whole snippets on a pool of REPL processes.  The client library coalesces single steps into
  batches, retries, keeps a journal of resumable batches, and extracts tactics from infotrees.

  \<^bold>\<open>Shared vocabulary.\<close>  \<open>Prelude\<close>: texts as code points (\<open>pystr\<close>, literals by \<open>lit\<close>), dictionaries as
  association lists (\<open>dget\<close>, \<open>dset\<close>, \<open>dpop\<close>, sums over them), results that may raise (\<open>ebind\<close>, \<open>emap\<close>, \<open>ensure\<close>),
  reachability (\<open>reaches\<close>) and the lemma collections.  \<open>PyText\<close>: the string methods of Python with their round
  trips.  \<open>JsonText\<close>: UTF-8, \<open>json.dumps\<close> and \<open>json.loads\<close> with their round trip.

  \<^bold>\<open>The \<open>/exec\<close> server.\<close>
  \<^item> \<open>Split\<close> (\<open>split.py\<close>, \<open>imports_from_header\<close>): a snippet is an import header in normal form and a body;
    line \<open>k\<close> of the body is line \<open>k\<close> plus the header's lines of the snippet, and splitting is idempotent.
  \<^item> \<open>Lifecycle\<close> (\<open>exec_lifecycle.py\<close>): the item registry; its invariant under every sequence of operations,
    and that a cancelled item stays refused until its record expires.
  \<^item> \<open>StateStore\<close>, \<open>StoreRuns\<close>, \<open>StoreProps\<close> (\<open>state_store.py\<close>, \<open>exec_state_files.py\<close>): the records, the index by
    item, the pins and the directory with contents and modification times; every operation, runs of timed
    operations with the workers' scratch files in between; the store's invariant, recovery of the records
    by a restart, pinned states survive, the bound of the over-budget collection, the all-or-nothing
    cleanup.  New tokens are drawn until one is free (\<open>partial_function (option)\<close>): \<open>None\<close> is not returning.
  \<^item> \<open>Limiter\<close> (\<open>exec_request_limiter.py\<close>): slots, queue and wake-ups as a step relation over every
    interleaving and cancellation; bounds and no lost wake-up.
  \<^item> \<open>Sched\<close> (\<open>exec_backend_utils.py\<close>): grouping by compatibility, lanes, caps.
  \<^item> \<open>WorkerPool\<close> (\<open>pantograph_manager.py\<close>): leasing, eviction, per-environment caps, starting and release as
    operations and as a step relation; the caps hold under every interleaving.
  \<^item> \<open>Normalize\<close> (\<open>pantograph_normalize.py\<close>, \<open>pantograph_goal.py\<close>), \<open>Worker\<close> and \<open>WorkerProcess\<close>
    (\<open>pantograph_worker.py\<close>): messages and goals; creating, stepping and verifying with scratch files and
    every error branch; axioms read from Lean's output; the process, and what \<open>debug\<close> measures.  Random file
    names are tried \<open>tmp_max\<close> = 10000 times, as \<open>tempfile\<close> does, then the worker raises.
  \<^item> \<open>StepBatch\<close>, \<open>StepBatchProps\<close> (\<open>exec_backends.py\<close>): a step batch from resolving to release, interleaved
    with the other requests, the sweeper and the workers as a list of events; its states stay, what it took
    it gives back exactly, and it answers every tactic in order.
  \<^item> \<open>Leases\<close> (\<open>exec_backends.py\<close>: the lanes' leases and \<open>return_worker\<close>): the batch and the worker pool as
    one system with every other holder of workers; every busy worker has exactly one holder, the lanes step
    states on workers of their kind, and a batch ends without a worker; batch and pool are its projections.
  \<^item> \<open>ExecRoutes\<close>, \<open>ExecProps\<close> (\<open>routers/exec.py\<close>, \<open>exec_metrics.py\<close>, \<open>exec_stats.py\<close>, \<open>auth.py\<close>): the other
    handlers with their guards and cleanup on every path.
  \<^item> \<open>ServerConfig\<close> (\<open>exec_server_config.py\<close>, \<open>settings.py\<close>, \<open>_exec_server_cli.py\<close>, \<open>lean_client/exec_server.py\<close>):
    defaults from the machine, validation, the command line in both directions.
  \<^item> \<open>ServerLock\<close> (\<open>single_process_lock.py\<close>, the start in \<open>main.py\<close>): the lock file with \<open>flock\<close> by inode; mutual
    exclusion while acquiring and releasing are not interleaved, and the interleavings that break it.
  \<^item> \<open>Lifespan\<close> (\<open>main.py\<close>): the start that puts these parts together and the end that takes them apart, in both
    modes; an accepted configuration starts with every part in its invariant, and a failed start or a run
    gives the lock back.
  \<^item> \<open>WireModels\<close>, \<open>WireResults\<close>, \<open>WireOps\<close> (\<open>lean_client/exec_models.py\<close>, \<open>schemas_exec.py\<close>): requests and
    responses as codecs between records and JSON; what the client sends is what the handler gets, and back,
    up to the decisions of clean-ups and cancellations and the limits a backend connects with.

  \<^bold>\<open>The \<open>/check\<close> server.\<close>
  \<^item> \<open>CheckPool\<close> (\<open>manager.py\<close>, \<open>routers/check.py\<close>): the pool of REPL processes and one check on every path; the
    process is given back or destroyed however the check ends; the cap holds while starts do not overlap.
  \<^item> \<open>ReplProcess\<close> (\<open>repl.py\<close>): the pipes of one process; the pool's \<open>send_timeout\<close> and \<open>prep\<close> are refined, commands
    arrive as sent and answers stay in step, every fault has its error; the monitors.
  \<^item> \<open>CheckRoute\<close>: filling the pool at the start, the snippets of a request side by side, disconnects.
  \<^item> \<open>CheckModels\<close> (\<open>lean_client/models.py\<close>, \<open>proof_utils.py\<close>, \<open>routers/backward.py\<close>): what the answers mean, and
    that the newer and the older readers agree but for refused commands.

  \<^bold>\<open>The client library.\<close>
  \<^item> \<open>Microbatch\<close> (\<open>exec_journal.py\<close>, \<open>step_batch_resumable\<close>): the journal, with the death of the process
    between any two effects; nothing is sent twice.
  \<^item> \<open>Batcher\<close>, \<open>Senders\<close>, \<open>ExecEnv\<close> (\<open>exec_env.py\<close>, \<open>_exec_env_utils.py\<close>): futures, retries and results of one
    batch, the queue and its timer, the item locks and the semaphore (no deadlock), sizing from the server's
    limits.
  \<^item> \<open>Clients\<close> (\<open>base.py\<close>, \<open>async_client.py\<close>, \<open>sync_client.py\<close>, \<open>utils.py\<close>): URLs, retries and overloads, the calls with
    their models, batched checks.  The retry loop recurses on the attempts left, so it always returns.
  \<^item> \<open>Backend\<close> (\<open>exec_backend.py\<close> and the route \<open>/exec/step_batch\<close>): connecting, and that steps which the server
    accepts one by one are accepted in the batches that the connected client forms of them.
  \<^item> \<open>Infotree\<close>, \<open>TacticText\<close> (\<open>infotree.py\<close>): the tree of tactics and their texts.
  \<^item> \<open>Mining\<close>, \<open>Replay\<close> (\<open>examples/pantograph_benchmark\<close>): proofs cut into tactic units, of which nothing is
    lost, and their replay against the server, which ends without an exception and cleans up.

  \<^bold>\<open>Interfaces.\<close>  \<open>step_system\<close> (what the steps of a component keep holds along its runs), interpreted on the limiter,
  the worker pool, the lock, the REPL pool, the senders and the joint system of batch and pool; \<open>projection\<close>
  (a step system seen through a part), interpreted twice on the latter; \<open>pin_store\<close> (a pinned state stays,
  whatever else is done), proved of the store's operations and used by the step batches;
  \<open>journal_store\<close> (what a journal must keep), interpreted on the journal's files; \<open>codec\<close>, \<open>item_codec\<close> and \<open>lenient\<close> (decoding undoes encoding, item by item and for a coercion that accepts the
  plain values), interpreted on every model of the wire.

  \<^bold>\<open>Environment.\<close>  What is not in the repository is a parameter: the Lean REPL and Pantograph (answers as
  functions of the calls so far, or values of an exchange), the operating system, \<open>psutil\<close>, pydantic's coercion
  and its validation messages, HTTP transport, clocks and random names.  Concurrency is explicit: a step
  relation over all interleavings where several tasks share state, or functions of the state that stand for
  what the rest of the server does at each \<open>await\<close>.

  \<^bold>\<open>Not modelled.\<close>  Logging and console output; the database and its client (\<open>db.py\<close>, \<open>prisma_client.py\<close>): rows are
  written after the fact and read by nothing here; the FastAPI applications, dependency injection and
  \<open>health\<close>; \<open>__main__\<close> and the banners; progress bars, thread pools and the download of datasets in the clients;
  the client's copy of the configuration helpers, which is the server's text; the benchmark's cache file,
  memory sampling and report, and the other scripts under \<open>src/examples\<close>, which call and print; the
  rounding of floats in reported times and percentages, and with it the models of diagnostics and statistics
  on the wire.
\<close>

end
